(* ===== verification/Prelude.thy ===== *)
theory Prelude
  imports Complex_Main "HOL-Library.AList" "HOL-Library.Multiset" "HOL-Library.Char_ord"
    "HOL-Library.List_Lexorder" "HOL-Library.Sublist"
begin

text \<open>
  What the components share: the collections of simplification rules, the parts of Go's
  standard library that the sources call (\<open>sort.Slice\<close>, \<open>sort.Search\<close>, \<open>strconv.FormatInt\<close>,
  the \<open>%020d\<close> verb of \<open>fmt.Sprintf\<close>) and the generic lemmas on lists and association lists
  that the component proofs rest on.  A Go map is an association list with distinct keys: it is
  read with \<open>map_of\<close>, written with \<open>AList.update\<close> and \<open>AList.delete\<close>, and its iteration order is
  the list order.  A Go string is its list of bytes, so \<open><\<close> on strings (from
  \<open>List_Lexorder\<close> and \<open>Char_ord\<close>) is Go's bytewise comparison.
\<close>

named_theorems model_defs \<open>definitions that a component's proofs unfold together\<close>
named_theorems alist_simps \<open>association lists read through \<open>map_of\<close>\<close>

section \<open>Go maps as association lists\<close>

type_synonym ('k, 'v) gomap = "('k \<times> 'v) list"

abbreviation map_keys :: "('k, 'v) gomap \<Rightarrow> 'k list" where
  "map_keys m \<equiv> map fst m"

definition wf_map :: "('k, 'v) gomap \<Rightarrow> bool" where
  "wf_map m \<longleftrightarrow> distinct (map fst m)"

lemma map_of_update [alist_simps, simp]:
  "map_of (AList.update k v m) = (map_of m)(k \<mapsto> v)"
  by (rule AList.update_conv')

lemma map_of_alist_delete [alist_simps, simp]:
  "map_of (AList.delete k m) = (map_of m)(k := None)"
  by (rule AList.delete_conv')

lemma wf_map_empty [simp, intro]: "wf_map []"
  by (simp add: wf_map_def)

lemma wf_map_update [simp, intro]: "wf_map m \<Longrightarrow> wf_map (AList.update k v m)"
  by (simp add: wf_map_def AList.distinct_update)

lemma wf_map_delete [simp, intro]: "wf_map m \<Longrightarrow> wf_map (AList.delete k m)"
  by (simp add: wf_map_def AList.delete_keys distinct_removeAll)

lemma wf_map_filter [simp, intro]: "wf_map m \<Longrightarrow> wf_map (filter P m)"
  unfolding wf_map_def by (induction m) auto

lemma wf_map_Cons: "wf_map ((k, v) # m) \<longleftrightarrow> map_of m k = None \<and> wf_map m"
  by (auto simp: wf_map_def map_of_eq_None_iff)

lemma wf_map_in_set_iff: "wf_map m \<Longrightarrow> (k, v) \<in> set m \<longleftrightarrow> map_of m k = Some v"
  by (auto simp: wf_map_def dest: map_of_SomeD)

lemma map_of_filter_keys:
  "map_of (filter (\<lambda>e. P (fst e)) m) k = (if P k then map_of m k else None)"
  by (induction m) auto

lemma dom_map_of: "dom (map_of m) = set (map_keys m)"
  by (simp add: dom_map_of_conv_image_fst)

section \<open>\<open>sort.Slice\<close> and \<open>sort.SliceStable\<close>\<close>

text \<open>
  \<open>sort.Slice\<close> may use any comparison sort.  Every comparator of the sources is a strict weak
  order on the values that occur, and all but the stable one of \<open>QueueSnapshot\<close> break their ties
  on a unique id; \<open>slice_order.sort_by_unique\<close> below shows that then only one sorted permutation
  exists, so the stable insertion sort \<open>sort_by\<close> is what every sort returns.
\<close>

fun insort_by :: "('a \<Rightarrow> 'a \<Rightarrow> bool) \<Rightarrow> 'a \<Rightarrow> 'a list \<Rightarrow> 'a list" where
  "insort_by lt x [] = [x]"
| "insort_by lt x (y # ys) = (if lt y x then y # insort_by lt x ys else x # y # ys)"

fun sort_by :: "('a \<Rightarrow> 'a \<Rightarrow> bool) \<Rightarrow> 'a list \<Rightarrow> 'a list" where
  "sort_by lt [] = []"
| "sort_by lt (x # xs) = insort_by lt x (sort_by lt xs)"

lemma mset_insort_by [simp]: "mset (insort_by lt x ys) = add_mset x (mset ys)"
  by (induction ys) auto

lemma mset_sort_by [simp]: "mset (sort_by lt xs) = mset xs"
  by (induction xs) auto

lemma set_sort_by [simp]: "set (sort_by lt xs) = set xs"
  by (metis mset_sort_by set_mset_mset)

lemma set_insort_by [simp]: "set (insort_by lt x ys) = insert x (set ys)"
  by (metis mset_insort_by set_mset_add_mset_insert set_mset_mset)

lemma length_sort_by [simp]: "length (sort_by lt xs) = length xs"
  by (metis mset_sort_by size_mset)

lemma distinct_sort_by [simp]: "distinct (sort_by lt xs) = distinct xs"
  by (rule mset_eq_imp_distinct_iff) simp

lemma distinct_map_sort_by [simp]: "distinct (map f (sort_by lt xs)) = distinct (map f xs)"
  by (rule mset_eq_imp_distinct_iff) simp

lemma sorted_wrt_mset_unique:
  assumes "sorted_wrt R xs" "sorted_wrt R ys" "mset xs = mset ys"
    and "\<And>x y. x \<in> set xs \<Longrightarrow> y \<in> set xs \<Longrightarrow> R x y \<Longrightarrow> R y x \<Longrightarrow> x = y"
  shows "xs = ys"
  using assms
proof (induction xs arbitrary: ys)
  case (Cons x xs)
  from Cons.prems(3) obtain y ys' where ys: "ys = y # ys'"
    by (metis list.exhaust mset_zero_iff list.distinct(1))
  have sets: "set (x # xs) = set (y # ys')"
    using Cons.prems(3) ys by (metis mset_eq_setD)
  have "x = y"
  proof (rule ccontr)
    assume "x \<noteq> y"
    then have "x \<in> set ys'" "y \<in> set xs" using sets by auto
    then have "R y x" "R x y" using Cons.prems(1,2) ys by auto
    with Cons.prems(4) sets \<open>x \<noteq> y\<close> show False by (metis list.set_intros(1))
  qed
  with Cons ys show ?case by auto
qed simp

text \<open>The interface of a comparator: a strict weak order on the values it is used on.\<close>

locale slice_order =
  fixes lt :: "'a \<Rightarrow> 'a \<Rightarrow> bool"
    and carrier :: "'a \<Rightarrow> bool"
  assumes asym: "carrier x \<Longrightarrow> carrier y \<Longrightarrow> lt x y \<Longrightarrow> \<not> lt y x"
    and cotrans: "carrier x \<Longrightarrow> carrier y \<Longrightarrow> carrier z \<Longrightarrow> lt x z \<Longrightarrow> lt x y \<or> lt y z"
begin

lemma trans_less:
  assumes "carrier x" "carrier y" "carrier z" and "lt x y" "lt y z"
  shows "lt x z"
  using assms asym cotrans by metis

lemma sorted_insort_by:
  assumes "carrier x" "list_all carrier ys" "sorted_wrt (\<lambda>a b. \<not> lt b a) ys"
  shows "sorted_wrt (\<lambda>a b. \<not> lt b a) (insort_by lt x ys)"
  using assms
proof (induction ys)
  case (Cons y ys)
  show ?case
  proof (cases "lt y x")
    case True
    with Cons show ?thesis by (auto simp: list_all_iff asym)
  next
    case False
    have "\<not> lt z x" if "z \<in> set ys" for z
      using that False Cons.prems cotrans [of z y x] by (auto simp: list_all_iff)
    with False Cons.prems show ?thesis by auto
  qed
qed simp

lemma sorted_sort_by:
  "list_all carrier xs \<Longrightarrow> sorted_wrt (\<lambda>a b. \<not> lt b a) (sort_by lt xs)"
  by (induction xs) (auto simp: list_all_iff sorted_insort_by)

text \<open>With ties broken, a list has one sorted permutation.\<close>

lemma sort_by_unique:
  assumes "list_all carrier xs"
    and "\<And>x y. x \<in> set xs \<Longrightarrow> y \<in> set xs \<Longrightarrow> x \<noteq> y \<Longrightarrow> lt x y \<or> lt y x"
    and "mset ys = mset xs" and "sorted_wrt (\<lambda>a b. \<not> lt b a) ys"
  shows "ys = sort_by lt xs"
proof (rule sorted_wrt_mset_unique)
  show "sorted_wrt (\<lambda>a b. \<not> lt b a) (sort_by lt xs)"
    using assms(1) by (rule sorted_sort_by)
  show "x = y" if "x \<in> set ys" "y \<in> set ys" "\<not> lt y x" "\<not> lt x y" for x y
    using that assms(2) mset_eq_setD [OF assms(3)] by blast
qed (use assms in auto)

end

section \<open>\<open>sort.Search\<close>\<close>

text \<open>The binary search of the standard library: the loop over the half-open range \<open>[i, j)\<close>.\<close>

function search_loop :: "(nat \<Rightarrow> bool) \<Rightarrow> nat \<Rightarrow> nat \<Rightarrow> nat" where
  "search_loop f i j =
     (if i < j then (let h = (i + j) div 2 in
        if f h then search_loop f i h else search_loop f (Suc h) j)
      else i)"
  by pat_completeness auto
termination
  by (relation "measure (\<lambda>(f, i, j). j - i)") auto

declare search_loop.simps [simp del]

definition sort_Search :: "nat \<Rightarrow> (nat \<Rightarrow> bool) \<Rightarrow> nat" where
  "sort_Search n f = search_loop f 0 n"

lemma search_loop_spec:
  assumes "i \<le> j" and "\<And>a b. f a \<Longrightarrow> a \<le> b \<Longrightarrow> b < j \<Longrightarrow> f b"
  shows "i \<le> search_loop f i j \<and> search_loop f i j \<le> j \<and>
    (\<forall>k. i \<le> k \<and> k < search_loop f i j \<longrightarrow> \<not> f k) \<and>
    (\<forall>k. search_loop f i j \<le> k \<and> k < j \<longrightarrow> f k)"
  using assms
proof (induction f i j rule: search_loop.induct)
  case (1 f i j)
  show ?case
  proof (cases "i < j")
    case True
    define h where "h = (i + j) div 2"
    have h: "i \<le> h" "h < j" using True by (auto simp: h_def)
    show ?thesis
    proof (cases "f h")
      case True
      have eq: "search_loop f i j = search_loop f i h"
        using \<open>i < j\<close> True by (simp add: search_loop.simps [of f i j] h_def Let_def)
      have above: "f k" if "h \<le> k" "k < j" for k
        using that True "1.prems"(2) by blast
      have ih: "i \<le> search_loop f i h \<and> search_loop f i h \<le> h \<and>
        (\<forall>k. i \<le> k \<and> k < search_loop f i h \<longrightarrow> \<not> f k) \<and>
        (\<forall>k. search_loop f i h \<le> k \<and> k < h \<longrightarrow> f k)"
        using "1.IH"(1) [OF \<open>i < j\<close> h_def] True h "1.prems"(2) by (meson less_trans)
      show ?thesis
        unfolding eq using ih above h by (meson le_less_trans less_imp_le not_le)
    next
      case False
      have eq: "search_loop f i j = search_loop f (Suc h) j"
        using \<open>i < j\<close> False by (simp add: search_loop.simps [of f i j] h_def Let_def)
      have below: "\<not> f k" if "k \<le> h" for k
        using that False h "1.prems"(2) by blast
      have ih: "Suc h \<le> search_loop f (Suc h) j \<and> search_loop f (Suc h) j \<le> j \<and>
        (\<forall>k. Suc h \<le> k \<and> k < search_loop f (Suc h) j \<longrightarrow> \<not> f k) \<and>
        (\<forall>k. search_loop f (Suc h) j \<le> k \<and> k < j \<longrightarrow> f k)"
        using "1.IH"(2) [OF \<open>i < j\<close> h_def] False h "1.prems"(2) by (simp add: Suc_leI)
      show ?thesis
        unfolding eq using ih below h by (meson Suc_leD le_trans not_less_eq_eq)
    qed
  next
    case False
    with "1.prems"(1) have "i = j" by simp
    then show ?thesis using search_loop.simps [of f j j] by auto
  qed
qed

lemma sort_Search_spec:
  assumes "\<And>a b. f a \<Longrightarrow> a \<le> b \<Longrightarrow> b < n \<Longrightarrow> f b"
  shows "sort_Search n f \<le> n" "k < sort_Search n f \<Longrightarrow> \<not> f k"
    "sort_Search n f \<le> k \<Longrightarrow> k < n \<Longrightarrow> f k"
  using search_loop_spec [of 0 n f] assms by (auto simp: sort_Search_def)

section \<open>Decimal numbers: \<open>strconv.FormatInt\<close> and \<open>%020d\<close>\<close>

definition digit_char :: "nat \<Rightarrow> char" where
  "digit_char d = char_of (48 + d)"

fun nat_str :: "nat \<Rightarrow> string" where
  "nat_str n = (if n < 10 then [digit_char n] else nat_str (n div 10) @ [digit_char (n mod 10)])"

declare nat_str.simps [simp del]

definition FormatInt :: "int \<Rightarrow> string" where
  "FormatInt z = (if z < 0 then CHR ''-'' # nat_str (nat (- z)) else nat_str (nat z))"

text \<open>\<open>%020d\<close> pads with zeros after the sign to a total width of twenty.\<close>

definition pad020 :: "int \<Rightarrow> string" where
  "pad020 z = (if z < 0
     then CHR ''-'' # replicate (19 - length (nat_str (nat (- z)))) (CHR ''0'') @ nat_str (nat (- z))
     else replicate (20 - length (nat_str (nat z))) (CHR ''0'') @ nat_str (nat z))"

definition digit_val :: "char \<Rightarrow> nat" where
  "digit_val c = of_char c - 48"

fun str_val :: "string \<Rightarrow> nat" where
  "str_val [] = 0"
| "str_val (c # cs) = digit_val c * 10 ^ length cs + str_val cs"

definition is_digit :: "char \<Rightarrow> bool" where
  "is_digit c \<longleftrightarrow> 48 \<le> (of_char c :: nat) \<and> (of_char c :: nat) \<le> 57"

lemma digit_char_val [simp]: "d < 10 \<Longrightarrow> digit_val (digit_char d) = d"
  by (simp add: digit_val_def digit_char_def)

lemma is_digit_digit_char [simp]: "d < 10 \<Longrightarrow> is_digit (digit_char d)"
  by (simp add: is_digit_def digit_char_def)

lemma str_val_append: "str_val (xs @ ys) = str_val xs * 10 ^ length ys + str_val ys"
  by (induction xs) (auto simp: algebra_simps power_add)

lemma str_val_nat_str [simp]: "str_val (nat_str n) = n"
proof (induction n rule: nat_str.induct)
  case (1 n)
  then show ?case
    by (cases "n < 10") (simp_all add: nat_str.simps [of n] str_val_append)
qed

lemma nat_str_inject [simp]: "nat_str a = nat_str b \<longleftrightarrow> a = b"
  by (metis str_val_nat_str)

lemma nat_str_digits: "c \<in> set (nat_str n) \<Longrightarrow> is_digit c"
proof (induction n rule: nat_str.induct)
  case (1 n)
  then show ?case by (cases "n < 10") (auto simp: nat_str.simps [of n])
qed

lemma nat_str_nonempty [simp]: "nat_str n \<noteq> []"
  by (simp add: nat_str.simps [of n])

lemma length_nat_str: "n < 10 ^ k \<Longrightarrow> 0 < k \<Longrightarrow> length (nat_str n) \<le> k"
proof (induction n arbitrary: k rule: nat_str.induct)
  case (1 n)
  show ?case
  proof (cases "n < 10")
    case True
    with "1.prems" show ?thesis by (simp add: nat_str.simps [of n])
  next
    case False
    with "1.prems" obtain k' where k: "k = Suc k'" "0 < k'"
      by (cases k; cases "k - 1") auto
    have "n div 10 < 10 ^ k'" using "1.prems" k by (simp add: less_mult_imp_div_less)
    with "1.IH" False k have "length (nat_str (n div 10)) \<le> k'" by blast
    with False k show ?thesis by (simp add: nat_str.simps [of n])
  qed
qed

lemma FormatInt_inject [simp]: "FormatInt a = FormatInt b \<longleftrightarrow> a = b"
proof -
  have "CHR ''-'' \<notin> set (nat_str n)" for n
    using nat_str_digits [of "CHR ''-''" n] by (auto simp: is_digit_def)
  then have "nat_str n \<noteq> CHR ''-'' # xs" for n xs by (metis list.set_intros(1))
  moreover have "CHR ''-'' # xs \<noteq> nat_str n" for n xs using calculation by metis
  ultimately show ?thesis by (auto simp: FormatInt_def)
qed

lemma str_val_replicate_zero [simp]: "str_val (replicate n (CHR ''0'') @ xs) = str_val xs"
  by (induction n) (auto simp: digit_val_def)

lemma pad020_length: "0 \<le> z \<Longrightarrow> z < 10 ^ 20 \<Longrightarrow> length (pad020 z) = 20"
  using length_nat_str [of "nat z" 20] by (simp add: pad020_def nat_less_iff)

lemma pad020_val: "0 \<le> z \<Longrightarrow> str_val (pad020 z) = nat z"
  by (simp add: pad020_def)

lemma is_digit_0 [simp]: "is_digit (CHR ''0'')"
  by (simp add: is_digit_def)

lemma pad020_digits: "0 \<le> z \<Longrightarrow> c \<in> set (pad020 z) \<Longrightarrow> is_digit c"
  by (auto simp: pad020_def dest: nat_str_digits)

lemma pad020_inject: "0 \<le> a \<Longrightarrow> 0 \<le> b \<Longrightarrow> pad020 a = pad020 b \<longleftrightarrow> a = b"
  by (metis pad020_val nat_eq_iff2)

text \<open>On digit strings of one length, the bytewise order is the numeric order.\<close>

lemma str_val_bound: "list_all is_digit xs \<Longrightarrow> str_val xs < 10 ^ length xs"
proof (induction xs)
  case (Cons c cs)
  then have "digit_val c \<le> 9" "str_val cs < 10 ^ length cs"
    by (auto simp: digit_val_def is_digit_def)
  then have "digit_val c * 10 ^ length cs + str_val cs < 9 * 10 ^ length cs + 10 ^ length cs"
    by (meson add_le_less_mono mult_le_mono1)
  then show ?case by simp
qed simp

lemma digit_val_less: "is_digit c \<Longrightarrow> is_digit d \<Longrightarrow> digit_val c < digit_val d \<longleftrightarrow> c < d"
  by (auto simp: digit_val_def is_digit_def less_char_def)

lemma digit_val_eq: "is_digit c \<Longrightarrow> is_digit d \<Longrightarrow> digit_val c = digit_val d \<longleftrightarrow> c = d"
  by (auto simp: digit_val_def is_digit_def)
     (metis char_of_char le_add_diff_inverse)

lemma str_val_Cons_less:
  assumes "length xs = length ys" "str_val xs < 10 ^ length ys" "digit_val x < digit_val y"
  shows "str_val (x # xs) < str_val (y # ys)"
proof -
  have "digit_val x * 10 ^ length ys + str_val xs < Suc (digit_val x) * 10 ^ length ys"
    using assms(2) by simp
  also have "\<dots> \<le> digit_val y * 10 ^ length ys"
    using assms(3) by (intro mult_le_mono1) simp
  finally show ?thesis using assms(1) by simp
qed

lemma str_less_iff_val:
  assumes "length xs = length ys" "list_all is_digit xs" "list_all is_digit ys"
  shows "xs < ys \<longleftrightarrow> str_val xs < str_val ys"
  using assms
proof (induction xs ys rule: list_induct2)
  case (Cons x xs y ys)
  have b: "str_val xs < 10 ^ length ys" "str_val ys < 10 ^ length ys"
    using str_val_bound [of xs] str_val_bound [of ys] Cons by auto
  consider "digit_val x < digit_val y" | "digit_val x = digit_val y" | "digit_val y < digit_val x"
    by linarith
  then show ?case
  proof cases
    case 1
    then have "x < y" using digit_val_less Cons.prems by simp
    then show ?thesis using str_val_Cons_less [OF Cons.hyps b(1) 1] by simp
  next
    case 2
    then have "x = y" using digit_val_eq Cons.prems by simp
    with Cons show ?thesis by simp
  next
    case 3
    then have "\<not> x < y" "x \<noteq> y" using digit_val_less [of y x] Cons.prems by auto
    then show ?thesis
      using str_val_Cons_less [of ys xs y x] 3 b Cons.hyps by (simp add: order.asym)
  qed
qed simp

lemma pad020_less:
  assumes "0 \<le> a" "a < 10 ^ 20" "0 \<le> b" "b < 10 ^ 20"
  shows "pad020 a < pad020 b \<longleftrightarrow> a < b"
proof -
  have "pad020 a < pad020 b \<longleftrightarrow> str_val (pad020 a) < str_val (pad020 b)"
    using assms by (intro str_less_iff_val) (auto simp: pad020_length list_all_iff pad020_digits)
  with assms show ?thesis by (auto simp: pad020_val nat_less_eq_zless)
qed

lemma append_less_iff: "(xs @ ys < xs @ zs) \<longleftrightarrow> ys < (zs :: string)"
  by (induction xs) auto

lemma append_same_length_less:
  "length xs = length ys \<Longrightarrow> xs < ys \<Longrightarrow> xs @ us < ys @ (vs :: string)"
  by (induction xs ys rule: list_induct2) auto

end
