(* ===== verification/GoFloat.thy ===== *)
theory GoFloat
  imports Prelude "HOL-Library.Log_Nat"
begin

text \<open>
  Go's \<open>float32\<close> and \<open>float64\<close>: IEEE 754 binary32 and binary64 with rounding to nearest, ties to
  even.  A finite value is its rational number (negative zero is a value of its own), and every
  operation rounds the exact rational result once, as the language definition prescribes.  The
  lemmas are what the numeric components rest on: rounding is monotone, exact on small integers
  and odd, addition and multiplication commute, and comparison is a strict weak order away from
  NaN.
\<close>

datatype flt = NaN | Inf bool | NegZero | Fin rat

record ffmt =
  fprec :: int
  fqmin :: int
  femax :: int

definition F64 :: ffmt where
  "F64 = \<lparr>fprec = 53, fqmin = -1074, femax = 1024\<rparr>"

definition F32 :: ffmt where
  "F32 = \<lparr>fprec = 24, fqmin = -149, femax = 128\<rparr>"

section \<open>Rounding\<close>

text \<open>\<open>pow2 k\<close> is the power of two \<open>2 powi k\<close> in a form that computes.\<close>

definition pow2 :: "int \<Rightarrow> rat" where
  "pow2 k = (if 0 \<le> k then of_int (2 ^ nat k) else 1 / of_int (2 ^ nat (- k)))"

lemma pow2_powi: "pow2 k = 2 powi k"
  by (simp add: pow2_def power_int_def inverse_eq_divide power_one_over)

definition ilog2 :: "rat \<Rightarrow> int" where
  "ilog2 q = (if 1 \<le> q then bitlen \<lfloor>q\<rfloor> - 1 else - bitlen (\<lceil>1 / q\<rceil> - 1))"

definition round_half_even :: "rat \<Rightarrow> int" where
  "round_half_even q = (let f = \<lfloor>q\<rfloor>; r = q - of_int f in
     if r < 1/2 then f else if 1/2 < r then f + 1 else if even f then f else f + 1)"

definition quantum :: "ffmt \<Rightarrow> rat \<Rightarrow> rat" where
  "quantum F q = pow2 (max (ilog2 \<bar>q\<bar> - (fprec F - 1)) (fqmin F))"

definition round_rat :: "ffmt \<Rightarrow> rat \<Rightarrow> rat" where
  "round_rat F q = (if q = 0 then 0 else of_int (round_half_even (q / quantum F q)) * quantum F q)"

definition fround :: "ffmt \<Rightarrow> rat \<Rightarrow> flt" where
  "fround F q = (let r = round_rat F q in
     if r = 0 then (if q < 0 then NegZero else Fin 0)
     else if femax F \<le> ilog2 \<bar>r\<bar> then Inf (q < 0)
     else Fin r)"

lemma bitlen_pow_bounds:
  assumes "0 < (n::int)"
  shows "2 powi (bitlen n - 1) \<le> (of_int n :: rat)" "(of_int n :: rat) < 2 powi (bitlen n)"
proof -
  from assms have b: "0 < bitlen n" by (simp add: bitlen_nonneg le_neq_trans bitlen_eq_zero_iff less_le)
  from bitlen_bounds [OF assms] have
    "2 ^ nat (bitlen n - 1) \<le> n" "n < 2 ^ nat (bitlen n)" by auto
  then have "(of_int (2 ^ nat (bitlen n - 1)) :: rat) \<le> of_int n"
    "(of_int n :: rat) < of_int (2 ^ nat (bitlen n))"
    using of_int_le_iff of_int_less_iff by blast+
  with b show "2 powi (bitlen n - 1) \<le> (of_int n :: rat)" "(of_int n :: rat) < 2 powi (bitlen n)"
    by (auto simp: power_int_def)
qed

lemma ilog2_bounds:
  assumes "0 < q"
  shows "2 powi (ilog2 q) \<le> q" "q < 2 powi (ilog2 q + 1)"
proof -
  have "2 powi (ilog2 q) \<le> q \<and> q < 2 powi (ilog2 q + 1)"
  proof (cases "1 \<le> q")
    case True
    then have f: "0 < \<lfloor>q\<rfloor>" by simp
    have "\<lfloor>q\<rfloor> < 2 ^ nat (bitlen \<lfloor>q\<rfloor>)" using bitlen_bounds [OF f] by simp
    then have "\<lfloor>q\<rfloor> + 1 \<le> 2 ^ nat (bitlen \<lfloor>q\<rfloor>)" by simp
    then have "(of_int (\<lfloor>q\<rfloor> + 1) :: rat) \<le> of_int (2 ^ nat (bitlen \<lfloor>q\<rfloor>))"
      using of_int_le_iff by blast
    then have "of_int \<lfloor>q\<rfloor> + 1 \<le> (2::rat) powi (bitlen \<lfloor>q\<rfloor>)"
      by (simp add: power_int_def bitlen_nonneg)
    moreover have "q < of_int \<lfloor>q\<rfloor> + 1" "of_int \<lfloor>q\<rfloor> \<le> q" by linarith+
    moreover have "2 powi (bitlen \<lfloor>q\<rfloor> - 1) \<le> (of_int \<lfloor>q\<rfloor> :: rat)"
      using bitlen_pow_bounds(1) [OF f] .
    ultimately have "2 powi (bitlen \<lfloor>q\<rfloor> - 1) \<le> q" "q < 2 powi (bitlen \<lfloor>q\<rfloor>)" by linarith+
    then show ?thesis using True by (simp add: ilog2_def)
  next
    case False
    define n where "n = \<lceil>1 / q\<rceil> - 1"
    have "1 < 1 / q" using False assms by simp
    then have n: "0 < n" unfolding n_def by linarith
    have up: "1 / q \<le> of_int n + 1" and lo: "of_int n < 1 / q" unfolding n_def by linarith+
    have "n < 2 ^ nat (bitlen n)" using bitlen_bounds [OF n] by simp
    then have "(of_int (n + 1) :: rat) \<le> of_int (2 ^ nat (bitlen n))"
      using of_int_le_iff by (metis add1_zle_eq)
    then have "1 / q \<le> 2 powi (bitlen n)"
      using up by (simp add: power_int_def bitlen_nonneg)
    then have 1: "2 powi (- bitlen n) \<le> q"
      using assms by (simp add: power_int_minus field_simps)
    have "2 powi (bitlen n - 1) < 1 / q"
      using bitlen_pow_bounds(1) [OF n] lo by (rule le_less_trans)
    then have "q < inverse (2 powi (bitlen n - 1))"
      using assms by (simp add: field_simps)
    then have 2: "q < 2 powi (- bitlen n + 1)"
      by (simp add: power_int_minus [symmetric])
    from 1 2 False show ?thesis by (simp add: ilog2_def n_def)
  qed
  then show "2 powi (ilog2 q) \<le> q" "q < 2 powi (ilog2 q + 1)" by auto
qed

lemma two_powi_mono: "a \<le> b \<Longrightarrow> (2::rat) powi a \<le> 2 powi b"
  by (rule power_int_increasing) auto

lemma two_powi_less: "(2::rat) powi a < 2 powi b \<longleftrightarrow> a < b"
  by (metis linorder_not_less two_powi_mono power_int_strict_increasing one_less_numeral_iff
      semiring_norm(76) order.strict_iff_not)

lemma ilog2_unique:
  assumes "2 powi e \<le> q" "q < 2 powi (e + 1)"
  shows "ilog2 q = e"
proof -
  have q: "0 < q" using assms(1) zero_less_power_int [of "2::rat" e] by linarith
  have "(2::rat) powi e < 2 powi (ilog2 q + 1)" "(2::rat) powi (ilog2 q) < 2 powi (e + 1)"
    using assms ilog2_bounds [OF q] by linarith+
  then show ?thesis by (simp add: two_powi_less)
qed

lemma ilog2_mono: "0 < x \<Longrightarrow> x \<le> y \<Longrightarrow> ilog2 x \<le> ilog2 y"
proof -
  assume "0 < x" "x \<le> y"
  then have "(2::rat) powi (ilog2 x) < 2 powi (ilog2 y + 1)"
    using ilog2_bounds [of x] ilog2_bounds [of y] by linarith
  then show ?thesis by (simp add: two_powi_less)
qed

lemma quantum_pos [simp]: "0 < quantum F q"
  by (simp add: quantum_def pow2_powi)

lemma quantum_nonzero [simp]: "quantum F q \<noteq> 0"
  using quantum_pos [of F q] by linarith

lemma quantum_minus [simp]: "quantum F (- q) = quantum F q"
  by (simp add: quantum_def)

lemma round_half_even_int [simp]: "round_half_even (of_int n) = n"
  by (simp add: round_half_even_def)

lemma round_half_even_bounds: "\<lfloor>q\<rfloor> \<le> round_half_even q \<and> round_half_even q \<le> \<lfloor>q\<rfloor> + 1"
  by (simp add: round_half_even_def Let_def)

lemma round_half_even_mono:
  assumes "x \<le> y"
  shows "round_half_even x \<le> round_half_even y"
proof (cases "\<lfloor>x\<rfloor> = \<lfloor>y\<rfloor>")
  case True
  with assms show ?thesis by (auto simp: round_half_even_def Let_def)
next
  case False
  then have "\<lfloor>x\<rfloor> + 1 \<le> \<lfloor>y\<rfloor>" using assms floor_mono [of x y] by linarith
  with round_half_even_bounds [of x] round_half_even_bounds [of y] show ?thesis by linarith
qed

lemma floor_of_neg: "\<lfloor>- q\<rfloor> = (if of_int \<lfloor>q\<rfloor> = q then - \<lfloor>q\<rfloor> else - \<lfloor>q\<rfloor> - 1)"
  by (auto simp: floor_minus ceiling_altdef)

lemma round_half_even_minus: "round_half_even (- q) = - round_half_even q"
proof (cases "of_int \<lfloor>q\<rfloor> = q")
  case True
  then have "q = of_int \<lfloor>q\<rfloor>" by (rule sym)
  then obtain n where "q = of_int n" by blast
  then show ?thesis by (metis of_int_minus round_half_even_int)
next
  case False
  then have f: "\<lfloor>- q\<rfloor> = - \<lfloor>q\<rfloor> - 1" by (simp add: floor_of_neg)
  define r where "r = q - of_int \<lfloor>q\<rfloor>"
  have m: "- q - of_int (- \<lfloor>q\<rfloor> - 1) = 1 - r" by (simp add: r_def)
  have "round_half_even q = (if r < 1/2 then \<lfloor>q\<rfloor> else if 1/2 < r then \<lfloor>q\<rfloor> + 1
      else if even \<lfloor>q\<rfloor> then \<lfloor>q\<rfloor> else \<lfloor>q\<rfloor> + 1)"
    by (simp only: round_half_even_def Let_def r_def)
  moreover have "round_half_even (- q) = (if 1 - r < 1/2 then - \<lfloor>q\<rfloor> - 1 else if 1/2 < 1 - r
      then - \<lfloor>q\<rfloor> - 1 + 1 else if even (- \<lfloor>q\<rfloor> - 1) then - \<lfloor>q\<rfloor> - 1 else - \<lfloor>q\<rfloor> - 1 + 1)"
    by (simp only: round_half_even_def Let_def f m)
  ultimately show ?thesis by (auto simp: field_simps)
qed

lemma round_rat_zero [simp]: "round_rat F 0 = 0"
  by (simp add: round_rat_def)

lemma round_rat_minus [simp]: "round_rat F (- q) = - round_rat F q"
  by (simp add: round_rat_def round_half_even_minus)

lemma round_rat_le_multiple:
  assumes "x \<le> of_int m * quantum F x" "x \<noteq> 0"
  shows "round_rat F x \<le> of_int m * quantum F x"
proof -
  have "x / quantum F x \<le> of_int m" using assms(1) by (simp add: pos_divide_le_eq)
  then have "round_half_even (x / quantum F x) \<le> m"
    using round_half_even_mono [of "x / quantum F x" "of_int m"] by simp
  with assms(2) show ?thesis by (simp add: round_rat_def)
qed

lemma round_rat_ge_multiple:
  assumes "of_int m * quantum F x \<le> x" "x \<noteq> 0"
  shows "of_int m * quantum F x \<le> round_rat F x"
proof -
  have "of_int m \<le> x / quantum F x" using assms(1) by (simp add: pos_le_divide_eq)
  then have "m \<le> round_half_even (x / quantum F x)"
    using round_half_even_mono [of "of_int m" "x / quantum F x"] by simp
  with assms(2) show ?thesis by (simp add: round_rat_def)
qed

lemma round_rat_nonneg: "0 \<le> x \<Longrightarrow> 0 \<le> round_rat F x"
  using round_rat_ge_multiple [of 0 F x] by (cases "x = 0") auto

lemma round_rat_nonpos: "x \<le> 0 \<Longrightarrow> round_rat F x \<le> 0"
  using round_rat_nonneg [of "- x" F] by simp

lemma two_powi_multiple: "k \<le> e \<Longrightarrow> (2::rat) powi e = of_int (2 ^ nat (e - k)) * 2 powi k"
  by (simp add: power_int_add [symmetric] flip: power_int_of_nat)

lemma round_rat_mono_pos:
  assumes F: "1 \<le> fprec F" and "0 < x" "x \<le> y"
  shows "round_rat F x \<le> round_rat F y"
proof -
  define kx where "kx = max (ilog2 x - (fprec F - 1)) (fqmin F)"
  define ky where "ky = max (ilog2 y - (fprec F - 1)) (fqmin F)"
  have qx: "quantum F x = 2 powi kx" and qy: "quantum F y = 2 powi ky"
    using assms by (auto simp: quantum_def kx_def ky_def pow2_powi)
  have l: "ilog2 x \<le> ilog2 y" using assms by (intro ilog2_mono)
  show ?thesis
  proof (cases "kx = ky")
    case True
    have "x / quantum F x \<le> y / quantum F x"
      using assms(3) by (intro divide_right_mono) (simp_all add: less_imp_le)
    with True qx qy assms show ?thesis
      by (simp add: round_rat_def round_half_even_mono mult_right_mono)
  next
    case False
    with l have k: "kx < ky" by (auto simp: kx_def ky_def)
    then have ky': "ky = ilog2 y - (fprec F - 1)" and lxy: "ilog2 x < ilog2 y"
      using l by (auto simp: kx_def ky_def)
    let ?B = "2 powi (ilog2 y) :: rat"
    have "x < 2 powi (ilog2 x + 1)" using assms(2) by (rule ilog2_bounds)
    also have "\<dots> \<le> ?B" using lxy by (intro two_powi_mono) simp
    finally have xB: "x \<le> ?B" by simp
    have yB: "?B \<le> y" using assms by (intro ilog2_bounds) simp
    have mx: "?B = of_int (2 ^ nat (ilog2 y - kx)) * quantum F x"
      unfolding qx using k ky' F by (intro two_powi_multiple) simp
    have my: "?B = of_int (2 ^ nat (ilog2 y - ky)) * quantum F y"
      unfolding qy using ky' F by (intro two_powi_multiple) simp
    have "round_rat F x \<le> ?B"
      using round_rat_le_multiple [of x "2 ^ nat (ilog2 y - kx)" F] xB mx assms(2) by simp
    also have "?B \<le> round_rat F y"
      using round_rat_ge_multiple [of "2 ^ nat (ilog2 y - ky)" F y] yB my assms by simp
    finally show ?thesis .
  qed
qed

lemma round_rat_mono:
  assumes "1 \<le> fprec F" "x \<le> y"
  shows "round_rat F x \<le> round_rat F y"
proof -
  consider "0 < x" | "x \<le> 0" "0 \<le> y" | "y < 0" by linarith
  then show ?thesis
  proof cases
    case 1
    then show ?thesis using assms by (intro round_rat_mono_pos)
  next
    case 2
    then show ?thesis using round_rat_nonneg [of y F] round_rat_nonpos [of x F] by linarith
  next
    case 3
    then show ?thesis using round_rat_mono_pos [of F "- y" "- x"] assms by simp
  qed
qed

lemma round_rat_int:
  assumes "1 \<le> fprec F" "fqmin F \<le> 0" "\<bar>n\<bar> < 2 ^ nat (fprec F)"
  shows "round_rat F (of_int n) = of_int n"
proof (cases "n = 0")
  case False
  let ?q = "of_int n :: rat"
  have pos: "0 < \<bar>?q\<bar>" using False by simp
  have "of_int \<bar>n\<bar> < (of_int (2 ^ nat (fprec F)) :: rat)" using assms(3) of_int_less_iff by blast
  then have "\<bar>?q\<bar> < 2 powi (fprec F)" using assms(1) by (simp add: power_int_def)
  then have "(2::rat) powi (ilog2 \<bar>?q\<bar>) < 2 powi (fprec F)"
    using ilog2_bounds(1) [OF pos] by (rule le_less_trans [rotated])
  then have "ilog2 \<bar>?q\<bar> < fprec F" by (simp add: two_powi_less)
  then have k: "max (ilog2 \<bar>?q\<bar> - (fprec F - 1)) (fqmin F) \<le> 0" using assms(2) by simp
  then obtain m where m: "1 / quantum F ?q = of_int m"
    by (metis quantum_def pow2_powi two_powi_multiple power_int_0_right nonzero_mult_div_cancel_right
        quantum_nonzero)
  have "?q / quantum F ?q = of_int (n * m)" using m by (simp add: field_simps)
  then have "round_rat F ?q = of_int (n * m) * quantum F ?q"
    using False by (simp only: round_rat_def round_half_even_int) simp
  also have "\<dots> = ?q" using m by (simp add: field_simps)
  finally show ?thesis .
qed simp

section \<open>Values, comparison and arithmetic\<close>

text \<open>\<open>fval\<close> is the number of a finite value; \<open>fin\<close> says that the value is neither NaN nor infinite.\<close>

fun fval :: "flt \<Rightarrow> rat" where
  "fval (Fin q) = q"
| "fval _ = 0"

fun fin :: "flt \<Rightarrow> bool" where
  "fin (Fin q) = True"
| "fin NegZero = True"
| "fin _ = False"

fun neg_sign :: "flt \<Rightarrow> bool" where
  "neg_sign NaN = False"
| "neg_sign (Inf s) = s"
| "neg_sign NegZero = True"
| "neg_sign (Fin q) = (q < 0)"

fun flt_lt :: "flt \<Rightarrow> flt \<Rightarrow> bool" where
  "flt_lt NaN _ = False"
| "flt_lt _ NaN = False"
| "flt_lt (Inf s) (Inf t) = (s \<and> \<not> t)"
| "flt_lt (Inf s) _ = s"
| "flt_lt _ (Inf t) = (\<not> t)"
| "flt_lt a b = (fval a < fval b)"

fun flt_eq :: "flt \<Rightarrow> flt \<Rightarrow> bool" where
  "flt_eq NaN _ = False"
| "flt_eq _ NaN = False"
| "flt_eq (Inf s) (Inf t) = (s = t)"
| "flt_eq (Inf s) _ = False"
| "flt_eq _ (Inf t) = False"
| "flt_eq a b = (fval a = fval b)"

definition flt_le :: "flt \<Rightarrow> flt \<Rightarrow> bool" where
  "flt_le a b \<longleftrightarrow> flt_lt a b \<or> flt_eq a b"

definition signed_zero :: "bool \<Rightarrow> flt" where
  "signed_zero s = (if s then NegZero else Fin 0)"

fun fneg :: "flt \<Rightarrow> flt" where
  "fneg NaN = NaN"
| "fneg (Inf s) = Inf (\<not> s)"
| "fneg NegZero = Fin 0"
| "fneg (Fin q) = (if q = 0 then NegZero else Fin (- q))"

fun fadd :: "ffmt \<Rightarrow> flt \<Rightarrow> flt \<Rightarrow> flt" where
  "fadd F NaN _ = NaN"
| "fadd F _ NaN = NaN"
| "fadd F (Inf s) (Inf t) = (if s = t then Inf s else NaN)"
| "fadd F (Inf s) _ = Inf s"
| "fadd F _ (Inf t) = Inf t"
| "fadd F NegZero NegZero = NegZero"
| "fadd F a b = fround F (fval a + fval b)"

definition fsub :: "ffmt \<Rightarrow> flt \<Rightarrow> flt \<Rightarrow> flt" where
  "fsub F a b = fadd F a (fneg b)"

definition fmul :: "ffmt \<Rightarrow> flt \<Rightarrow> flt \<Rightarrow> flt" where
  "fmul F a b = (let s = (neg_sign a \<noteq> neg_sign b) in
     if a = NaN \<or> b = NaN then NaN
     else if \<not> fin a then (if fin b \<and> fval b = 0 then NaN else Inf s)
     else if \<not> fin b then (if fval a = 0 then NaN else Inf s)
     else if fval a * fval b = 0 then signed_zero s
     else fround F (fval a * fval b))"

definition fdiv :: "ffmt \<Rightarrow> flt \<Rightarrow> flt \<Rightarrow> flt" where
  "fdiv F a b = (let s = (neg_sign a \<noteq> neg_sign b) in
     if a = NaN \<or> b = NaN then NaN
     else if \<not> fin a then (if fin b then Inf s else NaN)
     else if \<not> fin b then signed_zero s
     else if fval b = 0 then (if fval a = 0 then NaN else Inf s)
     else if fval a = 0 then signed_zero s
     else fround F (fval a / fval b))"

text \<open>The correctly rounded square root, through the integer square root of the scaled argument.\<close>

function isqrt :: "int \<Rightarrow> int" where
  "isqrt n = (if n \<le> 0 then 0 else
     (let r = 2 * isqrt (n div 4) in if (r + 1) * (r + 1) \<le> n then r + 1 else r))"
  by pat_completeness auto
termination
  by (relation "measure nat") auto

declare isqrt.simps [simp del]

definition sqrt_scale :: "ffmt \<Rightarrow> rat \<Rightarrow> rat" where
  "sqrt_scale F q = pow2 (max (ilog2 q div 2 - (fprec F - 1)) (fqmin F))"

definition round_sqrt :: "ffmt \<Rightarrow> rat \<Rightarrow> rat" where
  "round_sqrt F q = (let u = sqrt_scale F q; s = q / (u * u); n = isqrt \<lfloor>s\<rfloor>;
       h = (of_int n + 1/2) * (of_int n + 1/2) in
     of_int (if s < h then n else if h < s then n + 1 else if even n then n else n + 1) * u)"

fun fsqrt :: "ffmt \<Rightarrow> flt \<Rightarrow> flt" where
  "fsqrt F NaN = NaN"
| "fsqrt F (Inf s) = (if s then NaN else Inf False)"
| "fsqrt F NegZero = NegZero"
| "fsqrt F (Fin q) = (if q < 0 then NaN else if q = 0 then Fin 0 else Fin (round_sqrt F q))"

text \<open>Conversions: to \<open>float32\<close>, from an integer, and from a float to an integer (truncation).\<close>

fun to_fmt :: "ffmt \<Rightarrow> flt \<Rightarrow> flt" where
  "to_fmt F (Fin q) = fround F q"
| "to_fmt F x = x"

definition of_int64 :: "int \<Rightarrow> flt" where
  "of_int64 n = fround F64 (of_int n)"

definition trunc_int :: "flt \<Rightarrow> int" where
  "trunc_int x = (if fval x < 0 then \<lceil>fval x\<rceil> else \<lfloor>fval x\<rfloor>)"

abbreviation "f_add \<equiv> fadd F64"
abbreviation "f_sub \<equiv> fsub F64"
abbreviation "f_mul \<equiv> fmul F64"
abbreviation "f_div \<equiv> fdiv F64"
abbreviation "f_sqrt \<equiv> fsqrt F64"

section \<open>Laws\<close>

lemma flt_lt_asym: "flt_lt x y \<Longrightarrow> \<not> flt_lt y x"
  by (cases x; cases y) auto

lemma flt_lt_irrefl [simp]: "\<not> flt_lt x x"
  using flt_lt_asym by blast

lemma flt_lt_cotrans: "y \<noteq> NaN \<Longrightarrow> flt_lt x z \<Longrightarrow> flt_lt x y \<or> flt_lt y z"
  by (cases x; cases y; cases z) auto

lemma flt_lt_trans: "flt_lt x y \<Longrightarrow> flt_lt y z \<Longrightarrow> flt_lt x z"
  by (cases x; cases y; cases z) auto

lemma flt_eq_iff: "x \<noteq> NaN \<Longrightarrow> y \<noteq> NaN \<Longrightarrow> flt_eq x y \<longleftrightarrow> \<not> flt_lt x y \<and> \<not> flt_lt y x"
  by (cases x; cases y) auto

lemma flt_eq_sym: "flt_eq x y = flt_eq y x"
  by (cases x; cases y) auto

lemma flt_eq_trans: "flt_eq x y \<Longrightarrow> flt_eq y z \<Longrightarrow> flt_eq x z"
  by (cases x; cases y; cases z) auto

lemma flt_eq_refl [simp]: "flt_eq x x \<longleftrightarrow> x \<noteq> NaN"
  by (cases x) auto

lemma flt_lt_eq_trans: "flt_lt x y \<Longrightarrow> flt_eq y z \<Longrightarrow> flt_lt x z"
  by (cases x; cases y; cases z) auto

lemma flt_eq_lt_trans: "flt_eq x y \<Longrightarrow> flt_lt y z \<Longrightarrow> flt_lt x z"
  by (cases x; cases y; cases z) auto

lemma flt_le_trans: "flt_le x y \<Longrightarrow> flt_le y z \<Longrightarrow> flt_le x z"
  unfolding flt_le_def
  by (meson flt_lt_trans flt_lt_eq_trans flt_eq_lt_trans flt_eq_trans)

lemma fin_not_NaN: "fin x \<Longrightarrow> x \<noteq> NaN"
  by auto

lemma fround_not_NaN [simp]: "fround F q \<noteq> NaN"
  by (simp add: fround_def Let_def)

lemma fround_zero [simp]: "fround F 0 = Fin 0"
  by (simp add: fround_def Let_def not_le)

lemma fround_alt:
  "fround F q = (let r = round_rat F q in
     if 2 powi (femax F) \<le> \<bar>r\<bar> then Inf (q < 0)
     else if r = 0 then (if q < 0 then NegZero else Fin 0)
     else Fin r)"
proof -
  have "femax F \<le> ilog2 \<bar>r\<bar> \<longleftrightarrow> 2 powi (femax F) \<le> \<bar>r\<bar>" if "r \<noteq> 0" for r :: rat
    using that ilog2_bounds [of "\<bar>r\<bar>"] two_powi_mono [of "femax F" "ilog2 \<bar>r\<bar>"]
      two_powi_mono [of "ilog2 \<bar>r\<bar> + 1" "femax F"] by fastforce
  moreover have "\<not> (2::rat) powi (femax F) \<le> 0" by (simp add: not_le)
  ultimately show ?thesis by (auto simp: fround_def Let_def)
qed

lemma fround_int:
  assumes "1 \<le> fprec F" "fqmin F \<le> 0" "fprec F \<le> femax F" "\<bar>n\<bar> < 2 ^ nat (fprec F)"
  shows "fround F (of_int n) = Fin (of_int n)"
proof -
  have "of_int \<bar>n\<bar> < (of_int (2 ^ nat (fprec F)) :: rat)" using assms(4) of_int_less_iff by blast
  then have "\<bar>of_int n\<bar> < (2::rat) powi (fprec F)" using assms(1) by (simp add: power_int_def)
  also have "\<dots> \<le> 2 powi (femax F)" using assms(3) by (rule two_powi_mono)
  finally show ?thesis using assms by (simp add: fround_alt Let_def round_rat_int)
qed

lemma fround_mono:
  assumes "1 \<le> fprec F" "x \<le> y"
  shows "flt_le (fround F x) (fround F y)"
proof -
  let ?B = "2 powi (femax F) :: rat"
  have B: "0 < ?B" by simp
  have m: "round_rat F x \<le> round_rat F y" using assms by (rule round_rat_mono)
  have sx: "0 \<le> x \<Longrightarrow> 0 \<le> round_rat F x" "x \<le> 0 \<Longrightarrow> round_rat F x \<le> 0"
    using round_rat_nonneg round_rat_nonpos by auto
  have sy: "0 \<le> y \<Longrightarrow> 0 \<le> round_rat F y" "y \<le> 0 \<Longrightarrow> round_rat F y \<le> 0"
    using round_rat_nonneg round_rat_nonpos by auto
  consider "?B \<le> \<bar>round_rat F x\<bar>" "?B \<le> \<bar>round_rat F y\<bar>"
    | "?B \<le> \<bar>round_rat F x\<bar>" "\<bar>round_rat F y\<bar> < ?B"
    | "\<bar>round_rat F x\<bar> < ?B" "?B \<le> \<bar>round_rat F y\<bar>"
    | "\<bar>round_rat F x\<bar> < ?B" "\<bar>round_rat F y\<bar> < ?B" by linarith
  then show ?thesis
  proof cases
    case 1
    then show ?thesis using assms(2) by (auto simp: fround_alt Let_def flt_le_def)
  next
    case 2
    then have "x < 0" using m sx B by linarith
    with 2 show ?thesis by (auto simp: fround_alt Let_def flt_le_def)
  next
    case 3
    then have "0 < y" using m sy B by linarith
    with 3 show ?thesis by (auto simp: fround_alt Let_def flt_le_def)
  next
    case 4
    with m show ?thesis by (auto simp: fround_alt Let_def flt_le_def)
  qed
qed

lemma fround_minus: "q \<noteq> 0 \<Longrightarrow> fround F (- q) = fneg (fround F q)"
  by (auto simp: fround_def Let_def)

lemma fneg_fneg [simp]: "fneg (fneg x) = x"
  by (cases x) auto

lemma fneg_NaN_iff [simp]: "fneg x = NaN \<longleftrightarrow> x = NaN"
  by (cases x) auto

lemma fin_fneg [simp]: "fin (fneg x) = fin x"
  by (cases x) auto

lemma fval_fneg [simp]: "fval (fneg x) = - fval x"
  by (cases x) auto

lemma fadd_commute: "fadd F a b = fadd F b a"
  by (cases a; cases b) (auto simp: add.commute)

lemma fmul_commute: "fmul F a b = fmul F b a"
  by (cases "neg_sign a"; cases "neg_sign b") (auto simp: fmul_def Let_def mult.commute)

lemma neg_sign_fneg: "x \<noteq> NaN \<Longrightarrow> neg_sign (fneg x) \<longleftrightarrow> \<not> neg_sign x"
  by (cases x) auto

lemma fmul_fneg_fneg [simp]: "fmul F (fneg a) (fneg b) = fmul F a b"
  by (cases "a = NaN \<or> b = NaN") (auto simp: fmul_def Let_def neg_sign_fneg)

lemma fadd_fin:
  "fin a \<Longrightarrow> fin b \<Longrightarrow> \<not> (a = NegZero \<and> b = NegZero) \<Longrightarrow> fadd F a b = fround F (fval a + fval b)"
  by (cases a; cases b) auto

lemma fsub_square_commute: "fmul F (fsub F a b) (fsub F a b) = fmul F (fsub F b a) (fsub F b a)"
proof (cases "fin a \<and> fin b")
  case False
  then show ?thesis by (cases a; cases b) (auto simp: fsub_def fmul_def)
next
  case True
  then show ?thesis
  proof (cases "fval a = fval b")
    case eq: True
    have "fadd F a (fneg b) \<in> {NegZero, Fin 0}" "fadd F b (fneg a) \<in> {NegZero, Fin 0}"
      using True eq by (cases a; cases b; auto)+
    then show ?thesis by (auto simp: fsub_def fmul_def signed_zero_def)
  next
    case False
    then have "fsub F a b = fround F (fval a - fval b)" "fsub F b a = fround F (fval b - fval a)"
      using True by (auto simp: fsub_def) (cases a; cases b; auto)+
    moreover have "fround F (fval b - fval a) = fneg (fround F (fval a - fval b))"
      using fround_minus [of "fval a - fval b" F] False by simp
    ultimately show ?thesis by simp
  qed
qed

text \<open>Non-negative values: zero, a positive number, or plus infinity.\<close>

definition nonneg :: "flt \<Rightarrow> bool" where
  "nonneg x \<longleftrightarrow> x \<noteq> NaN \<and> \<not> flt_lt x (Fin 0)"

lemma nonneg_simps [simp]:
  "nonneg (Fin q) \<longleftrightarrow> 0 \<le> q" "nonneg NegZero" "\<not> nonneg NaN" "nonneg (Inf s) \<longleftrightarrow> \<not> s"
  by (auto simp: nonneg_def)

lemma nonneg_fround [simp]: "0 \<le> q \<Longrightarrow> nonneg (fround F q)"
  using round_rat_nonneg [of q F] by (auto simp: fround_def Let_def)

lemma nonneg_fval: "nonneg x \<Longrightarrow> 0 \<le> fval x"
  by (cases x) auto

lemma nonneg_fadd: "nonneg a \<Longrightarrow> nonneg b \<Longrightarrow> nonneg (fadd F a b)"
  by (cases a; cases b) auto

lemma nonneg_fmul_self: "a \<noteq> NaN \<Longrightarrow> nonneg (fmul F a a)"
  by (auto simp: fmul_def Let_def signed_zero_def)

lemma isqrt_nonneg: "0 \<le> isqrt n"
proof (induction n rule: isqrt.induct)
  case (1 n)
  then show ?case by (cases "n \<le> 0") (auto simp: isqrt.simps [of n] Let_def)
qed

lemma nonneg_fsqrt: "nonneg a \<Longrightarrow> nonneg (fsqrt F a)"
    by (cases a) (auto simp: round_sqrt_def sqrt_scale_def pow2_powi Let_def isqrt_nonneg
      intro!: mult_nonneg_nonneg add_nonneg_nonneg)

lemma F64_params [simp]: "fprec F64 = 53" "fqmin F64 = - 1074" "femax F64 = 1024"
  by (simp_all add: F64_def)

lemma F32_params [simp]: "fprec F32 = 24" "fqmin F32 = - 149" "femax F32 = 128"
  by (simp_all add: F32_def)

lemma fround64_small_int: "\<bar>n\<bar> < 2 ^ 53 \<Longrightarrow> fround F64 (of_int n) = Fin (of_int n)"
  by (rule fround_int) simp_all

end
