(* ===== verification/GoTime.thy ===== *)
theory GoTime
  imports Prelude "HOL-Library.Signed_Division"
begin

text \<open>
  What the sources use of the package \<open>time\<close>: the clock as the list of its readings still to come, in
  nanoseconds, and \<open>time.Duration\<close>, a signed 64-bit number of nanoseconds whose addition wraps, with
  its rounding and its textual form.
\<close>

type_synonym clock = "int list"

definition time_Now :: "clock \<Rightarrow> int \<times> clock" where
  "time_Now c = (case c of [] \<Rightarrow> (0, []) | [t] \<Rightarrow> (t, [t]) | t # u # ts \<Rightarrow> (t, u # ts))"

text \<open>\<open>Time.Sub\<close> saturates at the bounds of a 64-bit duration.\<close>

definition time_Sub :: "int \<Rightarrow> int \<Rightarrow> int" where
  "time_Sub t u = max (- (2 ^ 63)) (min (2 ^ 63 - 1) (t - u))"

definition wrap64 :: "int \<Rightarrow> int" where
  "wrap64 z = (z + 2 ^ 63) mod 2 ^ 64 - 2 ^ 63"

definition int64 :: "int \<Rightarrow> bool" where
  "int64 z \<longleftrightarrow> - (2 ^ 63) \<le> z \<and> z < 2 ^ 63"

lemma wrap64_id [simp]: "int64 z \<Longrightarrow> wrap64 z = z"
  by (simp add: int64_def wrap64_def)

lemma int64_wrap64 [simp]: "int64 (wrap64 z)"
proof -
  define m where "m = (z + 2 ^ 63) mod (2 ^ 64 :: int)"
  have "0 \<le> m" "m < 2 ^ 64" by (simp_all add: m_def)
  then show ?thesis by (simp add: int64_def wrap64_def flip: m_def)
qed

definition Nanosecond :: int where "Nanosecond = 1"
definition Microsecond :: int where "Microsecond = 1000"
definition Millisecond :: int where "Millisecond = 1000000"
definition Second :: int where "Second = 1000000000"

text \<open>\<open>Duration.Round\<close>: to the nearest multiple of \<open>m\<close>, halves away from zero, saturating.\<close>

definition duration_Round :: "int \<Rightarrow> int \<Rightarrow> int" where
  "duration_Round d m =
     (if m \<le> 0 then d
      else let r = d smod m in
        if d < 0 then
          (let r = - r in
           if r + r < m then d + r
           else let d1 = wrap64 (d - m + r) in if d1 < d then d1 else - (2 ^ 63))
        else if r + r < m then d - r
        else let d1 = wrap64 (d + m - r) in if d1 > d then d1 else 2 ^ 63 - 1)"

text \<open>\<open>Duration.String\<close>: the fraction without its trailing zeros, then the units.\<close>

fun frac_digits :: "nat \<Rightarrow> int \<Rightarrow> string" where
  "frac_digits 0 v = []"
| "frac_digits (Suc k) v = frac_digits k (v div 10) @ [digit_char (nat (v mod 10))]"

fun drop_zeros :: "string \<Rightarrow> string" where
  "drop_zeros [] = []"
| "drop_zeros (c # cs) = (case drop_zeros cs of
     [] \<Rightarrow> if c = CHR ''0'' then [] else [c] | ds \<Rightarrow> c # ds)"

definition fmtFrac :: "int \<Rightarrow> nat \<Rightarrow> string \<times> int" where
  "fmtFrac v prec = (let ds = drop_zeros (frac_digits prec (v mod 10 ^ prec)) in
     (if ds = [] then [] else CHR ''.'' # ds, v div 10 ^ prec))"

definition micro_unit :: string where
  "micro_unit = [char_of (194 :: nat), char_of (181 :: nat), CHR ''s'']"

definition duration_String :: "int \<Rightarrow> string" where
  "duration_String d =
     (let u = \<bar>d\<bar>;
          body =
            (if u < 1000000000 then
               (if u = 0 then ''0s''
                else let (prec, unit) = (if u < 1000 then (0, ''ns'') else if u < 1000000 then (3, micro_unit) else (6, ''ms''));
                         (frac, n) = fmtFrac u prec in FormatInt n @ frac @ unit)
             else let (frac, n) = fmtFrac u 9;
                      secs = FormatInt (n mod 60) @ frac @ ''s'';
                      mins = n div 60
                  in if mins = 0 then secs
                     else let ms = FormatInt (mins mod 60) @ ''m'' @ secs; hours = mins div 60
                          in if hours = 0 then ms else FormatInt hours @ ''h'' @ ms)
      in if d < 0 then CHR ''-'' # body else body)"

end
