(* ===== verification/GoBits.thy ===== *)
theory GoBits
  imports Prelude "HOL-Library.Word"
begin

text \<open>
  What the sources use of \<open>math/bits\<close> on 64-bit words, the loop that visits the set bits of a word, and
  strings of bits packed into words.
\<close>

unbundle bit_operations_syntax

section \<open>Bits of a word\<close>

text \<open>\<open>bits.OnesCount64\<close> and \<open>bits.TrailingZeros64\<close>.\<close>

definition OnesCount64 :: "64 word \<Rightarrow> nat" where
  "OnesCount64 w = length (filter (bit w) [0..<64])"

definition TrailingZeros64 :: "64 word \<Rightarrow> nat" where
  "TrailingZeros64 w = length (takeWhile (\<lambda>i. \<not> bit w i) [0..<64])"

lemma bit_odd: "bit (Suc (2 * k)) n \<longleftrightarrow> n = 0 \<or> bit k (n - 1)"
  by (cases n) (auto simp: bit_0 bit_Suc)

lemma nat_clear_lowest:
  "0 < (n::nat) \<Longrightarrow> bit (n AND (n - 1)) i \<longleftrightarrow> bit n i \<and> (\<exists>j<i. bit n j)"
proof (induction n arbitrary: i rule: nat_less_induct)
  case (1 n)
  show ?case
  proof (cases "even n")
    case True
    with "1.prems" obtain m where m: "n = 2 * m" "0 < m" by (auto elim!: evenE)
    have n1: "n - 1 = 2 * (m - 1) + 1" using m by simp
    have "n AND (n - 1) = 2 * (m AND (m - 1))"
      unfolding n1 unfolding m(1) by (rule bit_eqI) (auto simp: bit_and_iff bit_double_iff bit_odd)
    then show ?thesis
    proof (cases i)
      case (Suc k)
      have "m < n" using m by simp
      with "1.IH" m(2) have "bit (m AND (m - 1)) k \<longleftrightarrow> bit m k \<and> (\<exists>j<k. bit m j)" by blast
      moreover have "(\<exists>j<Suc k. bit n j) \<longleftrightarrow> (\<exists>j<k. bit m j)"
        unfolding m(1) by (auto simp: bit_double_iff less_Suc_eq_0_disj)
      ultimately show ?thesis using \<open>n AND (n - 1) = _\<close> Suc by (simp add: bit_double_iff m(1))
    qed (simp add: bit_0 m(1))
  next
    case False
    then obtain m where m: "n = 2 * m + 1" by (auto elim!: oddE)
    have "n AND (n - 1) = 2 * m"
      unfolding m by (rule bit_eqI) (auto simp: bit_and_iff bit_double_iff bit_odd)
    moreover have "bit n 0" using m by (simp add: bit_0)
    ultimately show ?thesis
      by (cases i) (auto simp: bit_0 bit_double_iff m bit_Suc)
  qed
qed

lemma word_clear_lowest:
  "w \<noteq> 0 \<Longrightarrow> bit (w AND (w - 1)) i \<longleftrightarrow> bit w i \<and> (\<exists>j<i. bit w j)" for w :: "64 word"
proof -
  assume "w \<noteq> 0"
  then have u: "unat (w - 1) = unat w - 1" "0 < unat w" by (simp_all add: unat_minus_one unat_gt_0)
  have "bit (unat w AND unat (w - 1)) i \<longleftrightarrow> bit (unat w) i \<and> (\<exists>j<i. bit (unat w) j)"
    using nat_clear_lowest [OF u(2)] u(1) by simp
  then show ?thesis by (simp add: bit_simps flip: unsigned_and_eq)
qed

lemma TrailingZeros64_spec:
  assumes "w \<noteq> 0"
  shows "TrailingZeros64 w < 64" "bit w (TrailingZeros64 w)" "j < TrailingZeros64 w \<Longrightarrow> \<not> bit w j"
proof -
  let ?P = "\<lambda>i. \<not> bit w i"
  obtain i where "bit w i" using assms by (auto simp: bit_eq_iff)
  moreover from this have "i < 64" using bit_imp_le_length [of w i] by simp
  ultimately have "\<exists>i<64. bit w i" by blast
  then have ex: "\<not> (\<forall>i \<in> set [0..<64]. ?P i)" by auto
  have len: "length (takeWhile ?P [0..<64]) < length [0..<64]"
  proof (rule ccontr)
    assume "\<not> ?thesis"
    with length_takeWhile_le [of ?P "[0..<64]"] have "takeWhile ?P [0..<64] = [0..<64]"
      by (metis le_neq_implies_less takeWhile_eq_take take_all order_refl)
    with ex show False by (metis set_takeWhileD)
  qed
  then show "TrailingZeros64 w < 64" by (simp add: TrailingZeros64_def)
  from nth_length_takeWhile [OF len] len show "bit w (TrailingZeros64 w)" by (simp add: TrailingZeros64_def)
  show "\<not> bit w j" if "j < TrailingZeros64 w"
  proof -
    have "takeWhile ?P [0..<64] ! j = [0..<64] ! j" using that by (simp add: TrailingZeros64_def takeWhile_nth)
    moreover have "j < 64" using that len by (simp add: TrailingZeros64_def)
    ultimately have "j \<in> set (takeWhile ?P [0..<64])" using that nth_mem
      by (metis TrailingZeros64_def add_0 nth_upt)
    then show ?thesis by (auto dest: set_takeWhileD)
  qed
qed

text \<open>The loop \<open>for word != 0 { ...TrailingZeros64...; word &= word - 1 }\<close>: the bits in order.\<close>

function word_bits :: "64 word \<Rightarrow> nat list" where
  "word_bits w = (if w = 0 then [] else TrailingZeros64 w # word_bits (w AND (w - 1)))"
  by pat_completeness auto
termination
proof (relation "measure unat")
  fix w :: "64 word"
  assume "w \<noteq> 0"
  then have "unat (w AND (w - 1)) \<le> unat (w - 1)" "unat (w - 1) < unat w"
    using word_and_le1 [of w "w - 1"] by (simp_all only: word_le_nat_alt) (simp add: unat_minus_one unat_gt_0)
  then show "(w AND (w - 1), w) \<in> measure unat" by simp
qed simp

declare word_bits.simps [simp del]

lemma word_bits_set_sorted: "set (word_bits w) = {i. bit w i} \<and> sorted_wrt (<) (word_bits w)"
proof (induction w rule: word_bits.induct)
  case (1 w)
  show ?case
  proof (cases "w = 0")
    case False
    let ?t = "TrailingZeros64 w" and ?v = "w AND (w - 1)"
    note t = TrailingZeros64_spec [OF False]
    have ex: "(\<exists>j<i. bit w j) \<longleftrightarrow> ?t < i" for i
      using t(2,3) by (metis linorder_neqE_nat less_trans)
    have v: "bit ?v i \<longleftrightarrow> bit w i \<and> ?t < i" for i
      using word_clear_lowest [OF False, of i] by (simp add: ex)
    have "bit w i \<longleftrightarrow> i = ?t \<or> bit w i \<and> ?t < i" for i
      using t(2,3) by (metis linorder_neqE_nat)
    with "1.IH" [OF False] v False show ?thesis by (auto simp: word_bits.simps [of w])
  qed (simp add: word_bits.simps)
qed

lemma word_bits_eq: "word_bits w = filter (bit w) [0..<64]"
proof (rule sorted_wrt_mset_unique [where R = "(<)"])
  show "sorted_wrt (<) (word_bits w)" using word_bits_set_sorted by blast
  show "sorted_wrt (<) (filter (bit w) [0..<64])" by (rule sorted_wrt_filter) simp
  have "set (filter (bit w) [0..<64]) = {i. bit w i}" by (auto dest: bit_imp_le_length)
  with word_bits_set_sorted have "set (word_bits w) = set (filter (bit w) [0..<64])" by blast
  moreover have "distinct (word_bits w)" using word_bits_set_sorted strict_sorted_iff by blast
  ultimately show "mset (word_bits w) = mset (filter (bit w) [0..<64])"
    by (intro set_eq_iff_mset_eq_distinct [THEN iffD1]) auto
qed auto

lemma length_word_bits: "length (word_bits w) = OnesCount64 w"
  by (simp add: word_bits_eq OnesCount64_def)

lemma upt_blocks: "[0..<64 * Suc n] = [0..<64 * n] @ map (\<lambda>i. n * 64 + i) [0..<64]"
proof -
  have "[0..<64 * n + 64] = [0..<64 * n] @ [64 * n..<64 * n + 64]" by (rule upt_add_eq_append) simp
  moreover have "[64 * n..<64 * n + 64] = map (\<lambda>i. n * 64 + i) [0..<64]"
    by (rule nth_equalityI) auto
  ultimately show ?thesis by (simp add: add.commute)
qed

text \<open>The population count of a list of words is the number of its set bits.\<close>

lemma ones_total:
  "sum_list (map OnesCount64 ws) = length (filter (\<lambda>k. bit (ws ! (k div 64)) (k mod 64)) [0..<64 * length ws])"
proof (induction ws rule: rev_induct)
  case (snoc w ws)
  let ?n = "length ws"
  have "filter (\<lambda>k. bit ((ws @ [w]) ! (k div 64)) (k mod 64)) [0..<64 * ?n] =
      filter (\<lambda>k. bit (ws ! (k div 64)) (k mod 64)) [0..<64 * ?n]"
    by (rule filter_cong) (auto simp: nth_append less_mult_imp_div_less mult.commute)
  moreover have "length (filter (\<lambda>k. bit ((ws @ [w]) ! (k div 64)) (k mod 64)) (map (\<lambda>i. ?n * 64 + i) [0..<64])) = OnesCount64 w"
    unfolding filter_map length_map OnesCount64_def
    by (rule arg_cong [where f = length], rule filter_cong) (auto simp: nth_append)
  ultimately show ?case using snoc upt_blocks [of ?n] by simp
qed simp

section \<open>Packed bits\<close>

text \<open>\<open>code[i/64] |= 1 << uint(i%64)\<close>, and the bit it sets.\<close>

definition set_at :: "nat \<Rightarrow> 64 word list \<Rightarrow> 64 word list" where
  "set_at i code = code[i div 64 := code ! (i div 64) OR push_bit (i mod 64) 1]"

definition bit_at :: "64 word list \<Rightarrow> nat \<Rightarrow> bool" where
  "bit_at code i \<longleftrightarrow> code ! (i div 64) AND push_bit (i mod 64) 1 \<noteq> 0"

definition words_for :: "nat \<Rightarrow> nat" where
  "words_for dimn = (dimn + 63) div 64"

definition pack_bits :: "(nat \<Rightarrow> bool) \<Rightarrow> nat \<Rightarrow> 64 word list" where
  "pack_bits f dimn = fold (\<lambda>i code. if f i then set_at i code else code) [0..<dimn] (replicate (words_for dimn) 0)"

lemma bit_at_iff: "bit_at code i \<longleftrightarrow> bit (code ! (i div 64)) (i mod 64)"
  by (simp add: bit_at_def bit_iff_and_push_bit_not_eq_0)

lemma words_for_bound: "i < dimn \<Longrightarrow> i div 64 < words_for dimn"
  by (simp add: words_for_def less_mult_imp_div_less div_less_iff_less_mult)

lemma bit_set_at:
  assumes "w < length code" "b < 64"
  shows "bit (set_at n code ! w) b \<longleftrightarrow> bit (code ! w) b \<or> w * 64 + b = n"
proof -
  have eq: "w * 64 + b = n \<longleftrightarrow> w = n div 64 \<and> b = n mod 64" using assms(2) by auto
  have "bit (push_bit (n mod 64) (1 :: 64 word)) b \<longleftrightarrow> b = n mod 64"
    using assms(2) unfolding bit_push_bit_iff bit_1_iff by auto
  with assms(1) show ?thesis
    unfolding eq by (cases "w = n div 64") (simp_all add: set_at_def bit_or_iff)
qed

lemma pack_bits_spec:
  "length (pack_bits f dimn) = words_for dimn \<and>
   (\<forall>w < words_for dimn. \<forall>b < 64. bit (pack_bits f dimn ! w) b \<longleftrightarrow> w * 64 + b < dimn \<and> f (w * 64 + b))"
proof -
  have "length (fold (\<lambda>i code. if f i then set_at i code else code) [0..<n] (replicate W 0)) = W \<and>
    (\<forall>w < W. \<forall>b < 64. bit (fold (\<lambda>i code. if f i then set_at i code else code) [0..<n] (replicate W (0 :: 64 word)) ! w) b \<longleftrightarrow>
       w * 64 + b < n \<and> f (w * 64 + b))" for n W
  proof (induction n)
    case (Suc n)
    let ?c = "fold (\<lambda>i code. if f i then set_at i code else code) [0..<n] (replicate W (0 :: 64 word))"
    have "bit (set_at n ?c ! w) b \<longleftrightarrow> bit (?c ! w) b \<or> w * 64 + b = n" if "w < W" "b < 64" for w b
      using Suc that by (intro bit_set_at) auto
    with Suc show ?case by (auto simp: less_Suc_eq set_at_def)
  qed simp
  then show ?thesis unfolding pack_bits_def by blast
qed

lemma bit_at_pack_bits: "i < dimn \<Longrightarrow> bit_at (pack_bits f dimn) i \<longleftrightarrow> f i"
  using pack_bits_spec [of f dimn] words_for_bound [of i dimn]
  by (simp add: bit_at_iff)

end
