(* ===== verification/GoRand.thy ===== *)
theory GoRand
  imports GoFloat
begin

text \<open>
  What the sources use of \<open>math/rand\<close> and \<open>math\<close>.  A generator is the stream of its draws still to come,
  one stream per kind of draw: only the range of a draw matters to the code, and an exhausted stream
  draws zero.
\<close>

record rng =
  gInts :: "nat list"
  gNorms :: "flt list"
  gFloats :: "flt list"

definition Intn :: "nat \<Rightarrow> rng \<Rightarrow> nat \<times> rng" where
  "Intn n g = (case gInts g of [] \<Rightarrow> (0, g) | x # xs \<Rightarrow> (x mod n, g\<lparr>gInts := xs\<rparr>))"

definition NormFloat64 :: "rng \<Rightarrow> flt \<times> rng" where
  "NormFloat64 g = (case gNorms g of [] \<Rightarrow> (Fin 0, g) | x # xs \<Rightarrow> (x, g\<lparr>gNorms := xs\<rparr>))"

definition Float64 :: "rng \<Rightarrow> flt \<times> rng" where
  "Float64 g = (case gFloats g of [] \<Rightarrow> (Fin 0, g) | x # xs \<Rightarrow> (x, g\<lparr>gFloats := xs\<rparr>))"

text \<open>\<open>math.Round\<close> (halves away from zero) and \<open>math.Floor\<close>.\<close>

fun flt_round :: "flt \<Rightarrow> flt" where
  "flt_round (Fin q) =
     (let n = (if q < 0 then - \<lfloor>- q + 1 / 2\<rfloor> else \<lfloor>q + 1 / 2\<rfloor>) in
      if n = 0 \<and> q < 0 then NegZero else Fin (of_int n))"
| "flt_round x = x"

fun flt_floor :: "flt \<Rightarrow> flt" where
  "flt_floor (Fin q) = Fin (of_int \<lfloor>q\<rfloor>)"
| "flt_floor x = x"

lemma Intn_range: "0 < n \<Longrightarrow> fst (Intn n g) < n"
  by (simp add: Intn_def split: list.split)

end
