(* ===== verification/Storage.thy ===== *)
theory Storage
  imports Prelude
begin

text \<open>
  The object store: the sentinel errors and the interface of \<open>storage.go\<close>, the in-memory store of
  \<open>memory.go\<close> that implements it, and the error classification of the S3 adapter (\<open>s3.go\<close>).
  A body is a value of any type \<open>'b\<close>: the store never looks into it, and the defensive copies of
  the code are the values themselves.  The ETag counter is an unbounded integer (the code's
  \<open>int64\<close> would have to wrap after \<open>2 ^ 63\<close> writes to differ).
\<close>

section \<open>Errors and the S3 classification\<close>

datatype store_err = ErrPreconditionFailed | ErrNotFound | ErrOther

text \<open>
  An error of the SDK as \<open>classify\<close> sees it: the HTTP status when \<open>errors.As\<close> finds one, and the
  message.  \<open>ErrOther\<close> stands for every error that is returned unchanged.
\<close>

record sdk_error =
  HTTPStatusCode :: "int option"
  errMessage :: string

definition strings_Contains :: "string \<Rightarrow> string \<Rightarrow> bool" where
  "strings_Contains s sub \<longleftrightarrow> list_ex (\<lambda>t. prefix sub t) (suffixes s)"

definition classify :: "sdk_error option \<Rightarrow> store_err option" where
  "classify e = (case e of None \<Rightarrow> None | Some err \<Rightarrow>
     (case HTTPStatusCode err of
        Some c \<Rightarrow> Some (if c = 412 then ErrPreconditionFailed
                       else if c = 404 then ErrNotFound else ErrOther)
      | None \<Rightarrow> (let msg = errMessage err in
          if strings_Contains msg ''PreconditionFailed'' \<or> strings_Contains msg ''412''
          then Some ErrPreconditionFailed
          else if strings_Contains msg ''NoSuchKey'' \<or> strings_Contains msg ''NotFound''
            \<or> strings_Contains msg ''404''
          then Some ErrNotFound
          else Some ErrOther)))"

section \<open>The in-memory store\<close>

record 'b memObj =
  obj_body :: 'b
  obj_etag :: string

record 'b MemStore =
  objs :: "(string, 'b memObj) gomap"
  etagSeq :: int

definition MemStore_New :: "'b MemStore" where
  "MemStore_New = \<lparr>objs = [], etagSeq = 0\<rparr>"

definition nextETag :: "'b MemStore \<Rightarrow> string \<times> 'b MemStore" where
  "nextETag m = (let m' = m\<lparr>etagSeq := etagSeq m + 1\<rparr> in (FormatInt (etagSeq m'), m'))"

definition store_obj :: "'b MemStore \<Rightarrow> string \<Rightarrow> 'b \<Rightarrow> string \<times> 'b MemStore" where
  "store_obj m key b = (let (etag, m') = nextETag m in
     (etag, m'\<lparr>objs := AList.update key \<lparr>obj_body = b, obj_etag = etag\<rparr> (objs m')\<rparr>))"

definition MemStore_Get :: "'b MemStore \<Rightarrow> string \<Rightarrow> store_err + 'b \<times> string" where
  "MemStore_Get m key = (case map_of (objs m) key of
     None \<Rightarrow> Inl ErrNotFound
   | Some cur \<Rightarrow> Inr (obj_body cur, obj_etag cur))"

definition MemStore_PutCAS ::
    "'b MemStore \<Rightarrow> string \<Rightarrow> 'b \<Rightarrow> string \<Rightarrow> (store_err + string) \<times> 'b MemStore" where
  "MemStore_PutCAS m key b ifMatchETag = (case map_of (objs m) key of
     None \<Rightarrow> (Inl ErrPreconditionFailed, m)
   | Some cur \<Rightarrow>
       if obj_etag cur \<noteq> ifMatchETag then (Inl ErrPreconditionFailed, m)
       else (let (etag, m') = store_obj m key b in (Inr etag, m')))"

definition MemStore_PutIfAbsent ::
    "'b MemStore \<Rightarrow> string \<Rightarrow> 'b \<Rightarrow> (store_err + string) \<times> 'b MemStore" where
  "MemStore_PutIfAbsent m key b = (case map_of (objs m) key of
     Some _ \<Rightarrow> (Inl ErrPreconditionFailed, m)
   | None \<Rightarrow> (let (etag, m') = store_obj m key b in (Inr etag, m')))"

definition MemStore_Put ::
    "'b MemStore \<Rightarrow> string \<Rightarrow> 'b \<Rightarrow> (store_err + string) \<times> 'b MemStore" where
  "MemStore_Put m key b = (let (etag, m') = store_obj m key b in (Inr etag, m'))"

definition MemStore_List :: "'b MemStore \<Rightarrow> string \<Rightarrow> string list" where
  "MemStore_List m pre = filter (\<lambda>k. prefix pre k) (map_keys (objs m))"

lemmas memstore_defs [model_defs] =
  MemStore_Get_def MemStore_PutCAS_def MemStore_PutIfAbsent_def MemStore_Put_def
  store_obj_def nextETag_def

section \<open>The contract of an object store\<close>

text \<open>
  \<open>wrote get used s k b e s'\<close>: the step from \<open>s\<close> to \<open>s'\<close> stored \<open>b\<close> under \<open>k\<close> with the ETag \<open>e\<close>,
  which no object ever carried before, and touched nothing else.
\<close>

definition wrote ::
    "('s \<Rightarrow> string \<Rightarrow> store_err + 'b \<times> string) \<Rightarrow> ('s \<Rightarrow> string set) \<Rightarrow>
     's \<Rightarrow> string \<Rightarrow> 'b \<Rightarrow> string \<Rightarrow> 's \<Rightarrow> bool" where
  "wrote get used s k b e s' \<longleftrightarrow>
     e \<notin> used s \<and> used s' = insert e (used s) \<and> get s' = (get s)(k := Inr (b, e))"

locale object_store =
  fixes get :: "'s \<Rightarrow> string \<Rightarrow> store_err + 'b \<times> string"
    and put_cas :: "'s \<Rightarrow> string \<Rightarrow> 'b \<Rightarrow> string \<Rightarrow> (store_err + string) \<times> 's"
    and put_if_absent :: "'s \<Rightarrow> string \<Rightarrow> 'b \<Rightarrow> (store_err + string) \<times> 's"
    and put :: "'s \<Rightarrow> string \<Rightarrow> 'b \<Rightarrow> (store_err + string) \<times> 's"
    and invar :: "'s \<Rightarrow> bool"
    and used :: "'s \<Rightarrow> string set"
  assumes get_used: "invar s \<Longrightarrow> get s k = Inr (b, e) \<Longrightarrow> e \<in> used s"
    and cas_match: "invar s \<Longrightarrow> get s k = Inr (b0, e) \<Longrightarrow>
      \<exists>e' s'. put_cas s k b e = (Inr e', s') \<and> invar s' \<and> wrote get used s k b e' s'"
    and cas_mismatch: "invar s \<Longrightarrow> (\<And>b0. get s k \<noteq> Inr (b0, e)) \<Longrightarrow>
      put_cas s k b e = (Inl ErrPreconditionFailed, s)"
    and absent_free: "invar s \<Longrightarrow> get s k = Inl ErrNotFound \<Longrightarrow>
      \<exists>e' s'. put_if_absent s k b = (Inr e', s') \<and> invar s' \<and> wrote get used s k b e' s'"
    and absent_taken: "invar s \<Longrightarrow> get s k = Inr x \<Longrightarrow>
      put_if_absent s k b = (Inl ErrPreconditionFailed, s)"
    and put_always: "invar s \<Longrightarrow>
      \<exists>e' s'. put s k b = (Inr e', s') \<and> invar s' \<and> wrote get used s k b e' s'"
begin

text \<open>
  A conditional write succeeds exactly when the object still is the one whose ETag was read.
\<close>

lemma cas_iff:
  assumes "invar s"
  shows "(\<exists>e' s'. put_cas s k b e = (Inr e', s')) \<longleftrightarrow> (\<exists>b0. get s k = Inr (b0, e))"
  using cas_match [OF assms] cas_mismatch [OF assms] by (metis Inl_Inr_False prod.inject)

lemma if_absent_iff:
  assumes "invar s" "\<And>x. get s k = Inl x \<Longrightarrow> x = ErrNotFound"
  shows "(\<exists>e' s'. put_if_absent s k b = (Inr e', s')) \<longleftrightarrow> get s k = Inl ErrNotFound"
  using absent_free [OF assms(1)] absent_taken [OF assms(1)] assms(2)
  by (metis Inl_Inr_False prod.inject sum.exhaust)

text \<open>
  A fresh ETag is never one that was used before: once another write to the key has happened, the
  ETag read earlier stays rejected for ever (the used set only grows).
\<close>

lemma wrote_used: "wrote get used s k b e s' \<Longrightarrow> used s \<subseteq> used s'"
  by (auto simp: wrote_def)

lemma overwritten_stays_rejected:
  assumes "invar s" "get s k = Inr (b0, e)" "wrote get used s k b e' s'"
  shows "get s' k \<noteq> Inr (b1, e)"
  using get_used [OF assms(1,2)] assms(3) by (auto simp: wrote_def)

lemma other_keys_untouched:
  "wrote get used s k b e s' \<Longrightarrow> k' \<noteq> k \<Longrightarrow> get s' k' = get s k'"
  by (auto simp: wrote_def)

end

text \<open>The store's invariant: distinct keys, and every ETag was drawn from the counter.\<close>

definition memstore_ok :: "'b MemStore \<Rightarrow> bool" where
  "memstore_ok m \<longleftrightarrow> wf_map (objs m) \<and> 0 \<le> etagSeq m \<and>
     (\<forall>k cur. map_of (objs m) k = Some cur \<longrightarrow>
        (\<exists>n. 0 < n \<and> n \<le> etagSeq m \<and> obj_etag cur = FormatInt n))"

definition used_etags :: "'b MemStore \<Rightarrow> string set" where
  "used_etags m = FormatInt ` {1..etagSeq m}"

lemma store_obj_wrote:
  assumes "memstore_ok m" "store_obj m k b = (e, m')"
  shows "memstore_ok m' \<and> wrote MemStore_Get used_etags m k b e m'"
proof -
  have m': "m' = m\<lparr>etagSeq := etagSeq m + 1,
      objs := AList.update k \<lparr>obj_body = b, obj_etag = FormatInt (etagSeq m + 1)\<rparr> (objs m)\<rparr>"
    and e: "e = FormatInt (etagSeq m + 1)"
    using assms(2) by (auto simp: store_obj_def nextETag_def Let_def)
  have "{1..etagSeq m + 1} = insert (etagSeq m + 1) {1..etagSeq m}"
    using assms(1) by (auto simp: memstore_ok_def)
  then have u: "used_etags m' = insert e (used_etags m)" by (simp add: used_etags_def m' e)
  have ok: "memstore_ok m'"
    using assms(1) unfolding memstore_ok_def m'
    by (auto split: if_splits) force
  have "MemStore_Get m' = (MemStore_Get m)(k := Inr (b, e))"
    by (rule ext) (simp add: MemStore_Get_def m' e)
  moreover have "e \<notin> used_etags m" by (auto simp: used_etags_def e)
  ultimately show ?thesis using u ok by (simp add: wrote_def)
qed

interpretation mem: object_store MemStore_Get MemStore_PutCAS MemStore_PutIfAbsent MemStore_Put
  memstore_ok used_etags
proof unfold_locales
  fix s :: "'a MemStore" and k b0 b e x
  assume ok: "memstore_ok s"
  show "e \<in> used_etags s" if "MemStore_Get s k = Inr (b, e)"
    using that ok by (force simp: MemStore_Get_def memstore_ok_def used_etags_def split: option.splits)
  show "\<exists>e' s'. MemStore_PutCAS s k b e = (Inr e', s') \<and> memstore_ok s' \<and>
      wrote MemStore_Get used_etags s k b e' s'" if "MemStore_Get s k = Inr (b0, e)"
    using that store_obj_wrote [OF ok, of k b]
    by (auto simp: MemStore_Get_def MemStore_PutCAS_def split: option.splits prod.splits)
  show "MemStore_PutCAS s k b e = (Inl ErrPreconditionFailed, s)"
    if "\<And>b0. MemStore_Get s k \<noteq> Inr (b0, e)"
    using that [of "obj_body (the (map_of (objs s) k))"]
    by (auto simp: MemStore_Get_def MemStore_PutCAS_def split: option.splits)
  show "\<exists>e' s'. MemStore_PutIfAbsent s k b = (Inr e', s') \<and> memstore_ok s' \<and>
      wrote MemStore_Get used_etags s k b e' s'" if "MemStore_Get s k = Inl ErrNotFound"
    using that store_obj_wrote [OF ok, of k b]
    by (auto simp: MemStore_Get_def MemStore_PutIfAbsent_def split: option.splits prod.splits)
  show "MemStore_PutIfAbsent s k b = (Inl ErrPreconditionFailed, s)" if "MemStore_Get s k = Inr x"
    using that by (auto simp: MemStore_Get_def MemStore_PutIfAbsent_def split: option.splits)
  show "\<exists>e' s'. MemStore_Put s k b = (Inr e', s') \<and> memstore_ok s' \<and>
      wrote MemStore_Get used_etags s k b e' s'"
    using store_obj_wrote [OF ok, of k b] by (auto simp: MemStore_Put_def split: prod.splits)
qed

lemma memstore_ok_New [simp]: "memstore_ok MemStore_New"
  by (simp add: memstore_ok_def MemStore_New_def)

section \<open>Clients' requests in sequence\<close>

text \<open>
  The store's lock makes every request atomic, so what any number of clients do to it is a list of
  requests.  \<open>stored_to k m rs\<close> says that one of them replaced the object under \<open>k\<close>.
\<close>

datatype 'b request =
    CASReq string 'b string
  | AbsentReq string 'b
  | PutReq string 'b

fun apply_req :: "'b MemStore \<Rightarrow> 'b request \<Rightarrow> (store_err + string) \<times> 'b MemStore" where
  "apply_req m (CASReq k b e) = MemStore_PutCAS m k b e"
| "apply_req m (AbsentReq k b) = MemStore_PutIfAbsent m k b"
| "apply_req m (PutReq k b) = MemStore_Put m k b"

fun req_key :: "'b request \<Rightarrow> string" where
  "req_key (CASReq k b e) = k"
| "req_key (AbsentReq k b) = k"
| "req_key (PutReq k b) = k"

fun run_reqs :: "'b MemStore \<Rightarrow> 'b request list \<Rightarrow> 'b MemStore" where
  "run_reqs m [] = m"
| "run_reqs m (r # rs) = run_reqs (snd (apply_req m r)) rs"

fun stored_to :: "string \<Rightarrow> 'b MemStore \<Rightarrow> 'b request list \<Rightarrow> bool" where
  "stored_to k m [] = False"
| "stored_to k m (r # rs) =
     (req_key r = k \<and> (\<exists>e. fst (apply_req m r) = Inr e) \<or> stored_to k (snd (apply_req m r)) rs)"

lemma apply_req_cases:
  assumes "memstore_ok m"
  obtains (rejected) e where "apply_req m r = (Inl e, m)"
  | (accepted) b e m' where "apply_req m r = (Inr e, m')" "memstore_ok m'"
      "wrote MemStore_Get used_etags m (req_key r) b e m'"
proof (cases r)
  case (CASReq k b e)
  then show ?thesis
    using that mem.cas_match [OF assms, of k _ e b] mem.cas_mismatch [OF assms, of k e b]
    by (metis apply_req.simps(1) req_key.simps(1))
next
  case (AbsentReq k b)
  have "MemStore_Get m k = Inl ErrNotFound \<or> (\<exists>x. MemStore_Get m k = Inr x)"
    by (auto simp: MemStore_Get_def split: option.splits)
  with AbsentReq show ?thesis
    using that mem.absent_free [OF assms, of k b] mem.absent_taken [OF assms, of k _ b]
    by (metis apply_req.simps(2) req_key.simps(2))
next
  case (PutReq k b)
  then show ?thesis
    using that mem.put_always [OF assms, of k b]
    by (metis apply_req.simps(3) req_key.simps(3))
qed

lemma run_reqs_ok: "memstore_ok m \<Longrightarrow> memstore_ok (run_reqs m rs)"
proof (induction rs arbitrary: m)
  case (Cons r rs)
  then show ?case by (cases rule: apply_req_cases [OF Cons.prems, of r]) auto
qed simp

lemma run_reqs_unwritten:
  "memstore_ok m \<Longrightarrow> \<not> stored_to k m rs \<Longrightarrow> MemStore_Get (run_reqs m rs) k = MemStore_Get m k"
proof (induction rs arbitrary: m)
  case (Cons r rs)
  show ?case
    by (cases rule: apply_req_cases [OF Cons.prems(1), of r])
      (use Cons in \<open>auto simp: mem.other_keys_untouched\<close>)
qed simp

lemma run_reqs_retired:
  "memstore_ok m \<Longrightarrow> e \<in> used_etags m \<Longrightarrow> (\<And>b. MemStore_Get m k \<noteq> Inr (b, e)) \<Longrightarrow>
   MemStore_Get (run_reqs m rs) k \<noteq> Inr (b, e)"
proof (induction rs arbitrary: m)
  case (Cons r rs)
  show ?case
  proof (cases rule: apply_req_cases [OF Cons.prems(1), of r, case_names rejected accepted])
    case (rejected e')
    with Cons show ?thesis by auto
  next
    case (accepted b' e' m')
    have "MemStore_Get m' k \<noteq> Inr (b, e)" "e \<in> used_etags m'" for b
      using accepted(3) Cons.prems(2,3) by (auto simp: wrote_def)
    then show ?thesis using Cons.IH [OF accepted(2)] accepted(1) by simp
  qed
qed simp

lemma run_reqs_written:
  "memstore_ok m \<Longrightarrow> MemStore_Get m k = Inr (b0, e) \<Longrightarrow> stored_to k m rs \<Longrightarrow>
   MemStore_Get (run_reqs m rs) k \<noteq> Inr (b, e)"
proof (induction rs arbitrary: m b0)
  case (Cons r rs)
  have u: "e \<in> used_etags m" using Cons.prems by (intro mem.get_used)
  show ?case
  proof (cases rule: apply_req_cases [OF Cons.prems(1), of r, case_names rejected accepted])
    case (rejected e')
    with Cons show ?thesis by auto
  next
    case (accepted b' e' m')
    show ?thesis
    proof (cases "req_key r = k")
      case True
      with accepted u have "MemStore_Get m' k \<noteq> Inr (b, e)" "e \<in> used_etags m'" for b
        by (auto simp: wrote_def)
      then show ?thesis using run_reqs_retired [OF accepted(2)] accepted(1) by simp
    next
      case False
      with accepted have "MemStore_Get m' k = Inr (b0, e)"
        using Cons.prems(2) by (simp add: mem.other_keys_untouched)
      with Cons False accepted show ?thesis by auto
    qed
  qed
qed simp

text \<open>
  C17.  Compare-and-swap without ABA: whatever any clients do between a \<open>Get\<close> and a later \<open>PutCAS\<close>
  that presents the ETag of that \<open>Get\<close>, the \<open>PutCAS\<close> succeeds exactly when none of their requests
  stored anything under the key meanwhile, even the same body.
\<close>

theorem put_cas_succeeds_iff_unwritten:
  assumes "memstore_ok m" and "MemStore_Get m k = Inr (b, e)"
  shows "(\<exists>e' m'. MemStore_PutCAS (run_reqs m rs) k b' e = (Inr e', m')) \<longleftrightarrow> \<not> stored_to k m rs"
  using mem.cas_iff [OF run_reqs_ok [OF assms(1)]] run_reqs_unwritten [OF assms(1)]
    run_reqs_written [OF assms] assms(2) by metis

theorem put_cas_succeeds_iff_unwritten_witness:
  "(\<exists>e' m'. MemStore_PutCAS (run_reqs (snd (MemStore_Put MemStore_New ''k'' (1::nat)))
      [PutReq ''j'' 5, AbsentReq ''k'' 7]) ''k'' 2 ''1'' = (Inr e', m'))
   \<longleftrightarrow> \<not> stored_to ''k'' (snd (MemStore_Put MemStore_New ''k'' (1::nat)))
      [PutReq ''j'' 5, AbsentReq ''k'' 7]"
proof (rule put_cas_succeeds_iff_unwritten)
  show "memstore_ok (snd (MemStore_Put MemStore_New ''k'' (1::nat)))"
    using mem.put_always [OF memstore_ok_New, of "''k''" "1::nat"] by auto
  show "MemStore_Get (snd (MemStore_Put MemStore_New ''k'' (1::nat))) ''k'' = Inr (1, ''1'')"
    by code_simp
qed

end
