(* ===== verification/Types.thy ===== *)
theory Types
  imports GoFloat Storage "HOL-Library.Word"
begin

text \<open>
  The data shapes of \<open>types.go\<close>, with the on-disk shapes that \<open>queue.go\<close> and \<open>vector.go\<close> declare.
  Fields carry a prefix per struct (\<open>mWALSeq\<close> is \<open>Manifest.WALSeq\<close>).  A slice that the code
  compares with \<open>nil\<close> is an option; any other nil slice or map is the empty one.  The 64-bit
  sequence numbers, epochs and counters are \<open>int\<close>: they only ever grow by one per write.

  An object's body is JSON.  It is modelled by the value that was marshalled (\<open>wire\<close>), after the
  changes that encoding and decoding make to it: \<open>json_doc\<close> applies the \<open>omitempty\<close> tags and the
  decoder's rule that every number is a \<open>float64\<close>, and \<open>json_encodable\<close> is the condition under which
  \<open>json.Marshal\<close> does not fail (it rejects NaN and the infinities).  Strings are taken to be valid
  UTF-8, which the encoder keeps as they are; \<open>float32\<close> attribute values, which only Go callers can
  produce, are left out.
\<close>

section \<open>Attribute values and filters\<close>

datatype int_kind =
    KInt | KInt8 | KInt16 | KInt32 | KInt64 | KUint | KUint8 | KUint16 | KUint32 | KUint64

datatype aval =
    ANil
  | ABool bool
  | AStr string
  | AF64 flt
  | AInt int_kind int
  | AList "aval list"
  | AObj "(string \<times> aval) list"

type_synonym attrs = "(string, aval) gomap"

fun numericValue :: "aval \<Rightarrow> flt option" where
  "numericValue (AF64 n) = Some n"
| "numericValue (AInt _ n) = Some (of_int64 n)"
| "numericValue _ = None"

text \<open>\<open>reflect.DeepEqual\<close> on the values that occur: types must agree, floats compare with \<open>==\<close>.\<close>

function (sequential) DeepEqual :: "aval \<Rightarrow> aval \<Rightarrow> bool" where
  "DeepEqual ANil ANil = True"
| "DeepEqual (ABool a) (ABool b) = (a = b)"
| "DeepEqual (AStr a) (AStr b) = (a = b)"
| "DeepEqual (AF64 a) (AF64 b) = flt_eq a b"
| "DeepEqual (AInt k a) (AInt l b) = (k = l \<and> a = b)"
| "DeepEqual (AList xs) (AList ys) =
     (length xs = length ys \<and> list_all (\<lambda>(x, y). DeepEqual x y) (zip xs ys))"
| "DeepEqual (AObj xs) (AObj ys) =
     (length xs = length ys \<and> list_all (\<lambda>(k, x). list_ex (\<lambda>(l, y). k = l \<and> DeepEqual x y) ys) xs)"
| "DeepEqual _ _ = False"
  by pat_completeness auto
termination
proof (relation "measure (\<lambda>(a, b). size a)", goal_cases)
  case (2 xs ys x a b)
  then have "a \<in> set xs" by (auto dest: set_zip_leftD)
  then show ?case using 2 by (auto simp: less_Suc_eq_le intro: size_list_estimation')
next
  case (3 xs ys z k x w l y)
  then have "size x \<le> size_list (size_prod (\<lambda>x. 0) size) xs"
    by (intro size_list_estimation') auto
  then show ?case using 3 by simp
qed simp

definition equalValues :: "aval \<Rightarrow> aval \<Rightarrow> bool" where
  "equalValues a b = (case (numericValue a, numericValue b) of
     (Some af, Some bf) \<Rightarrow> flt_eq af bf
   | (Some _, None) \<Rightarrow> False
   | (None, Some _) \<Rightarrow> False
   | (None, None) \<Rightarrow> DeepEqual a b)"

datatype Filter = Filter (fOp: string) (fField: string) (fValue: aval) (fSub: "Filter list")

fun Filter_Match :: "Filter \<Rightarrow> attrs \<Rightarrow> bool" where
  "Filter_Match (Filter op field v sub) ats =
     (if op = [] \<or> op = ''all'' then True
      else if op = ''eq'' then
        (case map_of ats field of None \<Rightarrow> False | Some got \<Rightarrow> equalValues got v)
      else if op = ''and'' then list_all (\<lambda>s. Filter_Match s ats) sub
      else if op = ''or'' then list_ex (\<lambda>s. Filter_Match s ats) sub
      else False)"

section \<open>Documents, segments and manifests\<close>

record Document =
  dID :: string
  dVector :: "flt list option"
  dAttributes :: attrs
  dDeleted :: bool

record WALSegment =
  sSeq :: int
  sOps :: "Document list"

record Manifest =
  mVersion :: int
  mDimension :: int
  mMetric :: string
  mTextField :: string
  mWALSeq :: int
  mIndexedUpTo :: int
  mIndexEpoch :: int
  mDocCount :: int
  mParent :: string
  mForkWALSeq :: int
  mForkIndexEpoch :: int

definition IsBranch :: "Manifest \<Rightarrow> bool" where
  "IsBranch m \<longleftrightarrow> mParent m \<noteq> []"

record NamespaceConfig =
  cDimension :: int
  cMetric :: string
  cTextField :: string

section \<open>Queries\<close>

record RankBy =
  rVector :: "flt list option"
  rText :: string

definition IsVector :: "RankBy \<Rightarrow> bool" where
  "IsVector r \<longleftrightarrow> rVector r \<noteq> None"

definition IsText :: "RankBy \<Rightarrow> bool" where
  "IsText r \<longleftrightarrow> rText r \<noteq> []"

definition IsHybrid :: "RankBy \<Rightarrow> bool" where
  "IsHybrid r \<longleftrightarrow> IsVector r \<and> IsText r"

record QueryParams =
  qRankBy :: RankBy
  qFilter :: Filter
  qTopK :: int
  qNProbe :: int

record QueryResult =
  rID :: string
  rDist :: flt
  rScore :: flt
  rRRF :: flt
  rAttributes :: attrs

section \<open>The objects of an index epoch\<close>

record Rotation =
  rotDim :: nat
  rotRows :: "flt list list"

record RaBitQCode =
  cBits :: "64 word list"
  cResidualNorm :: flt
  cOOAlign :: flt

datatype CentroidNode =
  CentroidNode (nCentroid: "flt list") (nChildren: "CentroidNode list") (nLeafCluster: nat)

record CentroidsFile =
  cfMetric :: string
  cfDimension :: nat
  cfK :: nat
  cfCentroids :: "flt list list"
  cfSizes :: "nat list"
  cfRotation :: "Rotation option"
  cfTree :: "CentroidNode option"

record ClusterEntry =
  eID :: string
  eVector :: "flt list"
  eCode :: "64 word list"
  eRaBitQ :: "RaBitQCode option"
  eAttrs :: attrs
  eVersion :: int

record ClusterFile =
  clCluster :: nat
  clCentroid :: "flt list"
  clMembers :: "ClusterEntry list"

record Posting =
  pID :: string
  pTF :: nat

record BM25File =
  bN :: nat
  bAvgDL :: flt
  bDocLen :: "(string, nat) gomap"
  bIndex :: "(string, Posting list) gomap"

record DocsFile =
  dfDocs :: "(string, attrs) gomap"

text \<open>
  The key of a bitmap bucket.  The code prefixes a formatted value with \<open>n:\<close>, \<open>s:\<close> or \<open>b:\<close>; the
  shortest formatting of a \<open>float64\<close> tells any two values apart (negative zero is \<open>-0\<close>), so the
  tagged value is the string.
\<close>

datatype vkey = KeyN flt | KeyS string | KeyB bool

record AttrsFile =
  aOrds :: "string list"
  aClusterOf :: "int list"
  aValues :: "(string, (vkey, 32 word list) gomap) gomap"

section \<open>The indexing queue\<close>

datatype JobState = JobUnclaimed | JobInProgress | JobOther string

record Job =
  jNamespace :: string
  jRequestedUpTo :: int
  jState :: JobState
  jWorker :: string
  jHeartbeatAt :: int
  jEnqueuedAt :: int

record Queue =
  qVersion :: int
  qJobs :: "Job list"

section \<open>Bodies\<close>

datatype wire =
    WManifest Manifest
  | WSegment WALSegment
  | WQueue Queue
  | WCentroids CentroidsFile
  | WCluster ClusterFile
  | WBM25 BM25File
  | WDocs DocsFile
  | WAttrs AttrsFile
  | WBytes string

fun json_val :: "aval \<Rightarrow> aval" where
  "json_val (AInt _ n) = AF64 (of_int64 n)"
| "json_val (AList xs) = AList (map json_val xs)"
| "json_val (AObj xs) = AObj (map (\<lambda>(k, x). (k, json_val x)) xs)"
| "json_val v = v"

fun json_val_ok :: "aval \<Rightarrow> bool" where
  "json_val_ok (AF64 x) = fin x"
| "json_val_ok (AList xs) = list_all json_val_ok xs"
| "json_val_ok (AObj xs) = list_all (\<lambda>(k, x). json_val_ok x) xs"
| "json_val_ok v = True"

definition json_doc :: "Document \<Rightarrow> Document" where
  "json_doc d = d\<lparr>dVector := (if dVector d = Some [] then None else dVector d),
     dAttributes := map (\<lambda>(k, v). (k, json_val v)) (dAttributes d)\<rparr>"

definition json_encodable :: "Document \<Rightarrow> bool" where
  "json_encodable d \<longleftrightarrow> (case dVector d of None \<Rightarrow> True | Some v \<Rightarrow> list_all fin v) \<and>
     list_all (\<lambda>(k, v). json_val_ok v) (dAttributes d)"

lemma json_doc_id [simp]: "dID (json_doc d) = dID d"
  and json_doc_deleted [simp]: "dDeleted (json_doc d) = dDeleted d"
  by (simp_all add: json_doc_def)

lemma json_val_idem [simp]: "json_val (json_val v) = json_val v"
  by (induction v rule: json_val.induct) auto

text \<open>What was decoded once is not changed by another round trip.\<close>

lemma json_doc_idem [simp]: "json_doc (json_doc d) = json_doc d"
proof -
  have "(\<lambda>(k, v). (k, json_val v)) \<circ> (\<lambda>(k, v). (k, json_val v)) = (\<lambda>(k :: string, v). (k, json_val v))"
    by auto
  then show ?thesis by (auto simp: json_doc_def)
qed

end
