(* ===== verification/Nvme.thy ===== *)
theory Nvme
  imports Prelude "HOL-Library.Word"
begin

text \<open>
  The warm cache tier of \<open>nvme.go\<close>: a ring of slots on a local disk, evicted first in first out.
  The directory is a record: the slot files by base name, the index file, and the outcomes of the
  I/O calls still to come (\<open>True\<close> is a failure; an empty list means that no call fails any more).
  A write that fails leaves the file as it was.  The hash that names a slot file
  (\<open>hex(sha256(key))\<close>) is a parameter \<open>h\<close>: nothing but its being a function is used, except where a
  theorem assumes that it tells the keys in play apart.  An index file is one that \<open>persist\<close> wrote,
  or unreadable.
\<close>

section \<open>The directory\<close>

record ringSlot =
  slKey :: string
  slHash :: string

record ringIndex =
  ixCapacity :: int
  ixCursor :: nat
  ixSlots :: "ringSlot list"

datatype index_file = NoIndex | BadIndex | Index ringIndex

record 'b ringDir =
  dirFiles :: "(string, 'b) gomap"
  dirIndex :: index_file
  dirFaults :: "bool list"

definition io_call :: "'b ringDir \<Rightarrow> bool \<times> 'b ringDir" where
  "io_call d = (case dirFaults d of
     [] \<Rightarrow> (True, d)
   | f # fs \<Rightarrow> (\<not> f, d\<lparr>dirFaults := fs\<rparr>))"

definition os_ReadFile :: "string \<Rightarrow> 'b ringDir \<Rightarrow> 'b option \<times> 'b ringDir" where
  "os_ReadFile name d = (let (ok, d) = io_call d in
     (if ok then map_of (dirFiles d) name else None, d))"

definition os_WriteFile :: "string \<Rightarrow> 'b \<Rightarrow> 'b ringDir \<Rightarrow> bool \<times> 'b ringDir" where
  "os_WriteFile name body d = (let (ok, d) = io_call d in
     (ok, if ok then d\<lparr>dirFiles := AList.update name body (dirFiles d)\<rparr> else d))"

definition os_Remove :: "string \<Rightarrow> 'b ringDir \<Rightarrow> 'b ringDir" where
  "os_Remove name d = (let (ok, d) = io_call d in
     if ok then d\<lparr>dirFiles := AList.delete name (dirFiles d)\<rparr> else d)"

lemma io_callE:
  obtains ok d' where "io_call d = (ok, d')" "dirIndex d' = dirIndex d" "dirFiles d' = dirFiles d"
  by (cases "dirFaults d") (auto simp: io_call_def)

lemma dirIndex_Remove [simp]: "dirIndex (os_Remove n d) = dirIndex d"
  by (rule io_callE [of d]) (simp add: os_Remove_def)

section \<open>The ring\<close>

datatype ring_err =
  RingCapacity | RingMkdir | RingReadIndex | RingParseIndex | RingWriteSlot | RingWriteIndex

record 'b nvmeRing =
  rDir :: "'b ringDir"
  rCapacity :: int
  rSlots :: "ringSlot list"
  rByKey :: "(string, nat) gomap"
  rCursor :: nat
  rHits :: "64 word"
  rMisses :: "64 word"

definition emptySlot :: ringSlot where
  "emptySlot = \<lparr>slKey = [], slHash = []\<rparr>"

fun index_slots :: "nat \<Rightarrow> ringSlot list \<Rightarrow> (string, nat) gomap \<Rightarrow> (string, nat) gomap" where
  "index_slots i [] m = m"
| "index_slots i (s # ss) m =
     index_slots (Suc i) ss (if slKey s \<noteq> [] then AList.update (slKey s) i m else m)"

definition ring_load :: "'b nvmeRing \<Rightarrow> ring_err + 'b nvmeRing" where
  "ring_load r = (let (ok, d) = io_call (rDir r); r = r\<lparr>rDir := d\<rparr> in
     if \<not> ok then Inl RingReadIndex
     else (case dirIndex d of
       NoIndex \<Rightarrow> Inr r
     | BadIndex \<Rightarrow> Inl RingParseIndex
     | Index idx \<Rightarrow>
         if ixCapacity idx \<noteq> rCapacity r \<or> int (length (ixSlots idx)) \<noteq> rCapacity r then Inr r
         else Inr (r\<lparr>rCursor := ixCursor idx mod nat (rCapacity r), rSlots := ixSlots idx,
           rByKey := index_slots 0 (ixSlots idx) (rByKey r)\<rparr>)))"

definition newNVMERing :: "'b ringDir \<Rightarrow> int \<Rightarrow> ring_err + 'b nvmeRing" where
  "newNVMERing d cap =
     (if cap \<le> 0 then Inl RingCapacity
      else let (ok, d) = io_call d in
        if \<not> ok then Inl RingMkdir
        else ring_load \<lparr>rDir = d, rCapacity = cap, rSlots = replicate (nat cap) emptySlot,
          rByKey = [], rCursor = 0, rHits = 0, rMisses = 0\<rparr>)"

definition ring_persist :: "'b nvmeRing \<Rightarrow> (ring_err + unit) \<times> 'b nvmeRing" where
  "ring_persist r = (let (ok, d) = io_call (rDir r) in
     if ok then (Inr (), r\<lparr>rDir := d\<lparr>dirIndex :=
       Index \<lparr>ixCapacity = rCapacity r, ixCursor = rCursor r, ixSlots = rSlots r\<rparr>\<rparr>\<rparr>)
     else (Inl RingWriteIndex, r\<lparr>rDir := d\<rparr>))"

definition ring_get :: "string \<Rightarrow> 'b nvmeRing \<Rightarrow> 'b option \<times> 'b nvmeRing" where
  "ring_get key r = (case map_of (rByKey r) key of
     None \<Rightarrow> (None, r\<lparr>rMisses := rMisses r + 1\<rparr>)
   | Some i \<Rightarrow>
       if slKey (rSlots r ! i) \<noteq> key then (None, r\<lparr>rMisses := rMisses r + 1\<rparr>)
       else (case os_ReadFile (slHash (rSlots r ! i)) (rDir r) of
         (None, d) \<Rightarrow> (None, r\<lparr>rSlots := (rSlots r)[i := emptySlot],
            rByKey := AList.delete key (rByKey r), rDir := d, rMisses := rMisses r + 1\<rparr>)
       | (Some body, d) \<Rightarrow> (Some body, r\<lparr>rDir := d, rHits := rHits r + 1\<rparr>)))"

text \<open>\<open>put\<close> in its three moves: forget an older copy, empty the slot at the cursor, write there.\<close>

definition ring_forget :: "string \<Rightarrow> 'b nvmeRing \<Rightarrow> 'b nvmeRing" where
  "ring_forget key r = (case map_of (rByKey r) key of
     None \<Rightarrow> r
   | Some old \<Rightarrow> r\<lparr>rSlots := (rSlots r)[old := emptySlot],
       rByKey := AList.delete key (rByKey r)\<rparr>)"

definition ring_evict :: "'b nvmeRing \<Rightarrow> 'b nvmeRing" where
  "ring_evict r = (let prev = rSlots r ! rCursor r in
     if slKey prev \<noteq> [] then r\<lparr>rByKey := AList.delete (slKey prev) (rByKey r),
       rDir := os_Remove (slHash prev) (rDir r)\<rparr>
     else r)"

definition ring_put ::
    "(string \<Rightarrow> string) \<Rightarrow> string \<Rightarrow> 'b \<Rightarrow> 'b nvmeRing \<Rightarrow> (ring_err + unit) \<times> 'b nvmeRing" where
  "ring_put h key body r = (let
     r = ring_evict (ring_forget key r);
     slot = rCursor r;
     hash = h key;
     (ok, d) = os_WriteFile hash body (rDir r)
   in if \<not> ok then (Inl RingWriteSlot, r\<lparr>rSlots := (rSlots r)[slot := emptySlot], rDir := d\<rparr>)
      else ring_persist (r\<lparr>rSlots := (rSlots r)[slot := \<lparr>slKey = key, slHash = hash\<rparr>],
        rByKey := AList.update key slot (rByKey r),
        rCursor := (slot + 1) mod nat (rCapacity r), rDir := d\<rparr>))"

definition ring_stats :: "'b nvmeRing \<Rightarrow> 64 word \<times> 64 word" where
  "ring_stats r = (rHits r, rMisses r)"

section \<open>The invariant\<close>

text \<open>
  \<open>ring_ok\<close>: the key map and the slots describe each other, the cursor is inside the ring, and
  each slot names the file of its key.
\<close>

definition ring_ok :: "(string \<Rightarrow> string) \<Rightarrow> 'b nvmeRing \<Rightarrow> bool" where
  "ring_ok h r \<longleftrightarrow> 0 < rCapacity r \<and> length (rSlots r) = nat (rCapacity r) \<and>
     rCursor r < length (rSlots r) \<and>
     (\<forall>k i. map_of (rByKey r) k = Some i \<longrightarrow> i < length (rSlots r) \<and> k \<noteq> [] \<and> slKey (rSlots r ! i) = k) \<and>
     (\<forall>i < length (rSlots r). slKey (rSlots r ! i) \<noteq> [] \<longrightarrow>
        map_of (rByKey r) (slKey (rSlots r ! i)) = Some i \<and>
        slHash (rSlots r ! i) = h (slKey (rSlots r ! i)))"

lemma ring_okD:
  assumes "ring_ok h r"
  shows "0 < rCapacity r" "length (rSlots r) = nat (rCapacity r)" "rCursor r < length (rSlots r)"
    and "map_of (rByKey r) k = Some i \<Longrightarrow> i < length (rSlots r) \<and> k \<noteq> [] \<and> slKey (rSlots r ! i) = k"
    and "i < length (rSlots r) \<Longrightarrow> slKey (rSlots r ! i) \<noteq> [] \<Longrightarrow>
      map_of (rByKey r) (slKey (rSlots r ! i)) = Some i \<and> slHash (rSlots r ! i) = h (slKey (rSlots r ! i))"
  using assms unfolding ring_ok_def by auto

lemma ring_okI:
  assumes "0 < rCapacity r" "length (rSlots r) = nat (rCapacity r)" "rCursor r < length (rSlots r)"
    and "\<And>k i. map_of (rByKey r) k = Some i \<Longrightarrow> i < length (rSlots r) \<and> k \<noteq> [] \<and> slKey (rSlots r ! i) = k"
    and "\<And>i. i < length (rSlots r) \<Longrightarrow> slKey (rSlots r ! i) \<noteq> [] \<Longrightarrow>
      map_of (rByKey r) (slKey (rSlots r ! i)) = Some i \<and> slHash (rSlots r ! i) = h (slKey (rSlots r ! i))"
  shows "ring_ok h r"
  using assms unfolding ring_ok_def by blast

lemma emptySlot_simps [simp]: "slKey emptySlot = []" "slHash emptySlot = []"
  by (simp_all add: emptySlot_def)

lemma ring_ok_dir [simp]: "ring_ok h (r\<lparr>rDir := d\<rparr>) = ring_ok h r"
  and ring_ok_hits [simp]: "ring_ok h (r\<lparr>rHits := n\<rparr>) = ring_ok h r"
  and ring_ok_misses [simp]: "ring_ok h (r\<lparr>rMisses := n\<rparr>) = ring_ok h r"
  by (simp_all add: ring_ok_def)

text \<open>Emptying the slot of a key together with its entry keeps the invariant.\<close>

lemma ring_ok_clear:
  assumes "ring_ok h r" "map_of (rByKey r) key = Some i"
  shows "ring_ok h (r\<lparr>rSlots := (rSlots r)[i := emptySlot], rByKey := AList.delete key (rByKey r)\<rparr>)"
proof (rule ring_okI)
  note ok = ring_okD [OF assms(1)]
  fix k j
  show "j < length (rSlots (r\<lparr>rSlots := (rSlots r)[i := emptySlot], rByKey := AList.delete key (rByKey r)\<rparr>)) \<and>
      k \<noteq> [] \<and> slKey (rSlots (r\<lparr>rSlots := (rSlots r)[i := emptySlot],
        rByKey := AList.delete key (rByKey r)\<rparr>) ! j) = k"
    if "map_of (rByKey (r\<lparr>rSlots := (rSlots r)[i := emptySlot], rByKey := AList.delete key (rByKey r)\<rparr>)) k = Some j"
    using that ok(4) [of k j] ok(4) [OF assms(2)] by (cases "j = i") (auto split: if_splits)
next
  note ok = ring_okD [OF assms(1)]
  fix j
  assume "j < length (rSlots (r\<lparr>rSlots := (rSlots r)[i := emptySlot], rByKey := AList.delete key (rByKey r)\<rparr>))"
    and "slKey (rSlots (r\<lparr>rSlots := (rSlots r)[i := emptySlot], rByKey := AList.delete key (rByKey r)\<rparr>) ! j) \<noteq> []"
  then have "j < length (rSlots r)" "j \<noteq> i" "slKey (rSlots r ! j) \<noteq> []"
    by (cases "j = i"; simp)+
  with ok(5) [of j] assms(2)
  show "map_of (rByKey (r\<lparr>rSlots := (rSlots r)[i := emptySlot], rByKey := AList.delete key (rByKey r)\<rparr>))
      (slKey (rSlots (r\<lparr>rSlots := (rSlots r)[i := emptySlot], rByKey := AList.delete key (rByKey r)\<rparr>) ! j)) = Some j \<and>
    slHash (rSlots (r\<lparr>rSlots := (rSlots r)[i := emptySlot], rByKey := AList.delete key (rByKey r)\<rparr>) ! j) =
      h (slKey (rSlots (r\<lparr>rSlots := (rSlots r)[i := emptySlot], rByKey := AList.delete key (rByKey r)\<rparr>) ! j))"
    by (cases "j = i") auto
qed (use ring_okD [OF assms(1)] in auto)

lemma ring_forget_ok: "ring_ok h r \<Longrightarrow> ring_ok h (ring_forget key r)"
  using ring_ok_clear by (auto simp: ring_forget_def split: option.split)

lemma ring_forget_unmapped [simp]: "map_of (rByKey (ring_forget key r)) key = None"
  by (simp add: ring_forget_def split: option.split)

lemma ring_forget_simps [simp]:
  "rCursor (ring_forget key r) = rCursor r" "rCapacity (ring_forget key r) = rCapacity r"
  "rDir (ring_forget key r) = rDir r" "length (rSlots (ring_forget key r)) = length (rSlots r)"
  "rHits (ring_forget key r) = rHits r" "rMisses (ring_forget key r) = rMisses r"
  by (simp_all add: ring_forget_def split: option.split)

lemma ring_evict_simps [simp]:
  "rCursor (ring_evict r) = rCursor r" "rCapacity (ring_evict r) = rCapacity r"
  "rSlots (ring_evict r) = rSlots r"
  "rHits (ring_evict r) = rHits r" "rMisses (ring_evict r) = rMisses r"
  by (simp_all add: ring_evict_def Let_def)

text \<open>
  What the eviction leaves: every mapping but that of the slot at the cursor.  With the slot then
  filled (by the new object or by nothing) the invariant is back.
\<close>

lemma ring_evict_byKey:
  assumes "ring_ok h r"
  shows "map_of (rByKey (ring_evict r)) k =
    (if k = slKey (rSlots r ! rCursor r) then None else map_of (rByKey r) k)"
  using ring_okD(4) [OF assms, of k] by (cases "map_of (rByKey r) k") (auto simp: ring_evict_def Let_def)

lemma ring_fill_ok:
  assumes "ring_ok h r" "map_of (rByKey r) (slKey s) = None"
    and len: "length (rSlots r') = length (rSlots r)" and cap: "rCapacity r' = rCapacity r"
    and cur: "rCursor r' < length (rSlots r)"
    and slots: "rSlots r' = (rSlots r)[rCursor r := s]" and s: "slHash s = h (slKey s) \<or> slKey s = []"
    and keys: "\<And>k. map_of (rByKey r') k = (if k = slKey s \<and> k \<noteq> [] then Some (rCursor r)
      else if k = slKey (rSlots r ! rCursor r) then None else map_of (rByKey r) k)"
  shows "ring_ok h r'"
proof (rule ring_okI)
  note ok = ring_okD [OF assms(1)]
  fix k i
  assume "map_of (rByKey r') k = Some i"
  then show "i < length (rSlots r') \<and> k \<noteq> [] \<and> slKey (rSlots r' ! i) = k"
    using ok(3) ok(4) [of k i] slots by (auto simp: keys nth_list_update split: if_splits)
next
  note ok = ring_okD [OF assms(1)]
  fix i
  assume i: "i < length (rSlots r')" "slKey (rSlots r' ! i) \<noteq> []"
  show "map_of (rByKey r') (slKey (rSlots r' ! i)) = Some i \<and>
      slHash (rSlots r' ! i) = h (slKey (rSlots r' ! i))"
  proof (cases "i = rCursor r")
    case True
    with i s slots ok(3) show ?thesis by (auto simp: keys)
  next
    case False
    with i slots len have i': "i < length (rSlots r)" "slKey (rSlots r ! i) \<noteq> []"
      "rSlots r' ! i = rSlots r ! i" by auto
    have "slKey (rSlots r ! i) \<noteq> slKey (rSlots r ! rCursor r)"
      using ok(5) [OF i'(1,2)] ok(5) [OF ok(3)] i'(2) False by auto
    moreover have "slKey (rSlots r ! i) \<noteq> slKey s" using ok(5) [OF i'(1,2)] assms(2) by auto
    ultimately show ?thesis using ok(5) [OF i'(1,2)] i'(3) by (auto simp: keys)
  qed
qed (use ring_okD [OF assms(1)] assms in auto)

lemma ring_evict_fill_ok:
  assumes "ring_ok h r" "map_of (rByKey r) key = None" "key \<noteq> []"
  shows "ring_ok h ((ring_evict r)\<lparr>rSlots := (rSlots r)[rCursor r := emptySlot]\<rparr>)"
    and "ring_ok h ((ring_evict r)\<lparr>rSlots := (rSlots r)[rCursor r := \<lparr>slKey = key, slHash = h key\<rparr>],
      rByKey := AList.update key (rCursor r) (rByKey (ring_evict r)),
      rCursor := (rCursor r + 1) mod nat (rCapacity r)\<rparr>)"
proof -
  note ok = ring_okD [OF assms(1)]
  have none: "map_of (rByKey r) [] = None" using ok(4) [of "[]"] by fastforce
  show "ring_ok h ((ring_evict r)\<lparr>rSlots := (rSlots r)[rCursor r := emptySlot]\<rparr>)"
    by (rule ring_fill_ok [OF assms(1), where s = emptySlot])
      (use ok(3) none ring_evict_byKey [OF assms(1)] in auto)
  show "ring_ok h ((ring_evict r)\<lparr>rSlots := (rSlots r)[rCursor r := \<lparr>slKey = key, slHash = h key\<rparr>],
      rByKey := AList.update key (rCursor r) (rByKey (ring_evict r)),
      rCursor := (rCursor r + 1) mod nat (rCapacity r)\<rparr>)"
    by (rule ring_fill_ok [OF assms(1), where s = "\<lparr>slKey = key, slHash = h key\<rparr>"])
      (use ok(1-3) assms(2,3) ring_evict_byKey [OF assms(1)] in auto)
qed

lemma ring_persist_cases:
  "\<exists>res d. ring_persist r = (res, r\<lparr>rDir := d\<rparr>) \<and> dirFiles d = dirFiles (rDir r)"
  by (auto simp: ring_persist_def io_call_def Let_def split: list.splits prod.splits)

lemma ring_evict_index [simp]: "dirIndex (rDir (ring_evict r)) = dirIndex (rDir r)"
  by (simp add: ring_evict_def Let_def)

lemma ring_put_cases:
  obtains (fails) d where
    "ring_put h key body r = (Inl RingWriteSlot, (ring_evict (ring_forget key r))
       \<lparr>rSlots := (rSlots (ring_forget key r))[rCursor r := emptySlot], rDir := d\<rparr>)"
    "dirIndex d = dirIndex (rDir r)"
    "dirFiles d = dirFiles (rDir (ring_evict (ring_forget key r)))"
  | (writes) res d n where
    "ring_put h key body r = (res, (ring_evict (ring_forget key r))
       \<lparr>rSlots := (rSlots (ring_forget key r))[rCursor r := \<lparr>slKey = key, slHash = h key\<rparr>],
       rByKey := AList.update key (rCursor r) (rByKey (ring_evict (ring_forget key r))),
       rCursor := (rCursor r + 1) mod nat (rCapacity r), rDir := d\<rparr>)"
    "dirIndex d = dirIndex (rDir r) \<or>
      dirIndex d = Index \<lparr>ixCapacity = rCapacity r, ixCursor = n, ixSlots =
        (rSlots (ring_forget key r))[rCursor r := \<lparr>slKey = key, slHash = h key\<rparr>]\<rparr>"
    "dirFiles d = AList.update (h key) body (dirFiles (rDir (ring_evict (ring_forget key r))))"
    "res \<noteq> Inl RingWriteSlot"
proof (rule io_callE [of "rDir (ring_evict (ring_forget key r))"])
  fix ok d0
  assume d0: "io_call (rDir (ring_evict (ring_forget key r))) = (ok, d0)"
    "dirIndex d0 = dirIndex (rDir (ring_evict (ring_forget key r)))"
    "dirFiles d0 = dirFiles (rDir (ring_evict (ring_forget key r)))"
  show ?thesis
  proof (cases ok)
    case False
    with d0 show ?thesis
      using fails [of d0] by (simp add: ring_put_def os_WriteFile_def)
  next
    case True
    show ?thesis
    proof (rule io_callE [of "d0\<lparr>dirFiles := AList.update (h key) body (dirFiles d0)\<rparr>"])
      fix ok' d1
      assume "io_call (d0\<lparr>dirFiles := AList.update (h key) body (dirFiles d0)\<rparr>) = (ok', d1)"
        "dirIndex d1 = dirIndex (d0\<lparr>dirFiles := AList.update (h key) body (dirFiles d0)\<rparr>)"
        "dirFiles d1 = dirFiles (d0\<lparr>dirFiles := AList.update (h key) body (dirFiles d0)\<rparr>)"
      with True d0 show ?thesis
        by (intro writes [of "fst (ring_put h key body r)" "rDir (snd (ring_put h key body r))"
              "(rCursor r + 1) mod nat (rCapacity r)"])
          (auto simp: ring_put_def os_WriteFile_def ring_persist_def Let_def)
    qed
  qed
qed

lemma ring_put_ok:
  assumes "ring_ok h r" "key \<noteq> []"
  shows "ring_ok h (snd (ring_put h key body r))"
proof -
  have ok: "ring_ok h (ring_forget key r)" using assms(1) by (rule ring_forget_ok)
  note fill = ring_evict_fill_ok [OF ok ring_forget_unmapped assms(2)]
  show ?thesis
    by (cases rule: ring_put_cases [of h key body r]) (use fill in auto)
qed

lemma ring_get_ok: "ring_ok h r \<Longrightarrow> ring_ok h (snd (ring_get k r))"
  by (auto simp: ring_get_def os_ReadFile_def Let_def intro: ring_ok_clear
      split: option.splits prod.splits)

text \<open>The ring that construction starts from, and any ring reloaded from what \<open>persist\<close> wrote.\<close>

lemma ring_fresh_ok:
  "0 < cap \<Longrightarrow> ring_ok h \<lparr>rDir = d, rCapacity = cap, rSlots = replicate (nat cap) emptySlot,
     rByKey = [], rCursor = 0, rHits = x, rMisses = y\<rparr>"
  by (rule ring_okI) auto

lemma index_slots_other:
  "k = [] \<or> k \<notin> slKey ` set ss \<Longrightarrow> map_of (index_slots i ss m) k = map_of m k"
  by (induction i ss m rule: index_slots.induct) auto

lemma index_slots_at:
  assumes "j < length ss" "slKey (ss ! j) \<noteq> []"
    and "\<And>j'. j' < length ss \<Longrightarrow> slKey (ss ! j') = slKey (ss ! j) \<Longrightarrow> j' = j"
  shows "map_of (index_slots i ss m) (slKey (ss ! j)) = Some (i + j)"
  using assms
proof (induction i ss m arbitrary: j rule: index_slots.induct)
  case (2 i s ss m)
  show ?case
  proof (cases j)
    case 0
    have "slKey s \<notin> slKey ` set ss"
    proof
      assume "slKey s \<in> slKey ` set ss"
      then obtain i where "i < length ss" "slKey (ss ! i) = slKey s"
        by (auto simp: in_set_conv_nth)
      with "2.prems"(3) [of "Suc i"] 0 show False by simp
    qed
    then show ?thesis using "2.prems"(2) 0 by (simp add: index_slots_other)
  next
    case (Suc j')
    have "j'' = j'" if "j'' < length ss" "slKey (ss ! j'') = slKey (ss ! j')" for j''
      using "2.prems"(3) [of "Suc j''"] that Suc by auto
    then show ?thesis using "2.IH" [of j'] "2.prems"(1,2) Suc by auto
  qed
qed simp

lemma ring_slots_inj:
  assumes "ring_ok h r" "i < length (rSlots r)" "j < length (rSlots r)"
    "slKey (rSlots r ! i) \<noteq> []" "slKey (rSlots r ! i) = slKey (rSlots r ! j)"
  shows "i = j"
proof -
  have "map_of (rByKey r) (slKey (rSlots r ! i)) = Some i"
    using ring_okD(5) [OF assms(1,2,4)] by blast
  moreover have "map_of (rByKey r) (slKey (rSlots r ! j)) = Some j"
    using ring_okD(5) [OF assms(1,3)] assms(4,5) by metis
  ultimately show ?thesis using assms(5) by (metis option.inject)
qed

text \<open>
  \<open>index_ok h cap d\<close>: an index file of the right shape has distinct keys, each with its hash.
  Reloading it gives a ring that satisfies the invariant.
\<close>

definition index_ok :: "(string \<Rightarrow> string) \<Rightarrow> int \<Rightarrow> 'b ringDir \<Rightarrow> bool" where
  "index_ok h cap d \<longleftrightarrow> (\<forall>idx. dirIndex d = Index idx \<longrightarrow> int (length (ixSlots idx)) = cap \<longrightarrow>
     (\<forall>i < length (ixSlots idx). slKey (ixSlots idx ! i) \<noteq> [] \<longrightarrow>
        slHash (ixSlots idx ! i) = h (slKey (ixSlots idx ! i)) \<and>
        (\<forall>j < length (ixSlots idx). slKey (ixSlots idx ! j) = slKey (ixSlots idx ! i) \<longrightarrow> j = i)))"

lemma index_ring_ok:
  fixes r :: "'b nvmeRing"
  assumes cap: "0 < rCapacity r" and len: "length (rSlots r) = nat (rCapacity r)"
    and cur: "rCursor r < length (rSlots r)" and keys: "rByKey r = index_slots 0 (rSlots r) []"
    and hash: "\<And>i. i < length (rSlots r) \<Longrightarrow> slKey (rSlots r ! i) \<noteq> [] \<Longrightarrow>
      slHash (rSlots r ! i) = h (slKey (rSlots r ! i))"
    and inj: "\<And>i j. i < length (rSlots r) \<Longrightarrow> slKey (rSlots r ! i) \<noteq> [] \<Longrightarrow>
      j < length (rSlots r) \<Longrightarrow> slKey (rSlots r ! j) = slKey (rSlots r ! i) \<Longrightarrow> j = i"
  shows "ring_ok h r"
proof (rule ring_okI [OF cap len cur])
  have idx: "map_of (rByKey r) (slKey (rSlots r ! i)) = Some i"
    if "i < length (rSlots r)" "slKey (rSlots r ! i) \<noteq> []" for i
    using index_slots_at [OF that, of 0 "[]"] inj [OF that] unfolding keys by simp
  show "map_of (rByKey r) (slKey (rSlots r ! i)) = Some i \<and>
      slHash (rSlots r ! i) = h (slKey (rSlots r ! i))"
    if "i < length (rSlots r)" "slKey (rSlots r ! i) \<noteq> []" for i
    using idx [OF that] hash [OF that] ..
  show "i < length (rSlots r) \<and> k \<noteq> [] \<and> slKey (rSlots r ! i) = k"
    if k: "map_of (rByKey r) k = Some i" for k i
  proof -
    have "k \<noteq> []" "k \<in> slKey ` set (rSlots r)"
      using k index_slots_other [of k "rSlots r" 0 "[]"] unfolding keys by (cases "k = []"; force)+
    then obtain j where "j < length (rSlots r)" "slKey (rSlots r ! j) = k"
      by (metis imageE in_set_conv_nth)
    with \<open>k \<noteq> []\<close> idx [of j] k show ?thesis by simp
  qed
qed

lemma ring_load_ok:
  assumes "0 < rCapacity r" "index_ok h (rCapacity r) (rDir r)" "rByKey r = []" "rCursor r = 0"
    and "rSlots r = replicate (nat (rCapacity r)) emptySlot" "ring_load r = Inr r'"
  shows "ring_ok h r'"
proof -
  obtain ok d where d: "io_call (rDir r) = (ok, d)" "dirIndex d = dirIndex (rDir r)"
    by (rule io_callE)
  show ?thesis
  proof (cases "r' = r\<lparr>rDir := d\<rparr>")
    case True
    have "ring_ok h r" by (rule ring_okI) (use assms(1,3,4,5) in auto)
    then show ?thesis unfolding True by simp
  next
    case False
    with assms(6) d obtain idx where idx: "dirIndex (rDir r) = Index idx"
      "int (length (ixSlots idx)) = rCapacity r"
      and r': "r' = r\<lparr>rCursor := ixCursor idx mod nat (rCapacity r), rSlots := ixSlots idx,
        rByKey := index_slots 0 (ixSlots idx) [], rDir := d\<rparr>"
      by (auto simp: ring_load_def Let_def assms(3) split: if_splits index_file.splits)
    have "nat (rCapacity r) = length (ixSlots idx)" "0 < length (ixSlots idx)"
      using idx(2) assms(1) by auto
    then show ?thesis
      unfolding r' by (intro index_ring_ok) (use assms(1,2) idx in \<open>auto simp: index_ok_def\<close>)
  qed
qed

section \<open>First in, first out\<close>

text \<open>
  The abstract ring: the keys from the oldest slot to the newest, \<open>[]\<close> for a slot that is empty.
\<close>

definition ring_order :: "'b nvmeRing \<Rightarrow> string list" where
  "ring_order r = map slKey (rotate (rCursor r) (rSlots r))"

lemma rotate_update:
  assumes "c < length xs"
  shows "rotate ((c + 1) mod length xs) (xs[c := s]) = tl (rotate c xs) @ [s]"
proof -
  have "rotate ((c + 1) mod length xs) (xs[c := s]) = rotate1 (rotate c (xs[c := s]))"
    by (metis Suc_eq_plus1 length_list_update rotate_Suc rotate_conv_mod)
  moreover have "rotate c (xs[c := s]) = s # drop (Suc c) xs @ take c xs"
    using assms by (simp add: rotate_drop_take upd_conv_take_nth_drop)
  moreover have "rotate c xs = xs ! c # drop (Suc c) xs @ take c xs"
    using assms by (simp add: rotate_drop_take Cons_nth_drop_Suc)
  ultimately show ?thesis by simp
qed

lemma ring_forget_keys:
  assumes "ring_ok h r" "key \<noteq> []"
  shows "map slKey (rSlots (ring_forget key r)) =
    map (\<lambda>k. if k = key then [] else k) (map slKey (rSlots r))"
proof (cases "map_of (rByKey r) key")
  case None
  have "slKey s \<noteq> key" if "s \<in> set (rSlots r)" for s
    using that ring_okD(5) [OF assms(1)] assms(2) None by (fastforce simp: in_set_conv_nth)
  then show ?thesis using None by (auto simp: ring_forget_def)
next
  case (Some i)
  note i = ring_okD(4) [OF assms(1) Some]
  show ?thesis
  proof (rule nth_equalityI)
    fix j assume "j < length (map slKey (rSlots (ring_forget key r)))"
    then have j: "j < length (rSlots r)" by simp
    then show "map slKey (rSlots (ring_forget key r)) ! j =
        map (\<lambda>k. if k = key then [] else k) (map slKey (rSlots r)) ! j"
      using i ring_slots_inj [OF assms(1) j, of i] Some
      by (cases "j = i") (auto simp: ring_forget_def nth_list_update)
  qed simp
qed

lemma ring_put_order:
  assumes "ring_ok h r" "key \<noteq> []" "ring_put h key body r = (res, r')" "res \<noteq> Inl RingWriteSlot"
  shows "ring_order r' = tl (map (\<lambda>k. if k = key then [] else k) (ring_order r)) @ [key]"
proof -
  note ok = ring_okD [OF assms(1)]
  let ?s = "\<lparr>slKey = key, slHash = h key\<rparr>"
  have r': "rSlots r' = (rSlots (ring_forget key r))[rCursor r := ?s] \<and>
    rCursor r' = (rCursor r + 1) mod nat (rCapacity r)"
    using assms(3,4) by (cases rule: ring_put_cases [of h key body r]) auto
  have "ring_order r' = map slKey (tl (rotate (rCursor r) (rSlots (ring_forget key r))) @ [?s])"
    unfolding ring_order_def using rotate_update [of "rCursor r" "rSlots (ring_forget key r)" ?s] ok(2,3) r'
    by simp
  also have "\<dots> = tl (rotate (rCursor r) (map slKey (rSlots (ring_forget key r)))) @ [key]"
    by (simp add: map_tl rotate_map)
  also have "\<dots> = tl (map (\<lambda>k. if k = key then [] else k) (ring_order r)) @ [key]"
    unfolding ring_forget_keys [OF assms(1,2)] ring_order_def rotate_map ..
  finally show ?thesis .
qed

lemma ring_resident_iff:
  assumes "ring_ok h r"
  shows "map_of (rByKey r) k \<noteq> None \<longleftrightarrow> k \<noteq> [] \<and> k \<in> set (ring_order r)"
proof
  assume "map_of (rByKey r) k \<noteq> None"
  then obtain i where "map_of (rByKey r) k = Some i" by auto
  from ring_okD(4) [OF assms this] have "i < length (rSlots r)" "k \<noteq> []" "k = slKey (rSlots r ! i)"
    by auto
  then show "k \<noteq> [] \<and> k \<in> set (ring_order r)"
    unfolding ring_order_def set_map set_rotate by (metis imageI nth_mem)
next
  assume k: "k \<noteq> [] \<and> k \<in> set (ring_order r)"
  then obtain i where "i < length (rSlots r)" "slKey (rSlots r ! i) = k"
    unfolding ring_order_def set_map set_rotate by (metis imageE in_set_conv_nth)
  with k ring_okD(5) [OF assms] show "map_of (rByKey r) k \<noteq> None" by blast
qed

section \<open>What the ring serves\<close>

text \<open>
  \<open>dir_truthful h K T d\<close>: the file that a key of \<open>K\<close> names holds the one body \<open>T\<close> that the key has.
\<close>

definition dir_truthful ::
    "(string \<Rightarrow> string) \<Rightarrow> string set \<Rightarrow> (string \<Rightarrow> 'b option) \<Rightarrow> 'b ringDir \<Rightarrow> bool" where
  "dir_truthful h K T d \<longleftrightarrow> (\<forall>k \<in> K. \<forall>b. map_of (dirFiles d) (h k) = Some b \<longrightarrow> T k = Some b)"

lemma index_ok_cong: "dirIndex d' = dirIndex d \<Longrightarrow> index_ok h c d' = index_ok h c d"
  by (simp add: index_ok_def)

lemma dir_truthful_Remove: "dir_truthful h K T d \<Longrightarrow> dir_truthful h K T (os_Remove n d)"
  by (rule io_callE [of d]) (auto simp: dir_truthful_def os_Remove_def split: if_splits)

lemma dirFiles_evict_truthful:
  "dir_truthful h K T (rDir r) \<Longrightarrow> dir_truthful h K T (rDir (ring_evict r))"
  by (simp add: ring_evict_def Let_def dir_truthful_Remove)

lemma ring_put_truthful:
  assumes "dir_truthful h K T (rDir r)" "inj_on h K" "key \<in> K" "T key = Some body"
  shows "dir_truthful h K T (rDir (snd (ring_put h key body r)))"
proof -
  have e: "dir_truthful h K T (rDir (ring_evict (ring_forget key r)))"
    using assms(1) by (simp add: dirFiles_evict_truthful)
  have ne: "h k \<noteq> h key" if "k \<in> K" "k \<noteq> key" for k
    using assms(2,3) that by (auto dest: inj_onD)
  show ?thesis
  proof (cases rule: ring_put_cases [of h key body r])
    case (fails d)
    with e show ?thesis by (simp add: dir_truthful_def)
  next
    case (writes res d n)
    show ?thesis
      unfolding dir_truthful_def
    proof (intro ballI allI impI)
      fix k b
      assume k: "k \<in> K" "map_of (dirFiles (rDir (snd (ring_put h key body r)))) (h k) = Some b"
      show "T k = Some b"
      proof (cases "k = key")
        case True
        with k(2) writes assms(4) show ?thesis by simp
      next
        case False
        with k(2) writes ne [OF k(1)] e k(1) show ?thesis by (simp add: dir_truthful_def)
      qed
    qed
  qed
qed

lemma ring_put_index_ok:
  assumes "ring_ok h r" "key \<noteq> []" "index_ok h (rCapacity r) (rDir r)"
  shows "index_ok h (rCapacity r) (rDir (snd (ring_put h key body r)))"
proof -
  let ?r = "snd (ring_put h key body r)"
  note new = ring_put_ok [OF assms(1,2), of body]
  consider "dirIndex (rDir ?r) = dirIndex (rDir r)"
    | c n where "dirIndex (rDir ?r) = Index \<lparr>ixCapacity = c, ixCursor = n, ixSlots = rSlots ?r\<rparr>"
    by (cases rule: ring_put_cases [of h key body r]) auto
  then show ?thesis
  proof cases
    case 1
    with assms(3) show ?thesis using index_ok_cong [OF 1] by simp
  next
    case 2
    have "j = i" if "i < length (rSlots ?r)" "j < length (rSlots ?r)" "slKey (rSlots ?r ! i) \<noteq> []"
      "slKey (rSlots ?r ! j) = slKey (rSlots ?r ! i)" for i j
      using ring_slots_inj [OF new that(1,2,3)] that(4) by simp
    moreover have "slHash (rSlots ?r ! i) = h (slKey (rSlots ?r ! i))"
      if "i < length (rSlots ?r)" "slKey (rSlots ?r ! i) \<noteq> []" for i
      using ring_okD(5) [OF new that] by blast
    ultimately show ?thesis unfolding index_ok_def 2 by simp
  qed
qed

lemma ring_get_serves:
  assumes "ring_ok h r" "dir_truthful h K T (rDir r)" "k \<in> K" "fst (ring_get k r) = Some b"
  shows "T k = Some b"
proof -
  obtain i where i: "map_of (rByKey r) k = Some i"
    using assms(4) by (auto simp: ring_get_def split: option.splits)
  have k: "i < length (rSlots r)" "slKey (rSlots r ! i) = k" "k \<noteq> []"
    using ring_okD(4) [OF assms(1) i] by auto
  then have "slHash (rSlots r ! i) = h k" using ring_okD(5) [OF assms(1) k(1)] by simp
  moreover have "map_of (dirFiles (rDir r)) (slHash (rSlots r ! i)) = Some b"
    using assms(4) i k(2)
    by (auto simp: ring_get_def os_ReadFile_def Let_def split: option.splits prod.splits if_splits
        intro: io_callE [of "rDir r"])
  ultimately show ?thesis using assms(2,3) by (simp add: dir_truthful_def)
qed

lemma ring_get_dir:
  "dirFiles (rDir (snd (ring_get k r))) = dirFiles (rDir r) \<and>
   dirIndex (rDir (snd (ring_get k r))) = dirIndex (rDir r) \<and>
   rCapacity (snd (ring_get k r)) = rCapacity r"
  by (rule io_callE [of "rDir r"])
    (auto simp: ring_get_def os_ReadFile_def split: option.splits)

lemma ring_put_capacity [simp]: "rCapacity (snd (ring_put h key body r)) = rCapacity r"
  by (cases rule: ring_put_cases [of h key body r]) auto

section \<open>Whole lives of a ring\<close>

datatype 'b ring_op = RGet string | RPut string 'b | RRestart

fun ring_step :: "(string \<Rightarrow> string) \<Rightarrow> 'b ring_op \<Rightarrow> 'b nvmeRing \<Rightarrow> ring_err + 'b nvmeRing" where
  "ring_step h (RGet k) r = Inr (snd (ring_get k r))"
| "ring_step h (RPut k b) r = Inr (snd (ring_put h k b r))"
| "ring_step h RRestart r = newNVMERing (rDir r) (rCapacity r)"

fun ring_run :: "(string \<Rightarrow> string) \<Rightarrow> 'b ring_op list \<Rightarrow> 'b nvmeRing \<Rightarrow> ring_err + 'b nvmeRing" where
  "ring_run h [] r = Inr r"
| "ring_run h (x # xs) r = (case ring_step h x r of Inl e \<Rightarrow> Inl e | Inr r' \<Rightarrow> ring_run h xs r')"

definition put_ops :: "'b ring_op list \<Rightarrow> (string \<times> 'b) set" where
  "put_ops xs = {(k, b). RPut k b \<in> set xs}"

lemma newNVMERing_ok:
  assumes "newNVMERing d cap = Inr r" "index_ok h cap d"
  shows "ring_ok h r \<and> rCapacity r = cap \<and> dirFiles (rDir r) = dirFiles d \<and> dirIndex (rDir r) = dirIndex d"
proof (rule io_callE [of d])
  fix ok d'
  assume d': "io_call d = (ok, d')" "dirIndex d' = dirIndex d" "dirFiles d' = dirFiles d"
  let ?r0 = "\<lparr>rDir = d', rCapacity = cap, rSlots = replicate (nat cap) emptySlot,
    rByKey = [], rCursor = 0, rHits = 0, rMisses = 0\<rparr>"
  have r: "0 < cap" "ring_load ?r0 = Inr r"
    using assms(1) d'(1) by (auto simp: newNVMERing_def split: if_splits)
  have "ring_ok h r"
    by (rule ring_load_ok [OF _ _ _ _ _ r(2)]) (use r(1) assms(2) index_ok_cong [OF d'(2)] in auto)
  moreover have "rCapacity r = cap \<and> dirFiles (rDir r) = dirFiles d' \<and> dirIndex (rDir r) = dirIndex d'"
    by (rule io_callE [of d'])
      (use r(2) in \<open>auto simp: ring_load_def Let_def split: if_splits index_file.splits\<close>)
  ultimately show ?thesis using d'(2,3) by simp
qed

text \<open>One step keeps all that the ring's answers rest on.\<close>

definition ring_inv ::
    "(string \<Rightarrow> string) \<Rightarrow> string set \<Rightarrow> (string \<Rightarrow> 'b option) \<Rightarrow> 'b nvmeRing \<Rightarrow> bool" where
  "ring_inv h K T r \<longleftrightarrow> ring_ok h r \<and> index_ok h (rCapacity r) (rDir r) \<and> dir_truthful h K T (rDir r)"

lemma ring_step_inv:
  assumes "ring_inv h K T r" "inj_on h K" "ring_step h x r = Inr r'"
    and "\<And>k b. x = RPut k b \<Longrightarrow> k \<noteq> [] \<and> k \<in> K \<and> T k = Some b"
  shows "ring_inv h K T r'"
proof (cases x)
  case (RGet k)
  with assms(1,3) ring_get_dir [of k r] ring_get_ok [of h r k] show ?thesis
    by (auto simp: ring_inv_def dir_truthful_def index_ok_def)
next
  case (RPut k b)
  with assms(1,3,4) ring_put_ok [of h r k b] ring_put_index_ok [of h r k b]
    ring_put_truthful [OF _ assms(2), of T r k b] show ?thesis
    by (auto simp: ring_inv_def)
next
  case RRestart
  with assms(1,3) newNVMERing_ok [of "rDir r" "rCapacity r" r' h] show ?thesis
    by (auto simp: ring_inv_def dir_truthful_def index_ok_def)
qed

lemma ring_run_inv:
  assumes "ring_inv h K T r" "inj_on h K" "ring_run h xs r = Inr r'"
    and "\<And>k b. (k, b) \<in> put_ops xs \<Longrightarrow> k \<noteq> [] \<and> k \<in> K \<and> T k = Some b"
  shows "ring_inv h K T r'"
  using assms(1,3,4)
proof (induction xs arbitrary: r)
  case (Cons x xs)
  from Cons.prems(2) obtain r1 where r1: "ring_step h x r = Inr r1" "ring_run h xs r1 = Inr r'"
    by (auto split: sum.splits)
  have "ring_inv h K T r1"
    by (rule ring_step_inv [OF Cons.prems(1) assms(2) r1(1)])
      (use Cons.prems(3) in \<open>auto simp: put_ops_def\<close>)
  then show ?case
    by (rule Cons.IH [OF _ r1(2)]) (use Cons.prems(3) in \<open>auto simp: put_ops_def\<close>)
qed simp

definition emptyDir :: "bool list \<Rightarrow> 'b ringDir" where
  "emptyDir faults = \<lparr>dirFiles = [], dirIndex = NoIndex, dirFaults = faults\<rparr>"



text \<open>
  Eviction is first in, first out.  Seen as the list of its keys from the oldest slot to the
  newest, a ring after a put has lost its oldest slot and has the new key last (an older copy of it
  blanked out); the keys it can serve are exactly those of the list.
\<close>

theorem ring_put_fifo:
  assumes "ring_ok h r" and "key \<noteq> []" and "ring_put h key body r = (res, r')"
    and "res \<noteq> Inl RingWriteSlot"
  shows "ring_order r' = tl (map (\<lambda>k. if k = key then [] else k) (ring_order r)) @ [key] \<and>
    (\<forall>k. map_of (rByKey r') k \<noteq> None \<longleftrightarrow> k \<noteq> [] \<and> k \<in> set (ring_order r'))"
  using ring_put_order [OF assms] ring_resident_iff [of h r'] ring_put_ok [OF assms(1,2), of body]
    assms(3) by simp

theorem ring_put_fifo_witness:
  "\<exists>r r'. ring_put (\<lambda>k. k) ''c'' (3::nat) r = (Inr (), r') \<and> ring_order r = [''a'', ''b''] \<and>
    ring_order r' = tl (map (\<lambda>k. if k = ''c'' then [] else k) (ring_order r)) @ [''c''] \<and>
    (\<forall>k. map_of (rByKey r') k \<noteq> None \<longleftrightarrow> k \<noteq> [] \<and> k \<in> set (ring_order r'))"
proof -
  define r0 where "r0 = (\<lparr>rDir = emptyDir [], rCapacity = 2, rSlots = replicate 2 emptySlot,
    rByKey = [], rCursor = 0, rHits = 0, rMisses = 0\<rparr> :: nat nvmeRing)"
  define r where "r = snd (ring_put (\<lambda>k. k) ''b'' 2 (snd (ring_put (\<lambda>k. k) ''a'' 1 r0)))"
  have ok: "ring_ok (\<lambda>k. k) r"
    unfolding r_def by (intro ring_put_ok) (auto simp: r0_def numeral_2_eq_2 intro: ring_fresh_ok [of 2, simplified])
  have put: "ring_put (\<lambda>k. k) ''c'' 3 r = (Inr (), snd (ring_put (\<lambda>k. k) ''c'' 3 r))"
    unfolding r_def r0_def by code_simp
  have order: "ring_order r = [''a'', ''b'']" unfolding r_def r0_def by code_simp
  from ring_put_fifo [OF ok _ put] put order show ?thesis by blast
qed

text \<open>
  The comment on \<open>hashKey\<close> says that a hash collision still reads back correctly because the
  full key is compared.  It does not: the slots are told apart but the file is shared, so after two
  puts of colliding keys the first key is served the second one's body.
\<close>

theorem ring_collision_serves_other_body:
  "case newNVMERing (emptyDir []) 2 of Inl e \<Rightarrow> False | Inr r0 \<Rightarrow>
    (let h = (\<lambda>key. ''f''); r1 = snd (ring_put h ''a'' (1::nat) r0); r2 = snd (ring_put h ''b'' 2 r1)
     in fst (ring_get ''a'' r1) = Some 1 \<and> fst (ring_get ''a'' r2) = Some 2)"
  by code_simp

end
