(* ===== verification/Backend.thy ===== *)
theory Backend
  imports Storage
begin

text \<open>
  The object store as one client sees it.  Between two of its requests other clients may have done
  anything, and a request can be lost on its way out or its reply on the way back.  This schedule is
  part of the state: a list of events, one taken per request, each with what the others did since
  the last request (a function on the store) and the fate of the request.  An empty list is a store
  that nobody else uses and that always answers.
\<close>

datatype fate = Served | RequestLost | ReplyLost

datatype 'b event = Event (others: "'b MemStore \<Rightarrow> 'b MemStore") (outcome: fate)

record 'b Backend =
  bstore :: "'b MemStore"
  bevents :: "'b event list"

definition next_event :: "'b Backend \<Rightarrow> fate \<times> 'b Backend" where
  "next_event b = (case bevents b of
     [] \<Rightarrow> (Served, b)
   | Event f x # es \<Rightarrow> (x, \<lparr>bstore = f (bstore b), bevents = es\<rparr>))"

definition deliver ::
    "('b MemStore \<Rightarrow> (store_err + 'r) \<times> 'b MemStore) \<Rightarrow> 'b Backend \<Rightarrow> (store_err + 'r) \<times> 'b Backend" where
  "deliver op b = (case next_event b of
     (Served, b') \<Rightarrow> (let (r, m) = op (bstore b') in (r, b'\<lparr>bstore := m\<rparr>))
   | (RequestLost, b') \<Rightarrow> (Inl ErrOther, b')
   | (ReplyLost, b') \<Rightarrow> (let (r, m) = op (bstore b') in (Inl ErrOther, b'\<lparr>bstore := m\<rparr>)))"

definition Backend_Get :: "string \<Rightarrow> 'b Backend \<Rightarrow> (store_err + 'b \<times> string) \<times> 'b Backend" where
  "Backend_Get key = deliver (\<lambda>m. (MemStore_Get m key, m))"

definition Backend_PutCAS ::
    "string \<Rightarrow> 'b \<Rightarrow> string \<Rightarrow> 'b Backend \<Rightarrow> (store_err + string) \<times> 'b Backend" where
  "Backend_PutCAS key body etag = deliver (\<lambda>m. MemStore_PutCAS m key body etag)"

definition Backend_PutIfAbsent ::
    "string \<Rightarrow> 'b \<Rightarrow> 'b Backend \<Rightarrow> (store_err + string) \<times> 'b Backend" where
  "Backend_PutIfAbsent key body = deliver (\<lambda>m. MemStore_PutIfAbsent m key body)"

definition Backend_Put ::
    "string \<Rightarrow> 'b \<Rightarrow> 'b Backend \<Rightarrow> (store_err + string) \<times> 'b Backend" where
  "Backend_Put key body = deliver (\<lambda>m. MemStore_Put m key body)"

definition Backend_List :: "string \<Rightarrow> 'b Backend \<Rightarrow> (store_err + string list) \<times> 'b Backend" where
  "Backend_List pre = deliver (\<lambda>m. (Inr (MemStore_List m pre), m))"

text \<open>
  Reasoning about a request: a property of the store that every other client keeps (\<open>kept P b\<close>) and
  that the request itself keeps holds after the request, whatever its fate.
\<close>

definition kept :: "('b MemStore \<Rightarrow> bool) \<Rightarrow> 'b Backend \<Rightarrow> bool" where
  "kept P b \<longleftrightarrow> P (bstore b) \<and> (\<forall>ev \<in> set (bevents b). \<forall>m. P m \<longrightarrow> P (others ev m))"

lemma keptD: "kept P b \<Longrightarrow> P (bstore b)"
  by (simp add: kept_def)

lemma next_event_kept: "kept P b \<Longrightarrow> next_event b = (x, b') \<Longrightarrow> kept P b'"
  by (auto simp: kept_def next_event_def split: list.splits event.splits)

lemma deliver_cases:
  assumes "deliver op b = (r, b')"
  obtains (served) b0 m where "next_event b = (Served, b0)" "op (bstore b0) = (r, m)" "b' = b0\<lparr>bstore := m\<rparr>"
  | (lost) b0 where "next_event b = (RequestLost, b0)" "r = Inl ErrOther" "b' = b0"
  | (unanswered) b0 r' m where "next_event b = (ReplyLost, b0)" "r = Inl ErrOther"
      "op (bstore b0) = (r', m)" "b' = b0\<lparr>bstore := m\<rparr>"
proof (cases "next_event b")
  case (Pair x b0)
  obtain r0 m where m: "op (bstore b0) = (r0, m)" by (cases "op (bstore b0)")
  show ?thesis
  proof (cases x)
    case Served
    with assms Pair m have "r = r0" "b' = b0\<lparr>bstore := m\<rparr>" by (auto simp: deliver_def)
    with served Served Pair m show ?thesis by blast
  next
    case RequestLost
    with assms Pair have "r = Inl ErrOther" "b' = b0" by (auto simp: deliver_def)
    with lost RequestLost Pair show ?thesis by blast
  next
    case ReplyLost
    with assms Pair m have "r = Inl ErrOther" "b' = b0\<lparr>bstore := m\<rparr>" by (auto simp: deliver_def)
    with unanswered ReplyLost Pair m show ?thesis by blast
  qed
qed

lemma kept_update: "kept P b \<Longrightarrow> P m \<Longrightarrow> kept P (b\<lparr>bstore := m\<rparr>)"
  by (simp add: kept_def)

lemma deliver_kept:
  assumes "kept P b" "deliver op b = (r, b')" "\<And>m. P m \<Longrightarrow> P (snd (op m))"
  shows "kept P b'"
  using assms(2)
proof (cases rule: deliver_cases)
  case (served b0 m)
  with next_event_kept [OF assms(1)] have b0: "kept P b0" by blast
  from assms(3) [OF keptD [OF b0]] served(2) have "P m" by simp
  with b0 served(3) show ?thesis by (simp add: kept_update)
next
  case (lost b0)
  with next_event_kept [OF assms(1)] show ?thesis by blast
next
  case (unanswered b0 r' m)
  with next_event_kept [OF assms(1)] have b0: "kept P b0" by blast
  from assms(3) [OF keptD [OF b0]] unanswered(3) have "P m" by simp
  with b0 unanswered(4) show ?thesis by (simp add: kept_update)
qed

text \<open>A reply other than a lost one is that of the store at the moment of the request.\<close>

lemma deliver_result:
  assumes "kept P b" "deliver op b = (r, b')" "r \<noteq> Inl ErrOther"
  obtains m where "P m" "op m = (r, bstore b')"
  using assms(2)
proof (cases rule: deliver_cases)
  case (served b0 m)
  with next_event_kept [OF assms(1)] have "P (bstore b0)" by (blast dest: keptD)
  with served that show ?thesis by simp
qed (use assms(3) in auto)

abbreviation quiet :: "'b Backend \<Rightarrow> bool" where
  "quiet b \<equiv> bevents b = []"

lemma deliver_quiet:
  "quiet b \<Longrightarrow> deliver op b = (let (r, m) = op (bstore b) in (r, \<lparr>bstore = m, bevents = []\<rparr>))"
  by (cases b) (simp add: deliver_def next_event_def split: prod.splits)

lemma Backend_Get_quiet:
  "quiet b \<Longrightarrow> Backend_Get key b = (MemStore_Get (bstore b) key, b)"
  by (cases b) (simp add: Backend_Get_def deliver_quiet)

end
