(* ===== verification/Cache.thy ===== *)
theory Cache
  imports Backend Nvme GoFloat
begin

text \<open>
  The read cache of \<open>cache.go\<close>: \<open>Get\<close>, the conditional writes, \<open>Put\<close> and \<open>List\<close> go straight to the
  backend, \<open>GetCached\<close> looks into a bounded least-recently-used map, then into the optional ring on
  disk, then asks the backend and fills both.  The doubly linked list of the code is a list of
  elements with identities, front first, and \<open>byKey\<close> maps a key to the identity of its element.
\<close>

section \<open>State\<close>

record 'b Store =
  sBackend :: "'b Backend"
  sCapacity :: int
  sHash :: "string \<Rightarrow> string"
  sDisk :: "'b nvmeRing option"
  sByKey :: "(string, nat) gomap"
  sLru :: "(nat \<times> string \<times> 'b) list"
  sFresh :: nat
  sDramHits :: "64 word"
  sNvmeHits :: "64 word"
  sMisses :: "64 word"
  sEvictions :: "64 word"

record CacheStats =
  csHits :: "64 word"
  csDRAMHits :: "64 word"
  csNVMeHits :: "64 word"
  csMisses :: "64 word"
  csEvictions :: "64 word"

definition NewWithCapacity :: "(string \<Rightarrow> string) \<Rightarrow> 'b Backend \<Rightarrow> int \<Rightarrow> 'b Store" where
  "NewWithCapacity h be cap = \<lparr>sBackend = be, sCapacity = cap, sHash = h, sDisk = None,
     sByKey = [], sLru = [], sFresh = 0, sDramHits = 0, sNvmeHits = 0, sMisses = 0, sEvictions = 0\<rparr>"

definition Store_New :: "(string \<Rightarrow> string) \<Rightarrow> 'b Backend \<Rightarrow> 'b Store" where
  "Store_New h be = NewWithCapacity h be 0"

definition NewWithNVMe ::
    "(string \<Rightarrow> string) \<Rightarrow> 'b Backend \<Rightarrow> int \<Rightarrow> 'b ringDir \<Rightarrow> int \<Rightarrow> ring_err + 'b Store" where
  "NewWithNVMe h be dramCapacity dir nvmeSlots = (case newNVMERing dir nvmeSlots of
     Inl e \<Rightarrow> Inl e
   | Inr ring \<Rightarrow> Inr ((NewWithCapacity h be dramCapacity)\<lparr>sDisk := Some ring\<rparr>))"

section \<open>Statistics\<close>

definition of_uint64 :: "64 word \<Rightarrow> flt" where
  "of_uint64 w = fround F64 (of_int (uint w))"

definition HitRate :: "CacheStats \<Rightarrow> flt" where
  "HitRate c = (let total = csDRAMHits c + csNVMeHits c + csMisses c in
     if total = 0 then Fin 0
     else f_div (of_uint64 (csDRAMHits c + csNVMeHits c)) (of_uint64 total))"

definition Stats_Sub :: "CacheStats \<Rightarrow> CacheStats \<Rightarrow> CacheStats" where
  "Stats_Sub c earlier = \<lparr>csHits = csHits c - csHits earlier,
     csDRAMHits = csDRAMHits c - csDRAMHits earlier,
     csNVMeHits = csNVMeHits c - csNVMeHits earlier,
     csMisses = csMisses c - csMisses earlier,
     csEvictions = csEvictions c - csEvictions earlier\<rparr>"

definition Store_Stats :: "'b Store \<Rightarrow> CacheStats" where
  "Store_Stats s = \<lparr>csHits = sDramHits s, csDRAMHits = sDramHits s, csNVMeHits = sNvmeHits s,
     csMisses = sMisses s, csEvictions = sEvictions s\<rparr>"

section \<open>Pass-through requests\<close>

definition on_backend ::
    "('b Backend \<Rightarrow> 'r \<times> 'b Backend) \<Rightarrow> 'b Store \<Rightarrow> 'r \<times> 'b Store" where
  "on_backend op s = (let (r, be) = op (sBackend s) in (r, s\<lparr>sBackend := be\<rparr>))"

definition Store_Get :: "string \<Rightarrow> 'b Store \<Rightarrow> (store_err + 'b \<times> string) \<times> 'b Store" where
  "Store_Get key = on_backend (Backend_Get key)"

definition Store_PutCAS ::
    "string \<Rightarrow> 'b \<Rightarrow> string \<Rightarrow> 'b Store \<Rightarrow> (store_err + string) \<times> 'b Store" where
  "Store_PutCAS key body ifMatch = on_backend (Backend_PutCAS key body ifMatch)"

definition Store_PutIfAbsent ::
    "string \<Rightarrow> 'b \<Rightarrow> 'b Store \<Rightarrow> (store_err + string) \<times> 'b Store" where
  "Store_PutIfAbsent key body = on_backend (Backend_PutIfAbsent key body)"

definition Store_Put :: "string \<Rightarrow> 'b \<Rightarrow> 'b Store \<Rightarrow> (store_err + string) \<times> 'b Store" where
  "Store_Put key body = on_backend (Backend_Put key body)"

definition Store_List :: "string \<Rightarrow> 'b Store \<Rightarrow> (store_err + string list) \<times> 'b Store" where
  "Store_List pre = on_backend (Backend_List pre)"

section \<open>The cached read\<close>

definition MoveToFront :: "nat \<Rightarrow> (nat \<times> 'a) list \<Rightarrow> (nat \<times> 'a) list" where
  "MoveToFront el l = (case map_of l el of
     None \<Rightarrow> l
   | Some x \<Rightarrow> (el, x) # AList.delete el l)"

function evict_loop :: "'b Store \<Rightarrow> 'b Store" where
  "evict_loop s =
     (if 0 < sCapacity s \<and> sCapacity s < int (length (sLru s)) then
        (if sLru s = [] then s
         else let oldest = last (sLru s) in
           evict_loop (s\<lparr>sLru := butlast (sLru s),
             sByKey := AList.delete (fst (snd oldest)) (sByKey s),
             sEvictions := sEvictions s + 1\<rparr>))
      else s)"
  by pat_completeness auto
termination
  by (relation "measure (\<lambda>s. length (sLru s))") auto

declare evict_loop.simps [simp del]

definition insertLocked :: "string \<Rightarrow> 'b \<Rightarrow> 'b Store \<Rightarrow> 'b Store" where
  "insertLocked key body s = (case map_of (sByKey s) key of
     Some el \<Rightarrow> s\<lparr>sLru := MoveToFront el (AList.update el (key, body) (sLru s))\<rparr>
   | None \<Rightarrow> evict_loop (s\<lparr>sLru := (sFresh s, key, body) # sLru s,
       sByKey := AList.update key (sFresh s) (sByKey s), sFresh := sFresh s + 1\<rparr>))"

definition disk_get :: "string \<Rightarrow> 'b Store \<Rightarrow> 'b option \<times> 'b Store" where
  "disk_get key s = (case sDisk s of
     None \<Rightarrow> (None, s)
   | Some ring \<Rightarrow> (let (b, ring') = ring_get key ring in (b, s\<lparr>sDisk := Some ring'\<rparr>)))"

definition disk_put :: "string \<Rightarrow> 'b \<Rightarrow> 'b Store \<Rightarrow> 'b Store" where
  "disk_put key b s = (case sDisk s of
     None \<Rightarrow> s
   | Some ring \<Rightarrow> s\<lparr>sDisk := Some (snd (ring_put (sHash s) key b ring))\<rparr>)"

definition GetCached :: "string \<Rightarrow> 'b Store \<Rightarrow> (store_err + 'b) \<times> 'b Store" where
  "GetCached key s = (case map_of (sByKey s) key of
     Some el \<Rightarrow> (Inr (snd (the (map_of (sLru s) el))),
       s\<lparr>sLru := MoveToFront el (sLru s), sDramHits := sDramHits s + 1\<rparr>)
   | None \<Rightarrow>
     (case disk_get key s of
        (Some b, s) \<Rightarrow> (Inr b, insertLocked key b (s\<lparr>sNvmeHits := sNvmeHits s + 1\<rparr>))
      | (None, s) \<Rightarrow>
        (case Store_Get key (s\<lparr>sMisses := sMisses s + 1\<rparr>) of
           (Inl e, s) \<Rightarrow> (Inl e, s)
         | (Inr (b, etag), s) \<Rightarrow> (Inr b, insertLocked key b (disk_put key b s)))))"

section \<open>The list is a least-recently-used order\<close>

text \<open>
  \<open>lru_ok\<close>: identities are distinct and drawn from the counter, the key map points at the element
  of its key, and the list is within its capacity.  \<open>dram\<close> forgets the identities: the resident
  objects, the most recently used one first.  On them a read is \<open>lru_use\<close>.
\<close>

definition dram :: "'b Store \<Rightarrow> (string \<times> 'b) list" where
  "dram s = map snd (sLru s)"

definition lru_links :: "(string, nat) gomap \<Rightarrow> (nat \<times> string \<times> 'b) list \<Rightarrow> nat \<Rightarrow> bool" where
  "lru_links m l fresh \<longleftrightarrow> distinct (map fst l) \<and> (\<forall>e \<in> set l. fst e < fresh) \<and>
     (\<forall>k i. map_of m k = Some i \<longleftrightarrow> (\<exists>b. (i, k, b) \<in> set l))"

definition lru_ok :: "'b Store \<Rightarrow> bool" where
  "lru_ok s \<longleftrightarrow> lru_links (sByKey s) (sLru s) (sFresh s) \<and>
     (0 < sCapacity s \<longrightarrow> int (length (sLru s)) \<le> sCapacity s)"

definition lru_limit :: "int \<Rightarrow> 'a list \<Rightarrow> 'a list" where
  "lru_limit cap l = (if 0 < cap then take (nat cap) l else l)"

definition lru_use :: "int \<Rightarrow> string \<Rightarrow> 'b \<Rightarrow> (string \<times> 'b) list \<Rightarrow> (string \<times> 'b) list" where
  "lru_use cap k b l = lru_limit cap ((k, b) # AList.delete k l)"

lemma lru_linksD:
  assumes "lru_links m l n"
  shows "distinct (map fst l)" "e \<in> set l \<Longrightarrow> fst e < n"
    "map_of m k = Some i \<Longrightarrow> \<exists>b. (i, k, b) \<in> set l" "(i, k, b) \<in> set l \<Longrightarrow> map_of m k = Some i"
  using assms unfolding lru_links_def by blast+

lemma lru_links_same:
  assumes "lru_links m l n" "(i, k, b) \<in> set l" "(j, k', c) \<in> set l"
  shows "i = j \<longleftrightarrow> k = k'"
proof
  assume "i = j"
  with lru_linksD(1) [OF assms(1)] assms(2,3) show "k = k'"
    by (metis eq_key_imp_eq_value prod.inject)
next
  assume "k = k'"
  with lru_linksD(4) [OF assms(1)] assms(2,3) show "i = j" by (metis option.inject)
qed

lemma lru_links_delete:
  assumes "lru_links m l n" "(i, k, b) \<in> set l"
  shows "map snd (AList.delete i l) = AList.delete k (map snd l)"
proof -
  have "i \<noteq> fst e \<longleftrightarrow> k \<noteq> fst (snd e)" if "e \<in> set l" for e
    using lru_links_same [OF assms, of "fst e" "fst (snd e)" "snd (snd e)"] that by auto
  then have "filter (\<lambda>e. i \<noteq> fst e) l = filter (\<lambda>e. k \<noteq> fst (snd e)) l"
    by (intro filter_cong) auto
  then show ?thesis
    unfolding AList.delete_eq case_prod_unfold filter_map comp_def by simp
qed

lemma lru_links_map_of:
  assumes "lru_links m l n" "(i, k, b) \<in> set l"
  shows "map_of (map snd l) k = Some b"
proof -
  have "distinct (map fst (map snd l))"
  proof (rule distinct_map [THEN iffD2], intro conjI inj_onI)
    show "distinct (map snd l)"
      using lru_linksD(1) [OF assms(1)] lru_links_same [OF assms(1)]
      by (auto simp: distinct_map intro!: inj_onI)
    show "x = y" if xy: "x \<in> set (map snd l)" "y \<in> set (map snd l)" "fst x = fst y" for x y
    proof -
      obtain i1 i2 where e: "(i1, x) \<in> set l" "(i2, y) \<in> set l" using xy by auto
      then have "i1 = i2" using lru_links_same [OF assms(1)] xy(3) by (metis prod.collapse)
      with e lru_linksD(1) [OF assms(1)] show ?thesis by (metis eq_key_imp_eq_value)
    qed
  qed
  with assms(2) show ?thesis by (intro map_of_is_SomeI) force+
qed

lemma lru_links_absent:
  "lru_links m l n \<Longrightarrow> map_of m k = None \<Longrightarrow> map_of (map snd l) k = None"
proof (rule ccontr)
  assume l: "lru_links m l n" "map_of m k = None" and "map_of (map snd l) k \<noteq> None"
  then obtain b i where "(i, k, b) \<in> set l" by (auto dest!: map_of_SomeD)
  from lru_linksD(4) [OF l(1) this] l(2) show False by simp
qed

lemma lru_links_MoveToFront:
  assumes "lru_links m l n" "(i, k, b) \<in> set l"
  shows "lru_links m (MoveToFront i l) n"
    and "map snd (MoveToFront i l) = (k, b) # AList.delete k (map snd l)"
    and "length (MoveToFront i l) = length l"
proof -
  note d = lru_linksD(1) [OF assms(1)]
  have e: "MoveToFront i l = (i, k, b) # AList.delete i l"
    using assms(2) d by (simp add: MoveToFront_def)
  have set: "set (MoveToFront i l) = set l"
  proof
    show "set (MoveToFront i l) \<subseteq> set l" unfolding e using assms(2) by (auto simp: AList.delete_eq)
    show "set l \<subseteq> set (MoveToFront i l)"
    proof
      fix x assume x: "x \<in> set l"
      show "x \<in> set (MoveToFront i l)"
      proof (cases "fst x = i")
        case True
        with x assms(2) d have "x = (i, k, b)" by (metis eq_key_imp_eq_value prod.collapse)
        then show ?thesis by (simp add: e)
      next
        case False
        with x show ?thesis by (auto simp: e AList.delete_eq)
      qed
    qed
  qed
  have dist: "distinct (map fst (MoveToFront i l))"
    using d by (simp add: e AList.delete_keys distinct_removeAll)
  show "lru_links m (MoveToFront i l) n"
    using assms(1) dist unfolding lru_links_def set by blast
  show "map snd (MoveToFront i l) = (k, b) # AList.delete k (map snd l)"
    by (simp add: e lru_links_delete [OF assms])
  have "length (map fst (MoveToFront i l)) = card (set (map fst (MoveToFront i l)))"
    using dist by (metis distinct_card)
  also have "\<dots> = length (map fst l)" using d by (simp add: set distinct_card [symmetric] del: length_map)
  finally show "length (MoveToFront i l) = length l" by simp
qed

lemma lru_links_butlast:
  assumes "lru_links m l n" "l \<noteq> []"
  shows "lru_links (AList.delete (fst (snd (last l))) m) (butlast l) n"
proof -
  obtain i k b where last: "last l = (i, k, b)" by (cases "last l")
  obtain l' where l: "l = l' @ [(i, k, b)]" using assms(2) last by (metis append_butlast_last_id)
  have "k' \<noteq> k" if "(j, k', c) \<in> set l'" for j k' c
    using lru_links_same [OF assms(1), of j k' c i k b] that lru_linksD(1) [OF assms(1)]
    by (force simp: l)
  then show ?thesis
    using assms(1) unfolding lru_links_def l by (auto simp: last)
qed

lemma evict_loop_spec:
  assumes "lru_links (sByKey s) (sLru s) n"
  shows "lru_links (sByKey (evict_loop s)) (sLru (evict_loop s)) n \<and>
    sLru (evict_loop s) = lru_limit (sCapacity s) (sLru s)"
  using assms
proof (induction s rule: evict_loop.induct)
  case (1 s)
  show ?case
  proof (cases "0 < sCapacity s \<and> sCapacity s < int (length (sLru s))")
    case True
    then have ne: "sLru s \<noteq> []" by auto
    let ?s = "s\<lparr>sLru := butlast (sLru s), sByKey := AList.delete (fst (snd (last (sLru s)))) (sByKey s),
      sEvictions := sEvictions s + 1\<rparr>"
    have step: "evict_loop s = evict_loop ?s"
      using True ne by (simp add: evict_loop.simps [of s] Let_def)
    have "lru_links (sByKey ?s) (sLru ?s) n" using lru_links_butlast [OF "1.prems" ne] by simp
    note ih = "1.IH" [OF True ne refl this, simplified]
    have "lru_limit (sCapacity s) (butlast (sLru s)) = lru_limit (sCapacity s) (sLru s)"
      using True by (simp add: take_butlast lru_limit_def nat_less_iff)
    with ih show ?thesis unfolding step by metis
  next
    case False
    then have "evict_loop s = s" by (subst evict_loop.simps) (simp only: if_False)
    with False "1.prems" show ?thesis by (auto simp: lru_limit_def)
  qed
qed

lemma evict_loop_simps [simp]:
  "sBackend (evict_loop s) = sBackend s" "sCapacity (evict_loop s) = sCapacity s"
  "sHash (evict_loop s) = sHash s" "sDisk (evict_loop s) = sDisk s" "sFresh (evict_loop s) = sFresh s"
  "sDramHits (evict_loop s) = sDramHits s" "sNvmeHits (evict_loop s) = sNvmeHits s"
  "sMisses (evict_loop s) = sMisses s"
  by (induction s rule: evict_loop.induct; subst evict_loop.simps; simp add: Let_def)+

lemma alist_delete_update: "AList.delete k (AList.update k v l) = AList.delete k l"
  by (induction l) auto

lemma set_alist_update:
  "distinct (map fst l) \<Longrightarrow> set (AList.update k v l) = insert (k, v) {x \<in> set l. fst x \<noteq> k}"
  by (induction l) (auto simp: image_iff)

text \<open>Insertion on the links: an element already there moves, a new one may push others out.\<close>

lemma insertLocked_resident:
  assumes "lru_links (sByKey s) (sLru s) (sFresh s)" "map_of (sByKey s) key = Some el"
  shows "lru_links (sByKey s) (sLru (insertLocked key b s)) (sFresh s)"
    and "dram (insertLocked key b s) = (key, b) # AList.delete key (dram s)"
    and "length (sLru (insertLocked key b s)) = length (sLru s)"
    and "insertLocked key b s = s\<lparr>sLru := sLru (insertLocked key b s)\<rparr>"
proof -
  obtain b0 where e: "(el, key, b0) \<in> set (sLru s)" using lru_linksD(3) [OF assms] by blast
  let ?l = "AList.update el (key, b) (sLru s)"
  have keys: "map fst ?l = map fst (sLru s)"
    using e by (auto simp: AList.update_keys image_iff intro: rev_bexI)
  have d: "distinct (map fst (sLru s))" by (rule lru_linksD(1) [OF assms(1)])
  have set: "x \<in> set ?l \<longleftrightarrow> x = (el, key, b) \<or> (x \<in> set (sLru s) \<and> fst x \<noteq> el)" for x
    using set_alist_update [OF d, of el "(key, b)"] by auto
  have links: "lru_links (sByKey s) ?l (sFresh s)"
  proof -
    have "map_of (sByKey s) k = Some i \<longleftrightarrow> (\<exists>c. (i, k, c) \<in> set ?l)" for k i
    proof (cases "i = el")
      case True
      have "k = key" if k: "map_of (sByKey s) k = Some el"
      proof -
        obtain c where "(el, k, c) \<in> set (sLru s)" using lru_linksD(3) [OF assms(1) k] by blast
        from lru_links_same [OF assms(1) e this] show ?thesis by simp
      qed
      with True assms(2) show ?thesis by (auto simp: set)
    next
      case False
      then show ?thesis using assms(1) by (auto simp: set lru_links_def)
    qed
    moreover have "\<forall>x \<in> set ?l. fst x < sFresh s"
      using lru_linksD(2) [OF assms(1)] e by (fastforce simp: set)
    ultimately show ?thesis using d keys by (simp add: lru_links_def)
  qed
  have del: "AList.delete el ?l = AList.delete el (sLru s)"
    by (rule alist_delete_update)
  have in_l: "(el, key, b) \<in> set ?l" by (simp add: set)
  have ins: "insertLocked key b s = s\<lparr>sLru := MoveToFront el ?l\<rparr>"
    using assms(2) by (simp add: insertLocked_def)
  note mtf = lru_links_MoveToFront [OF links in_l]
  show "lru_links (sByKey s) (sLru (insertLocked key b s)) (sFresh s)" using mtf(1) by (simp add: ins)
  have "AList.delete key (map snd ?l) = AList.delete key (map snd (sLru s))"
    using lru_links_delete [OF links in_l] lru_links_delete [OF assms(1) e] del by simp
  then show "dram (insertLocked key b s) = (key, b) # AList.delete key (dram s)"
    using mtf(2) by (simp add: ins dram_def)
  have "length ?l = length (sLru s)" using keys by (metis length_map)
  then show "length (sLru (insertLocked key b s)) = length (sLru s)" using mtf(3) by (simp add: ins)
  show "insertLocked key b s = s\<lparr>sLru := sLru (insertLocked key b s)\<rparr>" by (simp add: ins)
qed

lemma insertLocked_new:
  assumes "lru_links (sByKey s) (sLru s) (sFresh s)" "map_of (sByKey s) key = None"
  shows "lru_links (sByKey (insertLocked key b s)) (sLru (insertLocked key b s)) (sFresh s + 1)"
    and "sLru (insertLocked key b s) = lru_limit (sCapacity s) ((sFresh s, key, b) # sLru s)"
    and "sFresh (insertLocked key b s) = sFresh s + 1"
proof -
  let ?s = "s\<lparr>sLru := (sFresh s, key, b) # sLru s,
     sByKey := AList.update key (sFresh s) (sByKey s), sFresh := sFresh s + 1\<rparr>"
  have "(i, key, c) \<notin> set (sLru s)" for i c using lru_linksD(4) [OF assms(1)] assms(2) by fastforce
  moreover have "(sFresh s, k, c) \<notin> set (sLru s)" for k c using lru_linksD(2) [OF assms(1)] by fastforce
  ultimately have links: "lru_links (sByKey ?s) (sLru ?s) (sFresh s + 1)"
    using assms(1) unfolding lru_links_def by (auto simp: less_Suc_eq)
  have ins: "insertLocked key b s = evict_loop ?s" using assms(2) by (simp add: insertLocked_def)
  show "lru_links (sByKey (insertLocked key b s)) (sLru (insertLocked key b s)) (sFresh s + 1)"
    using evict_loop_spec [OF links] unfolding ins by blast
  show "sLru (insertLocked key b s) = lru_limit (sCapacity s) ((sFresh s, key, b) # sLru s)"
    using evict_loop_spec [OF links] unfolding ins by simp
  show "sFresh (insertLocked key b s) = sFresh s + 1" by (simp add: ins)
qed

lemma insertLocked_simps [simp]:
  "sBackend (insertLocked key b s) = sBackend s" "sCapacity (insertLocked key b s) = sCapacity s"
  "sHash (insertLocked key b s) = sHash s" "sDisk (insertLocked key b s) = sDisk s"
  "sDramHits (insertLocked key b s) = sDramHits s" "sNvmeHits (insertLocked key b s) = sNvmeHits s"
  "sMisses (insertLocked key b s) = sMisses s"
  by (simp_all add: insertLocked_def split: option.split)

lemma lru_limit_map: "map f (lru_limit c l) = lru_limit c (map f l)"
  by (simp add: lru_limit_def take_map)

lemma lru_limit_length: "0 < c \<Longrightarrow> int (length (lru_limit c l)) \<le> c"
  by (simp add: lru_limit_def)

lemma lru_limit_id: "(0 < c \<Longrightarrow> int (length l) \<le> c) \<Longrightarrow> lru_limit c l = l"
  by (simp add: lru_limit_def le_nat_iff)

lemma insertLocked_use:
  assumes "lru_ok s"
  shows "lru_ok (insertLocked key b s) \<and> dram (insertLocked key b s) = lru_use (sCapacity s) key b (dram s)"
proof (cases "map_of (sByKey s) key")
  case None
  have links: "lru_links (sByKey s) (sLru s) (sFresh s)" using assms by (simp add: lru_ok_def)
  note new = insertLocked_new [OF links None, of b]
  have "AList.delete key (dram s) = dram s"
    using lru_links_absent [OF links None] by (simp add: AList.delete_idem dram_def map_of_eq_None_iff)
  then show ?thesis
    using new by (simp add: lru_ok_def dram_def lru_limit_map lru_use_def lru_limit_length)
next
  case (Some el)
  have links: "lru_links (sByKey s) (sLru s) (sFresh s)" using assms by (simp add: lru_ok_def)
  note res = insertLocked_resident [OF links Some, of b]
  have "lru_ok (s\<lparr>sLru := sLru (insertLocked key b s)\<rparr>)"
    using assms res(1,3) by (simp add: lru_ok_def)
  moreover have "length (dram (insertLocked key b s)) = length (sLru s)"
    using res(3) by (simp add: dram_def)
  ultimately show ?thesis
    using res(2,4) assms by (simp add: lru_use_def lru_ok_def lru_limit_id)
qed

section \<open>What a cached read does\<close>

lemma disk_get_simps [simp]:
  "sBackend (snd (disk_get k s)) = sBackend s" "sCapacity (snd (disk_get k s)) = sCapacity s"
  "sHash (snd (disk_get k s)) = sHash s" "sByKey (snd (disk_get k s)) = sByKey s"
  "sLru (snd (disk_get k s)) = sLru s" "sFresh (snd (disk_get k s)) = sFresh s"
  "sDramHits (snd (disk_get k s)) = sDramHits s" "sNvmeHits (snd (disk_get k s)) = sNvmeHits s"
  "sMisses (snd (disk_get k s)) = sMisses s"
  by (simp_all add: disk_get_def split: option.split prod.split)

lemma disk_put_simps [simp]:
  "sBackend (disk_put k b s) = sBackend s" "sCapacity (disk_put k b s) = sCapacity s"
  "sHash (disk_put k b s) = sHash s" "sByKey (disk_put k b s) = sByKey s"
  "sLru (disk_put k b s) = sLru s" "sFresh (disk_put k b s) = sFresh s"
  "sDramHits (disk_put k b s) = sDramHits s" "sNvmeHits (disk_put k b s) = sNvmeHits s"
  "sMisses (disk_put k b s) = sMisses s"
  by (simp_all add: disk_put_def split: option.split)

lemma Store_Get_simps:
  assumes "Store_Get key s = (r, s')"
  shows "s' = s\<lparr>sBackend := sBackend s'\<rparr>" "Backend_Get key (sBackend s) = (r, sBackend s')"
  using assms by (auto simp: Store_Get_def on_backend_def split: prod.splits)

text \<open>The four ways through \<open>GetCached\<close>.\<close>

lemma GetCached_cases:
  assumes "GetCached key s = (r, s')"
  obtains (dram_hit) el where "map_of (sByKey s) key = Some el"
      "r = Inr (snd (the (map_of (sLru s) el)))"
      "s' = s\<lparr>sLru := MoveToFront el (sLru s), sDramHits := sDramHits s + 1\<rparr>"
  | (nvme_hit) b s1 where "map_of (sByKey s) key = None" "disk_get key s = (Some b, s1)" "r = Inr b"
      "s' = insertLocked key b (s1\<lparr>sNvmeHits := sNvmeHits s1 + 1\<rparr>)"
  | (cold) b e s1 s2 where "map_of (sByKey s) key = None" "disk_get key s = (None, s1)"
      "Store_Get key (s1\<lparr>sMisses := sMisses s1 + 1\<rparr>) = (Inr (b, e), s2)" "r = Inr b"
      "s' = insertLocked key b (disk_put key b s2)"
  | (failed) e s1 where "map_of (sByKey s) key = None" "disk_get key s = (None, s1)"
      "Store_Get key (s1\<lparr>sMisses := sMisses s1 + 1\<rparr>) = (Inl e, s')" "r = Inl e"
proof (cases "map_of (sByKey s) key")
  case None
  obtain d s1 where d: "disk_get key s = (d, s1)" by (cases "disk_get key s")
  obtain r1 s2 where s2: "Store_Get key (s1\<lparr>sMisses := sMisses s1 + 1\<rparr>) = (r1, s2)"
    by (cases "Store_Get key (s1\<lparr>sMisses := sMisses s1 + 1\<rparr>)")
  show ?thesis
  proof (cases d)
    case (Some b)
    with assms None d have "r = Inr b" "s' = insertLocked key b (s1\<lparr>sNvmeHits := sNvmeHits s1 + 1\<rparr>)"
      by (auto simp: GetCached_def)
    with nvme_hit None d Some show ?thesis by blast
  next
    case d0: None
    show ?thesis
    proof (cases r1)
      case (Inl e)
      with assms None d d0 s2 have "r = Inl e" "s' = s2" by (auto simp: GetCached_def)
      with failed None d d0 s2 Inl show ?thesis by blast
    next
      case (Inr be)
      obtain b e where be: "be = (b, e)" by (cases be)
      with assms None d d0 s2 Inr have "r = Inr b" "s' = insertLocked key b (disk_put key b s2)"
        by (auto simp: GetCached_def)
      with cold None d d0 s2 Inr be show ?thesis by blast
    qed
  qed
next
  case (Some el)
  with assms have "r = Inr (snd (the (map_of (sLru s) el)))"
    "s' = s\<lparr>sLru := MoveToFront el (sLru s), sDramHits := sDramHits s + 1\<rparr>"
    by (auto simp: GetCached_def)
  with dram_hit Some show ?thesis by blast
qed

lemma lru_ok_cong:
  "sByKey s' = sByKey s \<Longrightarrow> sLru s' = sLru s \<Longrightarrow> sFresh s' = sFresh s \<Longrightarrow> sCapacity s' = sCapacity s \<Longrightarrow>
   lru_ok s' = lru_ok s"
  by (simp add: lru_ok_def)

lemma disk_get_snd: "disk_get k s = (d, s1) \<Longrightarrow> s1 = snd (disk_get k s)"
  by simp

lemma cold_fields:
  assumes "disk_get key s = (None, s1)" "Store_Get key (s1\<lparr>sMisses := sMisses s1 + 1\<rparr>) = (r, s2)"
  shows "sByKey s2 = sByKey s" "sLru s2 = sLru s" "sFresh s2 = sFresh s" "sCapacity s2 = sCapacity s"
    "sHash s2 = sHash s" "sDisk s2 = sDisk s1" "sDramHits s2 = sDramHits s" "sNvmeHits s2 = sNvmeHits s"
    "sMisses s2 = sMisses s + 1" "Backend_Get key (sBackend s) = (r, sBackend s2)"
proof -
  note s1 = disk_get_snd [OF assms(1)]
  note g = Store_Get_simps [OF assms(2)]
  show "sByKey s2 = sByKey s" "sLru s2 = sLru s" "sFresh s2 = sFresh s" "sCapacity s2 = sCapacity s"
    "sHash s2 = sHash s" "sDisk s2 = sDisk s1" "sDramHits s2 = sDramHits s" "sNvmeHits s2 = sNvmeHits s"
    "sMisses s2 = sMisses s + 1"
    by (subst g(1), simp add: s1)+
  show "Backend_Get key (sBackend s) = (r, sBackend s2)" using g(2) by (simp add: s1)
qed

lemma GetCached_lru:
  assumes "lru_ok s" "GetCached key s = (r, s')"
  shows "lru_ok s' \<and> sCapacity s' = sCapacity s \<and> dram s' = (case r of
      Inr b \<Rightarrow> lru_use (sCapacity s) key b (dram s)
    | Inl _ \<Rightarrow> dram s) \<and> (\<forall>b. map_of (dram s) key = Some b \<longrightarrow> r = Inr b)"
  using assms(2)
proof (cases rule: GetCached_cases)
  case (dram_hit el)
  have links: "lru_links (sByKey s) (sLru s) (sFresh s)" using assms(1) by (simp add: lru_ok_def)
  obtain b where e: "(el, key, b) \<in> set (sLru s)" using lru_linksD(3) [OF links dram_hit(1)] by blast
  have b: "snd (the (map_of (sLru s) el)) = b"
    using e lru_linksD(1) [OF links] by simp
  note mtf = lru_links_MoveToFront [OF links e]
  have "length (map snd (MoveToFront el (sLru s))) = length (sLru s)" using mtf(3) by simp
  then have "lru_limit (sCapacity s) (map snd (MoveToFront el (sLru s))) = map snd (MoveToFront el (sLru s))"
    using assms(1) by (intro lru_limit_id) (simp add: lru_ok_def)
  then show ?thesis
    using dram_hit b mtf assms(1) lru_links_map_of [OF links e]
    by (simp add: lru_ok_def dram_def lru_use_def)
next
  case (nvme_hit b s1)
  let ?s = "s1\<lparr>sNvmeHits := sNvmeHits s1 + 1\<rparr>"
  have s1: "lru_ok ?s" "dram ?s = dram s" "sCapacity ?s = sCapacity s"
    using assms(1) disk_get_snd [OF nvme_hit(2)] lru_ok_cong [of ?s s] by (simp_all add: dram_def)
  have "map_of (dram s) key = None"
    using nvme_hit(1) assms(1) lru_links_absent by (auto simp: dram_def lru_ok_def)
  with insertLocked_use [OF s1(1), of key b] s1 nvme_hit(3,4) show ?thesis by simp
next
  case (cold b e s1 s2)
  note f = cold_fields [OF cold(2,3)]
  have s2: "lru_ok (disk_put key b s2)" "dram (disk_put key b s2) = dram s"
    "sCapacity (disk_put key b s2) = sCapacity s"
    using assms(1) f lru_ok_cong [of "disk_put key b s2" s] by (simp_all add: dram_def)
  have "map_of (dram s) key = None"
    using cold(1) assms(1) lru_links_absent by (auto simp: dram_def lru_ok_def)
  with insertLocked_use [OF s2(1), of key b] s2 cold(4,5) show ?thesis by simp
next
  case (failed e s1)
  note f = cold_fields [OF failed(2,3)]
  have "map_of (dram s) key = None"
    using failed(1) assms(1) lru_links_absent by (auto simp: dram_def lru_ok_def)
  then show ?thesis
    using assms(1) f lru_ok_cong [of s' s] failed(4) by (simp add: dram_def)
qed

text \<open>Each call counts in exactly one tier, and only a miss goes to the backend.\<close>

lemma GetCached_counts:
  assumes "GetCached key s = (r, s')"
  shows "(sDramHits s', sNvmeHits s', sMisses s') \<in>
      {(sDramHits s + 1, sNvmeHits s, sMisses s), (sDramHits s, sNvmeHits s + 1, sMisses s),
       (sDramHits s, sNvmeHits s, sMisses s + 1)} \<and>
    (sMisses s' = sMisses s \<longrightarrow> sBackend s' = sBackend s)"
  using assms
proof (cases rule: GetCached_cases)
  case (nvme_hit b s1)
  have "sDramHits s1 = sDramHits s" "sNvmeHits s1 = sNvmeHits s" "sMisses s1 = sMisses s"
    "sBackend s1 = sBackend s"
    using disk_get_simps [where k = key and s = s] nvme_hit(2) by simp_all
  with nvme_hit(4) show ?thesis by simp
next
  case (cold b e s1 s2)
  with cold_fields [OF cold(2,3)] show ?thesis by simp
next
  case (failed e s1)
  with cold_fields [OF failed(2,3)] show ?thesis by simp
qed simp

text \<open>
  \<open>serves K T m\<close>: for the keys \<open>K\<close>, the immutable ones, the store has no other body than \<open>T\<close>'s.
  \<open>cache_inv\<close> says so of all three tiers, and that other clients keep it so in the backend.
\<close>

definition serves :: "string set \<Rightarrow> (string \<Rightarrow> 'b option) \<Rightarrow> 'b MemStore \<Rightarrow> bool" where
  "serves K T m \<longleftrightarrow> (\<forall>k \<in> K. \<forall>b e. MemStore_Get m k = Inr (b, e) \<longrightarrow> T k = Some b)"

definition cache_inv :: "string set \<Rightarrow> (string \<Rightarrow> 'b option) \<Rightarrow> 'b Store \<Rightarrow> bool" where
  "cache_inv K T s \<longleftrightarrow> lru_ok s \<and> kept (serves K T) (sBackend s) \<and>
     (\<forall>k \<in> K. \<forall>b. map_of (dram s) k = Some b \<longrightarrow> T k = Some b) \<and>
     (\<forall>ring. sDisk s = Some ring \<longrightarrow> ring_inv (sHash s) K T ring \<and> inj_on (sHash s) K)"

lemma map_of_take: "map_of (take n xs) x = Some y \<Longrightarrow> map_of xs x = Some y"
  by (metis append_take_drop_id map_add_find_right map_of_append)

lemma lru_use_lookup:
  assumes "map_of (lru_use c k b l) k' = Some b'"
  shows "(k' = k \<and> b' = b) \<or> (k' \<noteq> k \<and> map_of l k' = Some b')"
proof -
  have "map_of ((k, b) # AList.delete k l) k' = Some b'"
  proof (cases "0 < c")
    case True
    have "map_of (take (nat c) ((k, b) # AList.delete k l)) k' = Some b'"
      using assms True by (simp only: lru_use_def lru_limit_def if_True)
    then show ?thesis by (rule map_of_take)
  next
    case False
    then show ?thesis using assms by (simp only: lru_use_def lru_limit_def if_False)
  qed
  then show ?thesis by (auto split: if_splits)
qed

lemma GetCached_serves:
  assumes "cache_inv K T s" "key \<in> K" "key \<noteq> []" "GetCached key s = (r, s')"
  shows "(\<forall>b. r = Inr b \<longrightarrow> T key = Some b) \<and> cache_inv K T s'"
proof -
  have ok: "lru_ok s" and be: "kept (serves K T) (sBackend s)"
    and dram: "\<And>k b. k \<in> K \<Longrightarrow> map_of (dram s) k = Some b \<Longrightarrow> T k = Some b"
    and disk: "\<And>ring. sDisk s = Some ring \<Longrightarrow> ring_inv (sHash s) K T ring \<and> inj_on (sHash s) K"
    using assms(1) by (auto simp: cache_inv_def)
  note lru = GetCached_lru [OF ok assms(4)]
  have dget: "(\<forall>b. d = Some b \<longrightarrow> T key = Some b) \<and> sHash s1 = sHash s \<and>
      (\<forall>ring. sDisk s1 = Some ring \<longrightarrow> ring_inv (sHash s) K T ring \<and> inj_on (sHash s) K)"
    if "disk_get key s = (d, s1)" for d s1
  proof (cases "sDisk s")
    case None
    with that show ?thesis by (auto simp: disk_get_def)
  next
    case (Some ring)
    with that have s1: "d = fst (ring_get key ring)" "s1 = s\<lparr>sDisk := Some (snd (ring_get key ring))\<rparr>"
      by (auto simp: disk_get_def split: prod.splits)
    from disk [OF Some] have inv: "ring_inv (sHash s) K T ring" "inj_on (sHash s) K" by auto
    have "ring_inv (sHash s) K T (snd (ring_get key ring))"
      by (rule ring_step_inv [OF inv, of "RGet key"]) auto
    with s1 inv ring_get_serves [of "sHash s" ring K T key] assms(2) show ?thesis
      by (simp add: ring_inv_def)
  qed
  have main: "(\<forall>b. r = Inr b \<longrightarrow> T key = Some b) \<and> kept (serves K T) (sBackend s') \<and> sHash s' = sHash s \<and>
    (\<forall>ring. sDisk s' = Some ring \<longrightarrow> ring_inv (sHash s) K T ring \<and> inj_on (sHash s) K)"
    using assms(4)
  proof (cases rule: GetCached_cases)
    case (dram_hit el)
    have "lru_links (sByKey s) (sLru s) (sFresh s)" using ok by (simp add: lru_ok_def)
    with dram_hit obtain b where b: "(el, key, b) \<in> set (sLru s)" by (blast dest: lru_linksD)
    with \<open>lru_links _ _ _\<close> have "map_of (dram s) key = Some b"
      unfolding dram_def by (rule lru_links_map_of)
    with lru dram [OF assms(2)] have rb: "r = Inr b" "T key = Some b" by blast+
    have "sBackend s' = sBackend s" "sDisk s' = sDisk s" "sHash s' = sHash s"
      unfolding dram_hit(3) by simp_all
    with rb be disk show ?thesis by simp
  next
    case (nvme_hit b s1)
    have "sBackend s' = sBackend s" "sDisk s' = sDisk s1" "sHash s' = sHash s"
      using disk_get_simps [where k = key and s = s] nvme_hit(2,4) by simp_all
    with dget [OF nvme_hit(2)] be nvme_hit(3) show ?thesis by simp
  next
    case (failed e s1)
    note f = cold_fields [OF failed(2,3)]
    have "kept (serves K T) (sBackend s')"
      using deliver_kept [OF be f(10) [unfolded Backend_Get_def]] by simp
    with f dget [OF failed(2)] failed(4) show ?thesis by simp
  next
    case (cold b e s1 s2)
    note f = cold_fields [OF cold(2,3)]
    have k2: "kept (serves K T) (sBackend s2)"
      using deliver_kept [OF be f(10) [unfolded Backend_Get_def]] by simp
    obtain m where "serves K T m" "MemStore_Get m key = Inr (b, e)"
      using deliver_result [OF be f(10) [unfolded Backend_Get_def]] by auto
    with assms(2) have b: "T key = Some b" by (auto simp: serves_def)
    have "ring_inv (sHash s) K T ring \<and> inj_on (sHash s) K" if "sDisk s' = Some ring" for ring
    proof -
      from that cold(5) f(6) obtain ring0 where r0: "sDisk s1 = Some ring0"
          "ring = snd (ring_put (sHash s2) key b ring0)"
        by (auto simp: disk_put_def split: option.splits)
      with dget [OF cold(2)] have inv: "ring_inv (sHash s) K T ring0" "inj_on (sHash s) K" by auto
      have "ring_inv (sHash s) K T (snd (ring_put (sHash s) key b ring0))"
        by (rule ring_step_inv [OF inv, of "RPut key b"]) (use assms(2,3) b in auto)
      with r0 f(5) inv show ?thesis by simp
    qed
    with b k2 cold(4,5) f(5) show ?thesis by simp
  qed
  have "T k = Some b" if "k \<in> K" "map_of (dram s') k = Some b" for k b
    using that lru main dram [OF that(1)] by (auto split: sum.splits dest: lru_use_lookup)
  with main lru show ?thesis by (simp add: cache_inv_def)
qed

section \<open>Properties\<close>

text \<open>
  C30.  A cached read on the resident objects: what is resident is what is returned, whatever is
  returned becomes the most recently used object, the least recently used ones beyond the capacity
  go, and a failed read changes nothing.  Exactly one of the three tiers counts the call, and the
  backend is only used when the miss counter moves.
\<close>

theorem GetCached_is_lru:
  assumes "lru_ok s" and "GetCached key s = (r, s')"
  shows "lru_ok s' \<and>
    dram s' = (case r of Inr b \<Rightarrow> lru_use (sCapacity s) key b (dram s) | Inl _ \<Rightarrow> dram s) \<and>
    (\<forall>b. map_of (dram s) key = Some b \<longrightarrow> r = Inr b) \<and>
    csDRAMHits (Stats_Sub (Store_Stats s') (Store_Stats s)) +
      csNVMeHits (Stats_Sub (Store_Stats s') (Store_Stats s)) +
      csMisses (Stats_Sub (Store_Stats s') (Store_Stats s)) = 1 \<and>
    (sMisses s' = sMisses s \<longrightarrow> sBackend s' = sBackend s)"
  using GetCached_lru [OF assms] GetCached_counts [OF assms(2)]
  by (auto simp: Stats_Sub_def Store_Stats_def)

definition demo_store :: "nat Store" where
  "demo_store = NewWithCapacity (\<lambda>k. k)
     \<lparr>bstore = snd (MemStore_Put (snd (MemStore_Put MemStore_New ''a'' 1)) ''b'' 2), bevents = []\<rparr> 1"

lemma lru_ok_New [simp]: "lru_ok (NewWithCapacity h be cap)"
  by (simp add: lru_ok_def lru_links_def NewWithCapacity_def)

theorem GetCached_is_lru_witness:
  "\<exists>s r s'. s = snd (GetCached ''a'' demo_store) \<and> dram s = [(''a'', 1)] \<and>
    GetCached ''b'' s = (r, s') \<and> r = Inr 2 \<and> lru_ok s' \<and>
    dram s' = (case r of Inr b \<Rightarrow> lru_use (sCapacity s) ''b'' b (dram s) | Inl _ \<Rightarrow> dram s)"
proof -
  let ?s = "snd (GetCached ''a'' demo_store)"
  have a: "lru_ok demo_store" by (simp add: demo_store_def)
  have s: "lru_ok ?s" using GetCached_lru [OF a, of "''a''"] by (cases "GetCached ''a'' demo_store") auto
  have "fst (GetCached ''b'' ?s) = Inr 2" "dram ?s = [(''a'', 1)]" by code_simp+
  then have b: "GetCached ''b'' ?s = (Inr 2, snd (GetCached ''b'' ?s))" "dram ?s = [(''a'', 1)]"
    by (simp_all add: prod_eq_iff)
  from GetCached_is_lru [OF s b(1)] b show ?thesis by blast
qed



end
