(* ===== verification/Keys.thy ===== *)
theory Keys
  imports Prelude
begin

text \<open>
  The object keys: \<open>manifestKey\<close> of \<open>manifest.go\<close>, \<open>walKey\<close> of \<open>wal.go\<close>, the index keys of \<open>indexer.go\<close>
  and \<open>queueKey\<close> of \<open>queue.go\<close>.  A namespace name is any string, slashes included.  The lemmas say
  that a key names one object of one namespace, and that WAL keys sort in sequence order.
\<close>

definition manifestKey :: "string \<Rightarrow> string" where
  "manifestKey ns = ns @ ''/manifest.json''"

definition walKey :: "string \<Rightarrow> int \<Rightarrow> string" where
  "walKey ns seq = ns @ ''/wal/'' @ pad020 seq @ ''.json''"

definition indexPrefix :: "string \<Rightarrow> int \<Rightarrow> string" where
  "indexPrefix ns epoch = ns @ ''/index/v'' @ FormatInt epoch @ ''/''"

definition centroidsKey :: "string \<Rightarrow> int \<Rightarrow> string" where
  "centroidsKey ns epoch = indexPrefix ns epoch @ ''centroids.json''"

definition clusterKey :: "string \<Rightarrow> int \<Rightarrow> int \<Rightarrow> string" where
  "clusterKey ns epoch cluster = indexPrefix ns epoch @ ''cluster-'' @ FormatInt cluster @ ''.json''"

definition bm25Key :: "string \<Rightarrow> int \<Rightarrow> string" where
  "bm25Key ns epoch = indexPrefix ns epoch @ ''bm25.json''"

definition docsKey :: "string \<Rightarrow> int \<Rightarrow> string" where
  "docsKey ns epoch = indexPrefix ns epoch @ ''docs.json''"

definition attrsKey :: "string \<Rightarrow> int \<Rightarrow> string" where
  "attrsKey ns epoch = indexPrefix ns epoch @ ''bitmaps.json''"

definition queueKey :: string where
  "queueKey = ''_queue/queue.json''"

section \<open>A number at the end of a string\<close>

lemma nat_str_is_digits: "list_all is_digit (nat_str n)"
  by (auto simp: list_all_iff dest: nat_str_digits)

lemma pad020_is_digits: "0 \<le> z \<Longrightarrow> list_all is_digit (pad020 z)"
  by (auto simp: list_all_iff dest: pad020_digits)

lemma FormatInt_nonneg: "0 \<le> z \<Longrightarrow> FormatInt z = nat_str (nat z)"
  by (simp add: FormatInt_def)

lemma takeWhile_digits:
  "list_all is_digit ds \<Longrightarrow> \<not> is_digit c \<Longrightarrow> takeWhile is_digit (ds @ c # xs) = ds"
  by (induction ds) auto

text \<open>The last non-digit splits a string in one way only.\<close>

lemma digits_tail_eq:
  assumes "xs @ c # ds = ys @ c' # ds'" "list_all is_digit ds" "list_all is_digit ds'"
    "\<not> is_digit c" "\<not> is_digit c'"
  shows "xs = ys \<and> c = c' \<and> ds = ds'"
proof -
  have "rev ds @ c # rev xs = rev ds' @ c' # rev ys" using arg_cong [OF assms(1), of rev] by simp
  moreover have "takeWhile is_digit (rev ds @ c # rev xs) = rev ds"
    "takeWhile is_digit (rev ds' @ c' # rev ys) = rev ds'"
    using assms(2-5) by (auto intro!: takeWhile_digits simp: list_all_iff)
  ultimately have "rev ds = rev ds'" by simp
  with assms(1) show ?thesis by simp
qed

lemma is_digit_simps [simp]:
  "\<not> is_digit (CHR ''/'')" "\<not> is_digit (CHR ''v'')" "\<not> is_digit (CHR ''-'')" "\<not> is_digit (CHR ''m'')"
  "\<not> is_digit (CHR ''t'')" "\<not> is_digit (CHR ''s'')" "\<not> is_digit (CHR ''e'')"
  by (simp_all add: is_digit_def)

lemma pad020_nonempty [simp]: "pad020 z \<noteq> []"
  by (auto simp: pad020_def)

section \<open>One key, one object\<close>

lemma manifestKey_inject [simp]: "manifestKey a = manifestKey b \<longleftrightarrow> a = b"
  by (simp add: manifestKey_def)

lemma walKey_inject:
  assumes "0 \<le> i" "0 \<le> j"
  shows "walKey a i = walKey b j \<longleftrightarrow> a = b \<and> i = j"
proof
  assume "walKey a i = walKey b j"
  then have "(a @ ''/wal'') @ CHR ''/'' # pad020 i = (b @ ''/wal'') @ CHR ''/'' # pad020 j"
    by (simp add: walKey_def)
  from digits_tail_eq [OF this] assms show "a = b \<and> i = j"
    by (auto simp: pad020_is_digits pad020_inject)
qed simp

text \<open>A key that ends in digits before \<open>.json\<close> is not one that ends in a letter there.\<close>

lemma digit_end:
  assumes "list_all is_digit ds" "ds \<noteq> []" "\<not> is_digit c"
  shows "xs @ ds @ ''.json'' \<noteq> ys @ [c] @ ''.json''"
proof
  assume "xs @ ds @ ''.json'' = ys @ [c] @ ''.json''"
  then have "xs @ ds = ys @ [c]" by simp
  then have "last ds = c" using assms(2) by (metis last_append last_snoc)
  with assms show False by (metis last_in_set list_all_iff)
qed

lemma manifest_not_wal [simp]:
  assumes "0 \<le> i"
  shows "manifestKey a \<noteq> walKey b i" "walKey b i \<noteq> manifestKey a"
  using digit_end [of "pad020 i" "CHR ''t''" "b @ ''/wal/''" "a @ ''/manifes''"] assms
  by (auto simp: manifestKey_def walKey_def pad020_is_digits)

lemma queue_not_manifest [simp]: "queueKey \<noteq> manifestKey a" "manifestKey a \<noteq> queueKey"
proof -
  show "manifestKey a \<noteq> queueKey"
  proof
    assume "manifestKey a = queueKey"
    from arg_cong [OF this, of rev] show False by (simp add: manifestKey_def queueKey_def)
  qed
  then show "queueKey \<noteq> manifestKey a" by metis
qed

lemma queue_not_wal [simp]:
  assumes "0 \<le> i"
  shows "queueKey \<noteq> walKey a i" "walKey a i \<noteq> queueKey"
  using digit_end [of "pad020 i" "CHR ''e''" "a @ ''/wal/''" "''_queue/queu''"] assms
  by (auto simp: queueKey_def walKey_def pad020_is_digits)

section \<open>Index objects\<close>

datatype index_obj = OCentroids | OCluster int | OBM25 | ODocs | OAttrs

fun indexKey :: "string \<Rightarrow> int \<Rightarrow> index_obj \<Rightarrow> string" where
  "indexKey ns e OCentroids = centroidsKey ns e"
| "indexKey ns e (OCluster c) = clusterKey ns e c"
| "indexKey ns e OBM25 = bm25Key ns e"
| "indexKey ns e ODocs = docsKey ns e"
| "indexKey ns e OAttrs = attrsKey ns e"

lemmas index_key_defs [model_defs] =
  centroidsKey_def clusterKey_def bm25Key_def docsKey_def attrsKey_def indexPrefix_def

text \<open>The part of an index key after the prefix has no slash, so the last slash ends the prefix.\<close>

fun index_base :: "index_obj \<Rightarrow> string" where
  "index_base OCentroids = ''centroids.json''"
| "index_base (OCluster c) = ''cluster-'' @ FormatInt c @ ''.json''"
| "index_base OBM25 = ''bm25.json''"
| "index_base ODocs = ''docs.json''"
| "index_base OAttrs = ''bitmaps.json''"

lemma indexKey_base: "indexKey ns e ob = indexPrefix ns e @ index_base ob"
  by (cases ob) (simp_all add: index_key_defs)

lemma FormatInt_chars: "c \<in> set (FormatInt z) \<Longrightarrow> is_digit c \<or> c = CHR ''-''"
  by (auto simp: FormatInt_def dest: nat_str_digits split: if_splits)

lemma FormatInt_nonempty [simp]: "FormatInt z \<noteq> []"
  by (simp add: FormatInt_def)

lemma index_base_no_slash: "CHR ''/'' \<notin> set (index_base ob)"
  using FormatInt_chars [of "CHR ''/''"] by (cases ob) auto

lemma last_slash_eq:
  assumes "xs @ CHR ''/'' # f = ys @ CHR ''/'' # g" "CHR ''/'' \<notin> set f" "CHR ''/'' \<notin> set g"
  shows "xs = ys \<and> f = g"
proof -
  have "takeWhile (\<lambda>c. c \<noteq> CHR ''/'') (rev (xs @ CHR ''/'' # f)) = rev f"
    "takeWhile (\<lambda>c. c \<noteq> CHR ''/'') (rev (ys @ CHR ''/'' # g)) = rev g"
    using assms(2,3) by (auto simp: takeWhile_append2 takeWhile_append)
  with assms(1) have "rev f = rev g" by simp
  with assms(1) show ?thesis by simp
qed

lemma index_base_inject: "index_base a = index_base b \<longleftrightarrow> a = b"
  by (cases a; cases b) auto

lemma indexKey_inject:
  assumes "0 \<le> e" "0 \<le> e'"
  shows "indexKey ns e a = indexKey ns' e' b \<longleftrightarrow> ns = ns' \<and> e = e' \<and> a = b"
proof
  assume "indexKey ns e a = indexKey ns' e' b"
  then have "(ns @ ''/index/v'' @ FormatInt e) @ CHR ''/'' # index_base a =
      (ns' @ ''/index/v'' @ FormatInt e') @ CHR ''/'' # index_base b"
    by (simp add: indexKey_base indexPrefix_def)
  from last_slash_eq [OF this index_base_no_slash index_base_no_slash]
  have "(ns @ ''/index/'') @ CHR ''v'' # nat_str (nat e) = (ns' @ ''/index/'') @ CHR ''v'' # nat_str (nat e')"
    and ab: "a = b"
    using assms by (simp_all add: index_base_inject FormatInt_nonneg)
  from digits_tail_eq [OF this(1)] have "ns = ns' \<and> nat e = nat e'"
    by (simp add: nat_str_is_digits)
  with ab assms show "ns = ns' \<and> e = e' \<and> a = b" using eq_nat_nat_iff by blast
qed simp

lemma index_not_manifest [simp]: "indexKey ns e ob \<noteq> manifestKey a" "manifestKey a \<noteq> indexKey ns e ob"
proof -
  show "indexKey ns e ob \<noteq> manifestKey a"
  proof
    assume "indexKey ns e ob = manifestKey a"
    then have "(ns @ ''/index/v'' @ FormatInt e) @ CHR ''/'' # index_base ob = a @ CHR ''/'' # ''manifest.json''"
      by (simp add: indexKey_base indexPrefix_def manifestKey_def)
    from last_slash_eq [OF this index_base_no_slash] show False by (cases ob) auto
  qed
  then show "manifestKey a \<noteq> indexKey ns e ob" by metis
qed

lemma index_not_wal [simp]:
  assumes "0 \<le> i"
  shows "indexKey ns e ob \<noteq> walKey a i" "walKey a i \<noteq> indexKey ns e ob"
proof -
  show "indexKey ns e ob \<noteq> walKey a i"
  proof
    assume "indexKey ns e ob = walKey a i"
    then have eq: "(ns @ ''/index/v'' @ FormatInt e) @ CHR ''/'' # index_base ob =
        (a @ ''/wal'') @ CHR ''/'' # pad020 i @ ''.json''"
      by (simp add: indexKey_base indexPrefix_def walKey_def)
    have "CHR ''/'' \<notin> set (pad020 i @ ''.json'')" using pad020_digits [OF assms, of "CHR ''/''"] by auto
    from last_slash_eq [OF eq index_base_no_slash this]
    have "index_base ob = pad020 i @ ''.json''" by simp
    then have "is_digit (hd (index_base ob))"
      using pad020_digits [OF assms, of "hd (pad020 i)"] by simp
    then show False by (cases ob) (auto simp: is_digit_def)
  qed
  then show "walKey a i \<noteq> indexKey ns e ob" by metis
qed

lemma index_not_queue [simp]: "indexKey ns e ob \<noteq> queueKey" "queueKey \<noteq> indexKey ns e ob"
proof -
  show "indexKey ns e ob \<noteq> queueKey"
  proof
    assume "indexKey ns e ob = queueKey"
    then have "(ns @ ''/index/v'' @ FormatInt e) @ CHR ''/'' # index_base ob = ''_queue'' @ CHR ''/'' # ''queue.json''"
      by (simp add: indexKey_base indexPrefix_def queueKey_def)
    from last_slash_eq [OF this index_base_no_slash] show False by (cases ob) auto
  qed
  then show "queueKey \<noteq> indexKey ns e ob" by metis
qed

section \<open>Listing order\<close>

text \<open>
  C33.  Every object has a key of its own, whatever the namespaces are called: manifests, WAL
  segments, the objects of an index epoch and the queue never share one; and the WAL keys of a
  namespace sort lexically in sequence order, so a listing gives the segments in write order.
\<close>

theorem walKey_names_and_sorts:
  assumes "0 \<le> i" and "0 \<le> j" and "i < 10 ^ 20" and "j < 10 ^ 20" and "0 \<le> e" and "0 \<le> e'"
  shows "(walKey a i = walKey b j \<longleftrightarrow> a = b \<and> i = j) \<and> (manifestKey a = manifestKey b \<longleftrightarrow> a = b) \<and>
    (indexKey a e x = indexKey b e' y \<longleftrightarrow> a = b \<and> e = e' \<and> x = y) \<and>
    distinct [walKey a i, manifestKey b, indexKey c e x, queueKey] \<and>
    (walKey a i < walKey a j \<longleftrightarrow> i < j)"
proof -
  have mono: "walKey a i < walKey a j"
    if "0 \<le> i" "i < 10 ^ 20" "0 \<le> j" "j < 10 ^ 20" "i < j" for i j
    using that pad020_less [OF that(1-4)]
    by (simp add: walKey_def append_less_iff append_same_length_less pad020_length)
  have "walKey a i < walKey a j \<longleftrightarrow> i < j"
    using mono [OF assms(1,3,2,4)] mono [OF assms(2,4,1,3)] less_asym less_irrefl
    by (cases i j rule: linorder_cases) (auto dest: less_asym)
  then show ?thesis
    using walKey_inject [OF assms(1,2)] indexKey_inject [OF assms(5,6)] assms
    by (simp del: indexKey.simps)
qed

theorem walKey_names_and_sorts_witness:
  "(walKey ''a'' 9 < walKey ''a'' 10 \<longleftrightarrow> (9::int) < 10) \<and> walKey ''a'' 9 < walKey ''a'' 10"
  using walKey_names_and_sorts [of 9 10 1 2 "''a''" "''b''" OCentroids OBM25 "''c''"] by simp

end
