(* ===== verification/Manifest.thy ===== *)
theory Manifest
  imports Cache Keys Types
begin

text \<open>
  The manifest operations of \<open>manifest.go\<close> and the WAL operations of \<open>wal.go\<close>, over the cached
  store \<open>db\<close>.  An operation takes the store and returns its result with the new store; the result
  is an error or a value.  \<open>StoreErr e\<close> is any error that wraps \<open>e\<close> with \<open>%w\<close>, so that \<open>errors.Is\<close>
  still finds it; the other constructors are the errors that callers can only report.
\<close>

type_synonym db = "wire Store"

datatype err =
    StoreErr store_err
  | EncodeErr
  | DecodeErr
  | AlreadyExists string
  | SelfBranch
  | ParentMissing string
  | ChainTooDeep
  | ExhaustedCAS
  | ExhaustedAppend
  | BadDimension string nat int
  | ErrClosed
  | QueryErr string

fun is_precondition :: "err \<Rightarrow> bool" where
  "is_precondition (StoreErr e) = (e = ErrPreconditionFailed)"
| "is_precondition _ = False"

fun is_not_found :: "err \<Rightarrow> bool" where
  "is_not_found (StoreErr e) = (e = ErrNotFound)"
| "is_not_found _ = False"

section \<open>The manifest\<close>

definition maxCASAttempts :: nat where
  "maxCASAttempts = 10"

definition LoadManifest :: "string \<Rightarrow> db \<Rightarrow> (err + Manifest \<times> string) \<times> db" where
  "LoadManifest ns s = (case Store_Get (manifestKey ns) s of
     (Inl e, s) \<Rightarrow> (Inl (StoreErr e), s)
   | (Inr (body, etag), s) \<Rightarrow> (case body of
       WManifest m \<Rightarrow> (Inr (m, etag), s)
     | _ \<Rightarrow> (Inl DecodeErr, s)))"

definition root_manifest :: "NamespaceConfig \<Rightarrow> Manifest" where
  "root_manifest cfg = \<lparr>mVersion = 1, mDimension = cDimension cfg, mMetric = cMetric cfg,
     mTextField = cTextField cfg, mWALSeq = 0, mIndexedUpTo = 0, mIndexEpoch = 0, mDocCount = 0,
     mParent = [], mForkWALSeq = 0, mForkIndexEpoch = 0\<rparr>"

definition CreateManifest :: "string \<Rightarrow> NamespaceConfig \<Rightarrow> db \<Rightarrow> (err + unit) \<times> db" where
  "CreateManifest ns cfg s = (case Store_PutIfAbsent (manifestKey ns) (WManifest (root_manifest cfg)) s of
     (Inl e, s) \<Rightarrow> (Inl (if e = ErrPreconditionFailed then AlreadyExists ns else StoreErr e), s)
   | (Inr etag, s) \<Rightarrow> (Inr (), s))"

fun save_manifest_loop ::
    "nat \<Rightarrow> string \<Rightarrow> (Manifest \<Rightarrow> Manifest) \<Rightarrow> db \<Rightarrow> (err + Manifest) \<times> db" where
  "save_manifest_loop 0 ns mutate s = (Inl ExhaustedCAS, s)"
| "save_manifest_loop (Suc n) ns mutate s = (case LoadManifest ns s of
     (Inl e, s) \<Rightarrow> (Inl e, s)
   | (Inr (m, etag), s) \<Rightarrow>
       (let m = (mutate m)\<lparr>mVersion := mVersion (mutate m) + 1\<rparr> in
        case Store_PutCAS (manifestKey ns) (WManifest m) etag s of
          (Inr _, s) \<Rightarrow> (Inr m, s)
        | (Inl e, s) \<Rightarrow>
            if e = ErrPreconditionFailed then save_manifest_loop n ns mutate s
            else (Inl (StoreErr e), s)))"

definition SaveManifestCAS ::
    "string \<Rightarrow> (Manifest \<Rightarrow> Manifest) \<Rightarrow> db \<Rightarrow> (err + Manifest) \<times> db" where
  "SaveManifestCAS = save_manifest_loop maxCASAttempts"

section \<open>The write-ahead log\<close>

definition AppendWAL :: "string \<Rightarrow> int \<Rightarrow> Document list \<Rightarrow> db \<Rightarrow> (err + unit) \<times> db" where
  "AppendWAL ns seq ops s =
     (if \<not> list_all json_encodable ops then (Inl EncodeErr, s)
      else (case Store_PutIfAbsent (walKey ns seq)
                   (WSegment \<lparr>sSeq = seq, sOps = map json_doc ops\<rparr>) s of
        (Inl e, s) \<Rightarrow> (Inl (StoreErr e), s)
      | (Inr etag, s) \<Rightarrow> (Inr (), s)))"

definition ReadWAL :: "string \<Rightarrow> int \<Rightarrow> db \<Rightarrow> (err + WALSegment) \<times> db" where
  "ReadWAL ns seq s = (case Store_Get (walKey ns seq) s of
     (Inl e, s) \<Rightarrow> (Inl (StoreErr e), s)
   | (Inr (body, etag), s) \<Rightarrow> (case body of
       WSegment seg \<Rightarrow> (Inr seg, s)
     | _ \<Rightarrow> (Inl DecodeErr, s)))"

type_synonym folded = "(string, Document) gomap \<times> (string, bool) gomap"

definition apply_op :: "Document \<Rightarrow> folded \<Rightarrow> folded" where
  "apply_op op ld = (case ld of (live, deleted) \<Rightarrow>
     if dDeleted op then (AList.delete (dID op) live, AList.update (dID op) True deleted)
     else (AList.update (dID op) op live, AList.delete (dID op) deleted))"

definition apply_seg :: "WALSegment \<Rightarrow> folded \<Rightarrow> folded" where
  "apply_seg seg ld = fold apply_op (sOps seg) ld"

fun materialize_loop :: "nat \<Rightarrow> string \<Rightarrow> int \<Rightarrow> folded \<Rightarrow> db \<Rightarrow> (err + folded) \<times> db" where
  "materialize_loop 0 ns seq ld s = (Inr ld, s)"
| "materialize_loop (Suc n) ns seq ld s = (case ReadWAL ns seq s of
     (Inl e, s) \<Rightarrow> (Inl e, s)
   | (Inr seg, s) \<Rightarrow> materialize_loop n ns (seq + 1) (apply_seg seg ld) s)"

definition MaterializeLiveAndDeleted :: "string \<Rightarrow> int \<Rightarrow> int \<Rightarrow> db \<Rightarrow> (err + folded) \<times> db" where
  "MaterializeLiveAndDeleted ns from to s = materialize_loop (nat (to - from)) ns from ([], []) s"

definition MaterializeLive ::
    "string \<Rightarrow> int \<Rightarrow> int \<Rightarrow> db \<Rightarrow> (err + (string, Document) gomap) \<times> db" where
  "MaterializeLive ns from to s = (case MaterializeLiveAndDeleted ns from to s of
     (Inl e, s) \<Rightarrow> (Inl e, s)
   | (Inr (live, deleted), s) \<Rightarrow> (Inr live, s))"

section \<open>Requests of a client, one by one\<close>

text \<open>
  \<open>step_of Q s s'\<close>: what the client's own requests do to the store is a chain of \<open>Q\<close> steps,
  interleaved with what the others do.  The lemmas below decompose every request.
\<close>

abbreviation mem_of :: "db \<Rightarrow> wire MemStore" where
  "mem_of s \<equiv> bstore (sBackend s)"

abbreviation db_quiet :: "db \<Rightarrow> bool" where
  "db_quiet s \<equiv> bevents (sBackend s) = []"

lemma on_backend_eq:
  "on_backend op s = (r, s') \<longleftrightarrow> op (sBackend s) = (r, sBackend s') \<and> s' = s\<lparr>sBackend := sBackend s'\<rparr>"
  by (cases s; cases s'; auto simp: on_backend_def split: prod.splits)

lemma Store_Get_quiet:
  "db_quiet s \<Longrightarrow> Store_Get key s = (MemStore_Get (mem_of s) key, s)"
  by (simp add: Store_Get_def on_backend_def Backend_Get_quiet)

lemma LoadManifest_quiet:
  "db_quiet s \<Longrightarrow> MemStore_Get (mem_of s) (manifestKey ns) = Inr (WManifest m, e) \<Longrightarrow>
   LoadManifest ns s = (Inr (m, e), s)"
  by (simp add: LoadManifest_def Store_Get_quiet)

lemma ReadWAL_quiet:
  "db_quiet s \<Longrightarrow> MemStore_Get (mem_of s) (walKey ns i) = Inr (WSegment seg, e) \<Longrightarrow>
   ReadWAL ns i s = (Inr seg, s)"
  by (simp add: ReadWAL_def Store_Get_quiet)

section \<open>Materialising is last-writer-wins\<close>

text \<open>
  The specification: the last operation on an id in the list decides.
\<close>

definition last_op :: "Document list \<Rightarrow> string \<Rightarrow> Document option" where
  "last_op ops x = find (\<lambda>d. dID d = x) (rev ops)"

definition live_spec :: "Document list \<Rightarrow> string \<Rightarrow> Document option" where
  "live_spec ops x = (case last_op ops x of
     None \<Rightarrow> None | Some d \<Rightarrow> if dDeleted d then None else Some d)"

definition deleted_spec :: "Document list \<Rightarrow> string \<Rightarrow> bool" where
  "deleted_spec ops x = (case last_op ops x of None \<Rightarrow> False | Some d \<Rightarrow> dDeleted d)"

lemma last_op_Nil [simp]: "last_op [] x = None"
  by (simp add: last_op_def)

lemma find_append: "find P (xs @ ys) = (case find P xs of None \<Rightarrow> find P ys | Some x \<Rightarrow> Some x)"
  by (induction xs) auto

lemma last_op_append:
  "last_op (xs @ ys) x = (case last_op ys x of None \<Rightarrow> last_op xs x | Some d \<Rightarrow> Some d)"
  unfolding last_op_def rev_append find_append ..

lemma last_op_snoc: "last_op (xs @ [d]) x = (if dID d = x then Some d else last_op xs x)"
  by (simp add: last_op_def)

lemma last_op_id: "last_op ops x = Some d \<Longrightarrow> dID d = x \<and> d \<in> set ops"
  by (auto simp: last_op_def find_Some_iff) (metis nth_mem length_rev set_rev)

text \<open>\<open>folds ops ld\<close>: the two maps are what the list says.\<close>

definition folds :: "Document list \<Rightarrow> folded \<Rightarrow> bool" where
  "folds ops ld \<longleftrightarrow> wf_map (fst ld) \<and> wf_map (snd ld) \<and>
     (\<forall>x. map_of (fst ld) x = live_spec ops x) \<and>
     (\<forall>x. map_of (snd ld) x = (if deleted_spec ops x then Some True else None))"

lemma folds_empty [simp]: "folds [] ([], [])"
  by (simp add: folds_def live_spec_def deleted_spec_def)

lemma folds_apply_op: "folds ops ld \<Longrightarrow> folds (ops @ [d]) (apply_op d ld)"
  by (cases ld) (auto simp: folds_def apply_op_def live_spec_def deleted_spec_def last_op_snoc)

lemma folds_fold: "folds ops ld \<Longrightarrow> folds (ops @ ds) (fold apply_op ds ld)"
proof (induction ds arbitrary: ops ld)
  case (Cons d ds)
  from Cons.IH [OF folds_apply_op [OF Cons.prems]] show ?case by simp
qed simp

lemma folds_apply_seg: "folds ops ld \<Longrightarrow> folds (ops @ sOps seg) (apply_seg seg ld)"
  by (simp add: apply_seg_def folds_fold)

text \<open>Later operations overlay earlier ones: what a query does with the tail of the log.\<close>

lemma live_spec_overlay:
  "live_spec (xs @ ys) x =
     (case live_spec ys x of Some d \<Rightarrow> Some d | None \<Rightarrow> if deleted_spec ys x then None else live_spec xs x)"
  by (auto simp: live_spec_def deleted_spec_def last_op_append split: option.splits)

lemma live_not_deleted: "live_spec ops x = Some d \<Longrightarrow> \<not> deleted_spec ops x"
  by (auto simp: live_spec_def deleted_spec_def split: option.splits if_splits)

text \<open>The log of a namespace in a store: the operations of the segments \<open>[from, from + n)\<close>.\<close>

definition seg_at :: "wire MemStore \<Rightarrow> string \<Rightarrow> int \<Rightarrow> WALSegment option" where
  "seg_at m ns i = (case MemStore_Get m (walKey ns i) of
     Inr (WSegment seg, e) \<Rightarrow> Some seg | _ \<Rightarrow> None)"

fun log_ops :: "wire MemStore \<Rightarrow> string \<Rightarrow> int \<Rightarrow> nat \<Rightarrow> Document list" where
  "log_ops m ns i 0 = []"
| "log_ops m ns i (Suc n) =
     (case seg_at m ns i of None \<Rightarrow> [] | Some seg \<Rightarrow> sOps seg) @ log_ops m ns (i + 1) n"

definition has_segs :: "wire MemStore \<Rightarrow> string \<Rightarrow> int \<Rightarrow> int \<Rightarrow> bool" where
  "has_segs m ns i j \<longleftrightarrow> (\<forall>k. i \<le> k \<and> k < j \<longrightarrow> seg_at m ns k \<noteq> None)"

lemma seg_atE:
  assumes "seg_at m ns i = Some seg"
  obtains e where "MemStore_Get m (walKey ns i) = Inr (WSegment seg, e)"
  using assms by (auto simp: seg_at_def split: sum.splits prod.splits wire.splits)

lemma materialize_loop_quiet:
  assumes "db_quiet s" "has_segs (mem_of s) ns i (i + int n)" "folds ops ld"
  shows "\<exists>ld'. materialize_loop n ns i ld s = (Inr ld', s) \<and> folds (ops @ log_ops (mem_of s) ns i n) ld'"
  using assms(2,3)
proof (induction n arbitrary: i ld ops)
  case (Suc n)
  from Suc.prems(1) obtain seg where seg: "seg_at (mem_of s) ns i = Some seg"
    unfolding has_segs_def by (force simp: not_None_eq)
  then obtain e where "MemStore_Get (mem_of s) (walKey ns i) = Inr (WSegment seg, e)" by (rule seg_atE)
  with assms(1) have read: "ReadWAL ns i s = (Inr seg, s)" by (rule ReadWAL_quiet)
  have "has_segs (mem_of s) ns (i + 1) (i + 1 + int n)"
    using Suc.prems(1) by (auto simp: has_segs_def)
  from Suc.IH [OF this folds_apply_seg [OF Suc.prems(2), of seg]] read seg show ?case by simp
qed simp

end
