(* ===== verification/Branch.thy ===== *)
theory Branch
  imports Manifest
begin

text \<open>
  Copy-on-write branches (\<open>branch.go\<close>): the fork, the resolution of a branch's log and index along
  the parent chain, and the fold of a window of the resolved log.
\<close>

section \<open>Operations\<close>

definition maxBranchDepth :: nat where
  "maxBranchDepth = 64"

definition branch_manifest :: "string \<Rightarrow> Manifest \<Rightarrow> Manifest" where
  "branch_manifest parent pm = \<lparr>mVersion = 1, mDimension = mDimension pm, mMetric = mMetric pm,
     mTextField = mTextField pm, mWALSeq = mWALSeq pm, mIndexedUpTo = mIndexedUpTo pm, mIndexEpoch = 0,
     mDocCount = mDocCount pm, mParent = parent, mForkWALSeq = mWALSeq pm,
     mForkIndexEpoch = mIndexEpoch pm\<rparr>"

definition BranchFrom :: "string \<Rightarrow> string \<Rightarrow> db \<Rightarrow> (err + unit) \<times> db" where
  "BranchFrom parent child s =
     (if parent = child then (Inl SelfBranch, s)
      else (case LoadManifest parent s of
        (Inl e, s) \<Rightarrow> (Inl (if is_not_found e then ParentMissing parent else e), s)
      | (Inr (pm, etag), s) \<Rightarrow>
          (case Store_PutIfAbsent (manifestKey child) (WManifest (branch_manifest parent pm)) s of
             (Inl e, s) \<Rightarrow> (Inl (if e = ErrPreconditionFailed then AlreadyExists child else StoreErr e), s)
           | (Inr etag, s) \<Rightarrow> (Inr (), s))))"

record walSource =
  wsNs :: string
  wsFrom :: int
  wsTo :: int

record readView =
  rvSources :: "walSource list"
  rvIndexNS :: string
  rvIndexEpoch :: int

definition minInt64 :: "int \<Rightarrow> int \<Rightarrow> int" where
  "minInt64 a b = (if a < b then a else b)"

definition maxInt64 :: "int \<Rightarrow> int \<Rightarrow> int" where
  "maxInt64 a b = (if a > b then a else b)"

text \<open>
  The two walks up the parent chain.  The first argument counts the iterations that remain of the
  \<open>maxBranchDepth + 1\<close> that the code allows; at zero the depth check fails.
\<close>

fun sources_loop ::
    "nat \<Rightarrow> string \<Rightarrow> Manifest \<Rightarrow> walSource list \<Rightarrow> db \<Rightarrow> (err + walSource list) \<times> db" where
  "sources_loop 0 cur curM revs s = (Inl ChainTooDeep, s)"
| "sources_loop (Suc n) cur curM revs s =
     (let fork = (if IsBranch curM then mForkWALSeq curM else 0);
          revs = (if mWALSeq curM > fork
                  then revs @ [\<lparr>wsNs = cur, wsFrom = fork, wsTo = mWALSeq curM\<rparr>] else revs)
      in if \<not> IsBranch curM then (Inr revs, s)
         else (case LoadManifest (mParent curM) s of
           (Inl e, s) \<Rightarrow> (Inl e, s)
         | (Inr (pm, etag), s) \<Rightarrow>
             sources_loop n (mParent curM)
               (pm\<lparr>mWALSeq := minInt64 (mWALSeq pm) (mForkWALSeq curM)\<rparr>) revs s))"

fun index_loop :: "nat \<Rightarrow> string \<Rightarrow> Manifest \<Rightarrow> db \<Rightarrow> (err + string \<times> int) \<times> db" where
  "index_loop 0 cur curM s = (Inl ChainTooDeep, s)"
| "index_loop (Suc n) cur curM s =
     (if mIndexEpoch curM > 0 then (Inr (cur, mIndexEpoch curM), s)
      else if \<not> IsBranch curM then (Inr (cur, 0), s)
      else if mForkIndexEpoch curM > 0 then (Inr (mParent curM, mForkIndexEpoch curM), s)
      else (case LoadManifest (mParent curM) s of
        (Inl e, s) \<Rightarrow> (Inl e, s)
      | (Inr (pm, etag), s) \<Rightarrow> index_loop n (mParent curM) pm s))"

definition resolveIndex :: "string \<Rightarrow> Manifest \<Rightarrow> db \<Rightarrow> (err + string \<times> int) \<times> db" where
  "resolveIndex ns m s = index_loop (maxBranchDepth + 1) ns m s"

definition resolveReadView :: "string \<Rightarrow> Manifest \<Rightarrow> db \<Rightarrow> (err + readView) \<times> db" where
  "resolveReadView ns m s = (case sources_loop (maxBranchDepth + 1) ns m [] s of
     (Inl e, s) \<Rightarrow> (Inl e, s)
   | (Inr revs, s) \<Rightarrow> (case resolveIndex ns m s of
       (Inl e, s) \<Rightarrow> (Inl e, s)
     | (Inr (indexNS, indexEpoch), s) \<Rightarrow>
         (Inr \<lparr>rvSources = rev revs, rvIndexNS = indexNS, rvIndexEpoch = indexEpoch\<rparr>, s)))"

fun view_loop :: "walSource list \<Rightarrow> int \<Rightarrow> int \<Rightarrow> folded \<Rightarrow> db \<Rightarrow> (err + folded) \<times> db" where
  "view_loop [] from to ld s = (Inr ld, s)"
| "view_loop (src # srcs) from to ld s =
     (let lo = maxInt64 from (wsFrom src); hi = minInt64 to (wsTo src) in
      case materialize_loop (nat (hi - lo)) (wsNs src) lo ld s of
        (Inl e, s) \<Rightarrow> (Inl e, s)
      | (Inr ld, s) \<Rightarrow> view_loop srcs from to ld s)"

definition MaterializeView :: "readView \<Rightarrow> int \<Rightarrow> int \<Rightarrow> db \<Rightarrow> (err + folded) \<times> db" where
  "MaterializeView v from to s = view_loop (rvSources v) from to ([], []) s"

definition MaterializeLiveView ::
    "readView \<Rightarrow> int \<Rightarrow> int \<Rightarrow> db \<Rightarrow> (err + (string, Document) gomap) \<times> db" where
  "MaterializeLiveView v from to s = (case MaterializeView v from to s of
     (Inl e, s) \<Rightarrow> (Inl e, s)
   | (Inr (live, deleted), s) \<Rightarrow> (Inr live, s))"

section \<open>The chain of a namespace\<close>

text \<open>
  What a manifest of a well-formed store tells: its own segments \<open>[fork, WALSeq)\<close> are there, and a
  branch's parent exists, reaches at least the fork point, and forked no later itself.
\<close>

definition fork_of :: "Manifest \<Rightarrow> int" where
  "fork_of m = (if IsBranch m then mForkWALSeq m else 0)"

definition manifest_at :: "wire MemStore \<Rightarrow> string \<Rightarrow> Manifest option" where
  "manifest_at mem ns = (case MemStore_Get mem (manifestKey ns) of
     Inr (WManifest m, e) \<Rightarrow> Some m | _ \<Rightarrow> None)"

text \<open>
  \<open>chain_ok mem d ns w\<close>: reading the first \<open>w\<close> operations numbers of \<open>ns\<close> succeeds, going up at most
  \<open>d\<close> parents.  \<open>logical mem d ns w\<close> is the list of operations it gives: the ancestors' segments up
  to the fork point, then its own.
\<close>

fun chain_ok :: "wire MemStore \<Rightarrow> nat \<Rightarrow> string \<Rightarrow> Manifest \<Rightarrow> bool" where
  "chain_ok mem d ns m \<longleftrightarrow> 0 \<le> fork_of m \<and> fork_of m \<le> mWALSeq m \<and>
     has_segs mem ns (fork_of m) (mWALSeq m) \<and>
     (IsBranch m \<longrightarrow> (case d of 0 \<Rightarrow> False | Suc d' \<Rightarrow>
        (case manifest_at mem (mParent m) of None \<Rightarrow> False | Some pm \<Rightarrow>
           fork_of pm \<le> mForkWALSeq m \<and> mForkWALSeq m \<le> mWALSeq pm \<and>
           chain_ok mem d' (mParent m) (pm\<lparr>mWALSeq := mForkWALSeq m\<rparr>))))"

fun logical :: "wire MemStore \<Rightarrow> nat \<Rightarrow> string \<Rightarrow> Manifest \<Rightarrow> int \<Rightarrow> int \<Rightarrow> Document list" where
  "logical mem d ns m from to =
     (if IsBranch m then (case d of 0 \<Rightarrow> [] | Suc d' \<Rightarrow>
        (case manifest_at mem (mParent m) of None \<Rightarrow> [] | Some pm \<Rightarrow>
           logical mem d' (mParent m) (pm\<lparr>mWALSeq := mForkWALSeq m\<rparr>) from to)) else []) @
     log_ops mem ns (max from (fork_of m)) (nat (min to (mWALSeq m) - max from (fork_of m)))"

declare chain_ok.simps [simp del] logical.simps [simp del]

lemma has_segs_code [code]:
  "has_segs mem ns i j = list_all (\<lambda>k. case seg_at mem ns k of None \<Rightarrow> False | Some _ \<Rightarrow> True) [i..j - 1]"
  by (auto simp: has_segs_def list_all_iff split: option.splits)

lemma manifest_atE:
  assumes "manifest_at mem ns = Some m"
  obtains e where "MemStore_Get mem (manifestKey ns) = Inr (WManifest m, e)"
  using assms by (auto simp: manifest_at_def split: sum.splits prod.splits wire.splits)

lemma min_max_int64 [simp]: "minInt64 = min" "maxInt64 = max"
  by (auto simp: fun_eq_iff minInt64_def maxInt64_def)

lemma fork_of_update [simp]: "fork_of (m\<lparr>mWALSeq := w\<rparr>) = fork_of m"
  and IsBranch_update [simp]: "IsBranch (m\<lparr>mWALSeq := w\<rparr>) = IsBranch m"
  by (simp_all add: fork_of_def IsBranch_def)

lemma view_loop_append:
  "view_loop (xs @ ys) from to ld s = (case view_loop xs from to ld s of
     (Inl e, s) \<Rightarrow> (Inl e, s) | (Inr ld, s) \<Rightarrow> view_loop ys from to ld s)"
  by (induction xs arbitrary: ld s) (auto simp: Let_def split: sum.split prod.split)

text \<open>
  The walk finds the sources of the chain, and folding them, oldest first, folds the logical log.
\<close>


definition own_source :: "string \<Rightarrow> Manifest \<Rightarrow> walSource list" where
  "own_source ns m = (if mWALSeq m > fork_of m
     then [\<lparr>wsNs = ns, wsFrom = fork_of m, wsTo = mWALSeq m\<rparr>] else [])"

lemma own_source_view:
  assumes "db_quiet s" "has_segs (mem_of s) ns (fork_of m) (mWALSeq m)" "folds ops ld"
  shows "\<exists>ld'. view_loop (own_source ns m) from to ld s = (Inr ld', s) \<and>
    folds (ops @ log_ops (mem_of s) ns (max from (fork_of m))
      (nat (min to (mWALSeq m) - max from (fork_of m)))) ld'"
proof (cases "mWALSeq m > fork_of m")
  case True
  let ?lo = "max from (fork_of m)" and ?n = "nat (min to (mWALSeq m) - max from (fork_of m))"
  have "has_segs (mem_of s) ns ?lo (?lo + int ?n)"
    using assms(2) by (auto simp: has_segs_def)
  from materialize_loop_quiet [OF assms(1) this assms(3)] obtain ld' where
    "materialize_loop ?n ns ?lo ld s = (Inr ld', s)" "folds (ops @ log_ops (mem_of s) ns ?lo ?n) ld'"
    by blast
  with True show ?thesis by (simp add: own_source_def)
next
  case False
  then have "nat (min to (mWALSeq m) - max from (fork_of m)) = 0" by simp
  with False assms(3) show ?thesis by (simp add: own_source_def)
qed

lemma sources_loop_step:
  "sources_loop (Suc n) ns m revs s =
     (if \<not> IsBranch m then (Inr (revs @ own_source ns m), s)
      else (case LoadManifest (mParent m) s of
        (Inl e, s) \<Rightarrow> (Inl e, s)
      | (Inr (pm, etag), s) \<Rightarrow>
          sources_loop n (mParent m) (pm\<lparr>mWALSeq := min (mWALSeq pm) (mForkWALSeq m)\<rparr>)
            (revs @ own_source ns m) s))"
  by (auto simp: own_source_def fork_of_def Let_def split: sum.split prod.split)

lemma chain_ok_own:
  "chain_ok mem d ns m \<Longrightarrow> 0 \<le> fork_of m \<and> fork_of m \<le> mWALSeq m \<and>
     has_segs mem ns (fork_of m) (mWALSeq m)"
  by (simp add: chain_ok.simps)

lemma chain_ok_parent:
  assumes "chain_ok mem d ns m" "IsBranch m"
  obtains d' pm where "d = Suc d'" "manifest_at mem (mParent m) = Some pm"
    "fork_of pm \<le> mForkWALSeq m" "mForkWALSeq m \<le> mWALSeq pm"
    "chain_ok mem d' (mParent m) (pm\<lparr>mWALSeq := mForkWALSeq m\<rparr>)"
  using assms by (subst (asm) chain_ok.simps) (auto split: nat.splits option.splits)

text \<open>
  The walk finds the sources of the chain, and folding them, oldest first, folds the logical log.
\<close>

lemma sources_loop_view:
  assumes "db_quiet s" "chain_ok (mem_of s) d ns m"
  shows "\<exists>srcs. sources_loop (Suc d) ns m revs s = (Inr (revs @ srcs), s) \<and>
    (\<forall>from to ops ld. folds ops ld \<longrightarrow>
      (\<exists>ld'. view_loop (rev srcs) from to ld s = (Inr ld', s) \<and>
        folds (ops @ logical (mem_of s) d ns m from to) ld'))"
  using assms(2)
proof (induction d arbitrary: ns m revs rule: less_induct)
  case (less d)
  have own: "has_segs (mem_of s) ns (fork_of m) (mWALSeq m)" using chain_ok_own [OF less.prems] by blast
  have rev_own: "rev (own_source ns m) = own_source ns m" by (simp add: own_source_def)
  show ?case
  proof (cases "IsBranch m")
    case False
    then have step: "sources_loop (Suc d) ns m revs s = (Inr (revs @ own_source ns m), s)"
      unfolding sources_loop_step by simp
    have log: "logical (mem_of s) d ns m from to = log_ops (mem_of s) ns (max from (fork_of m))
        (nat (min to (mWALSeq m) - max from (fork_of m)))" for "from" to
      using False by (simp add: logical.simps)
    show ?thesis
      using own_source_view [OF assms(1) own] step
      by (intro exI [of _ "own_source ns m"]) (simp add: rev_own log)
  next
    case True
    from chain_ok_parent [OF less.prems True] obtain d' pm where p: "d = Suc d'"
      "manifest_at (mem_of s) (mParent m) = Some pm" "fork_of pm \<le> mForkWALSeq m"
      "mForkWALSeq m \<le> mWALSeq pm" "chain_ok (mem_of s) d' (mParent m) (pm\<lparr>mWALSeq := mForkWALSeq m\<rparr>)"
      by blast
    let ?pm = "pm\<lparr>mWALSeq := mForkWALSeq m\<rparr>"
    from p(2) obtain e where "MemStore_Get (mem_of s) (manifestKey (mParent m)) = Inr (WManifest pm, e)"
      by (rule manifest_atE)
    then have load: "LoadManifest (mParent m) s = (Inr (pm, e), s)" by (rule LoadManifest_quiet [OF assms(1)])
    have "d' < d" using p(1) by simp
    from less.IH [OF this p(5), of "revs @ own_source ns m"] obtain srcs where
      srcs: "sources_loop d (mParent m) ?pm (revs @ own_source ns m) s = (Inr ((revs @ own_source ns m) @ srcs), s)"
      and fold: "\<And>from to ops ld. folds ops ld \<Longrightarrow> \<exists>ld'. view_loop (rev srcs) from to ld s = (Inr ld', s) \<and>
        folds (ops @ logical (mem_of s) d' (mParent m) ?pm from to) ld'"
      unfolding p(1) by blast
    have step: "sources_loop (Suc d) ns m revs s = (Inr (revs @ own_source ns m @ srcs), s)"
      unfolding sources_loop_step using True load p(4) srcs by (simp add: min_absorb2)
    have log: "logical (mem_of s) d ns m from to = logical (mem_of s) d' (mParent m) ?pm from to @
        log_ops (mem_of s) ns (max from (fork_of m)) (nat (min to (mWALSeq m) - max from (fork_of m)))"
      for "from" to using True p(1,2) by (subst logical.simps) simp
    have "\<exists>ld'. view_loop (rev (own_source ns m @ srcs)) from to ld s = (Inr ld', s) \<and>
        folds (ops @ logical (mem_of s) d ns m from to) ld'" if "folds ops ld" for "from" to ops ld
    proof -
      from fold [OF that, of "from" to] obtain ld1 where
        1: "view_loop (rev srcs) from to ld s = (Inr ld1, s)"
          "folds (ops @ logical (mem_of s) d' (mParent m) ?pm from to) ld1" by blast
      from own_source_view [OF assms(1) own 1(2), of "from" to] obtain ld2 where
        2: "view_loop (own_source ns m) from to ld1 s = (Inr ld2, s)"
          "folds ((ops @ logical (mem_of s) d' (mParent m) ?pm from to) @ log_ops (mem_of s) ns
            (max from (fork_of m)) (nat (min to (mWALSeq m) - max from (fork_of m)))) ld2" by blast
      then show ?thesis using 1 by (simp add: view_loop_append rev_own log)
    qed
    with step show ?thesis by blast
  qed
qed

text \<open>Going up further than the chain is long changes nothing.\<close>

lemma chain_ok_mono: "chain_ok mem d ns m \<Longrightarrow> d \<le> d' \<Longrightarrow> chain_ok mem d' ns m"
proof (induction d arbitrary: d' ns m rule: less_induct)
  case (less d)
  show ?case
  proof (cases "IsBranch m")
    case True
    from chain_ok_parent [OF less.prems(1) True] obtain d1 pm where p: "d = Suc d1"
      "manifest_at mem (mParent m) = Some pm" "fork_of pm \<le> mForkWALSeq m"
      "mForkWALSeq m \<le> mWALSeq pm" "chain_ok mem d1 (mParent m) (pm\<lparr>mWALSeq := mForkWALSeq m\<rparr>)"
      by blast
    from p(1) less.prems(2) obtain d1' where "d' = Suc d1'" "d1 \<le> d1'" by (cases d') auto
    with less.IH [of d1, OF _ p(5)] p chain_ok_own [OF less.prems(1)] show ?thesis
      by (subst chain_ok.simps) auto
  next
    case False
    with chain_ok_own [OF less.prems(1)] show ?thesis by (subst chain_ok.simps) auto
  qed
qed

lemma logical_branch:
  "IsBranch m \<Longrightarrow> manifest_at mem (mParent m) = Some pm \<Longrightarrow>
   logical mem (Suc d) ns m from to = logical mem d (mParent m) (pm\<lparr>mWALSeq := mForkWALSeq m\<rparr>) from to @
     log_ops mem ns (max from (fork_of m)) (nat (min to (mWALSeq m) - max from (fork_of m)))"
  by (subst logical.simps) simp

lemma logical_root:
  "\<not> IsBranch m \<Longrightarrow> logical mem d ns m from to =
     log_ops mem ns (max from (fork_of m)) (nat (min to (mWALSeq m) - max from (fork_of m)))"
  by (subst logical.simps) simp

lemma logical_mono:
  "chain_ok mem d ns m \<Longrightarrow> d \<le> d' \<Longrightarrow> logical mem d' ns m from to = logical mem d ns m from to"
proof (induction d arbitrary: d' ns m rule: less_induct)
  case (less d)
  show ?case
  proof (cases "IsBranch m")
    case True
    from chain_ok_parent [OF less.prems(1) True] obtain d1 pm where p: "d = Suc d1"
      "manifest_at mem (mParent m) = Some pm" "fork_of pm \<le> mForkWALSeq m"
      "mForkWALSeq m \<le> mWALSeq pm" "chain_ok mem d1 (mParent m) (pm\<lparr>mWALSeq := mForkWALSeq m\<rparr>)"
      by blast
    from p(1) less.prems(2) obtain d1' where d1': "d' = Suc d1'" "d1 \<le> d1'" by (cases d') auto
    have "d1 < d" using p(1) by simp
    from less.IH [OF this p(5) d1'(2)] show ?thesis
      unfolding p(1) d1'(1) logical_branch [OF True p(2)] by (rule arg_cong)
  next
    case False
    then show ?thesis by (simp only: logical_root [OF False])
  qed
qed

lemma index_loop_quiet:
  assumes "db_quiet s" "chain_ok (mem_of s) d ns (m\<lparr>mWALSeq := w\<rparr>)"
  shows "\<exists>r. index_loop (Suc d) ns m s = (Inr r, s)"
  using assms(2)
proof (induction d arbitrary: ns m w rule: less_induct)
  case (less d)
  show ?case
  proof (cases "mIndexEpoch m > 0 \<or> \<not> IsBranch m \<or> mForkIndexEpoch m > 0")
    case False
    then have b: "IsBranch (m\<lparr>mWALSeq := w\<rparr>)" by simp
    from chain_ok_parent [OF less.prems b] obtain d' pm where p: "d = Suc d'"
      "manifest_at (mem_of s) (mParent (m\<lparr>mWALSeq := w\<rparr>)) = Some pm"
      "chain_ok (mem_of s) d' (mParent (m\<lparr>mWALSeq := w\<rparr>)) (pm\<lparr>mWALSeq := mForkWALSeq (m\<lparr>mWALSeq := w\<rparr>)\<rparr>)"
      by blast
    note p = p(1) p(2,3) [simplified]
    from p(2) obtain e where "MemStore_Get (mem_of s) (manifestKey (mParent m)) = Inr (WManifest pm, e)"
      by (rule manifest_atE)
    then have "LoadManifest (mParent m) s = (Inr (pm, e), s)" by (rule LoadManifest_quiet [OF assms(1)])
    with less.IH [of d', OF _ p(3)] False p(1) show ?thesis by auto
  qed auto
qed

lemma resolveReadView_quiet:
  assumes "db_quiet s" "chain_ok (mem_of s) d ns m" "d \<le> maxBranchDepth"
  obtains v where "resolveReadView ns m s = (Inr v, s)"
    "\<And>from to. \<exists>ld. MaterializeView v from to s = (Inr ld, s) \<and>
      folds (logical (mem_of s) d ns m from to) ld"
proof -
  note ok = chain_ok_mono [OF assms(2,3)]
  from sources_loop_view [OF assms(1) ok, of "[]"] obtain srcs where
    srcs: "sources_loop (Suc maxBranchDepth) ns m [] s = (Inr srcs, s)"
    and fold: "\<And>from to ops ld. folds ops ld \<Longrightarrow> \<exists>ld'. view_loop (rev srcs) from to ld s = (Inr ld', s) \<and>
      folds (ops @ logical (mem_of s) maxBranchDepth ns m from to) ld'" by auto
  have "chain_ok (mem_of s) maxBranchDepth ns (m\<lparr>mWALSeq := mWALSeq m\<rparr>)" using ok by simp
  from index_loop_quiet [OF assms(1) this] obtain i e where
    idx: "index_loop (Suc maxBranchDepth) ns m s = (Inr (i, e), s)" by auto
  let ?v = "\<lparr>rvSources = rev srcs, rvIndexNS = i, rvIndexEpoch = e\<rparr>"
  have r: "resolveReadView ns m s = (Inr ?v, s)"
    using srcs idx by (simp add: resolveReadView_def resolveIndex_def)
  have "\<exists>ld. MaterializeView ?v from to s = (Inr ld, s) \<and>
      folds (logical (mem_of s) d ns m from to) ld" for "from" to
    using fold [OF folds_empty, of "from" to] logical_mono [OF assms(2,3)]
    by (simp add: MaterializeView_def)
  with r that show ?thesis by blast
qed

section \<open>Windows of the log\<close>

lemma log_ops_add: "log_ops mem ns i (a + b) = log_ops mem ns i a @ log_ops mem ns (i + int a) b"
  by (induction a arbitrary: i) (simp_all add: algebra_simps)

definition own_ops :: "wire MemStore \<Rightarrow> string \<Rightarrow> Manifest \<Rightarrow> int \<Rightarrow> int \<Rightarrow> Document list" where
  "own_ops mem ns m from to =
     log_ops mem ns (max from (fork_of m)) (nat (min to (mWALSeq m) - max from (fork_of m)))"

lemma own_ops_split:
  assumes "f \<le> a" "a \<le> t"
  shows "own_ops mem ns m f t = own_ops mem ns m f a @ own_ops mem ns m a t"
proof -
  let ?F = "fork_of m" and ?W = "mWALSeq m"
  consider "a \<le> ?F" | "?W \<le> a" "?F < a" | "?F < a" "a < ?W" by linarith
  then show ?thesis
  proof cases
    case 1
    then have "nat (min a ?W - max f ?F) = 0" "max a ?F = max f ?F" using assms by auto
    then show ?thesis by (simp add: own_ops_def)
  next
    case 2
    then have "nat (min t ?W - max a ?F) = 0" "min t ?W = min a ?W" using assms by auto
    then show ?thesis by (simp add: own_ops_def)
  next
    case 3
    have "nat (min t ?W - max f ?F) = nat (min a ?W - max f ?F) + nat (min t ?W - max a ?F)"
      using 3 assms by (simp add: nat_add_distrib [symmetric] max_def min_def)
    moreover have "max f ?F + int (nat (min a ?W - max f ?F)) = max a ?F"
      using 3 assms by (simp add: max_def min_def)
    ultimately show ?thesis by (simp add: own_ops_def log_ops_add)
  qed
qed

lemma own_ops_none: "t \<le> fork_of m \<or> mWALSeq m \<le> f \<Longrightarrow> own_ops mem ns m f t = []"
  by (auto simp: own_ops_def)

lemma logical_none:
  "chain_ok mem d ns m \<Longrightarrow> mWALSeq m \<le> f \<Longrightarrow> logical mem d ns m f t = []"
proof (induction d arbitrary: ns m rule: less_induct)
  case (less d)
  show ?case
  proof (cases "IsBranch m")
    case True
    from chain_ok_parent [OF less.prems(1) True] obtain d1 pm where p: "d = Suc d1"
      "manifest_at mem (mParent m) = Some pm"
      "chain_ok mem d1 (mParent m) (pm\<lparr>mWALSeq := mForkWALSeq m\<rparr>)" by blast
    have "mForkWALSeq m \<le> f"
      using chain_ok_own [OF less.prems(1)] True less.prems(2) by (simp add: fork_of_def)
    with less.IH [OF _ p(3)] p(1) have "logical mem d1 (mParent m) (pm\<lparr>mWALSeq := mForkWALSeq m\<rparr>) f t = []"
      by simp
    with own_ops_none [of t m f mem ns] less.prems(2) show ?thesis
      unfolding p(1) logical_branch [OF True p(2)] own_ops_def [symmetric] by simp
  next
    case False
    with own_ops_none [of t m f mem ns] less.prems(2) show ?thesis
      by (simp add: logical_root own_ops_def)
  qed
qed

text \<open>
  A window of the log cut in two: a query reads the epoch for the first part and scans the second.
\<close>

lemma logical_split:
  assumes "chain_ok mem d ns m" "f \<le> a" "a \<le> t"
  shows "logical mem d ns m f t = logical mem d ns m f a @ logical mem d ns m a t"
  using assms(1)
proof (induction d arbitrary: ns m rule: less_induct)
  case (less d)
  show ?case
  proof (cases "IsBranch m")
    case True
    from chain_ok_parent [OF less.prems(1) True] obtain d1 pm where p: "d = Suc d1"
      "manifest_at mem (mParent m) = Some pm"
      "chain_ok mem d1 (mParent m) (pm\<lparr>mWALSeq := mForkWALSeq m\<rparr>)" by blast
    let ?up = "logical mem d1 (mParent m) (pm\<lparr>mWALSeq := mForkWALSeq m\<rparr>)"
    have up: "?up f t = ?up f a @ ?up a t" using less.IH [OF _ p(3)] p(1) by simp
    have log: "logical mem d ns m x y = ?up x y @ own_ops mem ns m x y" for x y
      unfolding p(1) logical_branch [OF True p(2)] own_ops_def ..
    have fork: "fork_of m = mForkWALSeq m" using True by (simp add: fork_of_def)
    show ?thesis
    proof (cases "a \<le> fork_of m")
      case True
      then have "own_ops mem ns m f a = []" by (simp add: own_ops_none)
      then show ?thesis using own_ops_split [OF assms(2,3), of mem ns m] up by (simp add: log)
    next
      case False
      then have "?up a t = []" using logical_none [OF p(3)] fork by simp
      then show ?thesis using own_ops_split [OF assms(2,3), of mem ns m] up by (simp add: log)
    qed
  next
    case False
    then show ?thesis
      using own_ops_split [OF assms(2,3), of mem ns m] by (simp add: logical_root own_ops_def)
  qed
qed

section \<open>Properties\<close>

text \<open>
  C21.  Reading a namespace, branched or not, is last-writer-wins over the whole parent chain.  When
  the chain is intact and at most \<open>maxBranchDepth\<close> parents long, the read view resolves, and folding
  any window of it gives exactly the documents whose last operation in the logical log of the window
  is an upsert, and exactly the ids whose last operation is a tombstone; no id is in both.
\<close>

theorem MaterializeView_last_writer_wins:
  assumes "db_quiet s" and "chain_ok (mem_of s) d ns m" and "d \<le> maxBranchDepth"
  shows "\<exists>v. resolveReadView ns m s = (Inr v, s) \<and> (\<forall>from to. \<exists>live deleted.
    MaterializeView v from to s = (Inr (live, deleted), s) \<and>
    map_of live = live_spec (logical (mem_of s) d ns m from to) \<and>
    (\<forall>x. map_of deleted x = Some True \<longleftrightarrow> deleted_spec (logical (mem_of s) d ns m from to) x) \<and>
    dom (map_of live) \<inter> dom (map_of deleted) = {})"
proof -
  from resolveReadView_quiet [OF assms] obtain v where v: "resolveReadView ns m s = (Inr v, s)"
    "\<And>from to. \<exists>ld. MaterializeView v from to s = (Inr ld, s) \<and>
      folds (logical (mem_of s) d ns m from to) ld" by blast
  have "\<exists>live deleted. MaterializeView v from to s = (Inr (live, deleted), s) \<and>
    map_of live = live_spec (logical (mem_of s) d ns m from to) \<and>
    (\<forall>x. map_of deleted x = Some True \<longleftrightarrow> deleted_spec (logical (mem_of s) d ns m from to) x) \<and>
    dom (map_of live) \<inter> dom (map_of deleted) = {}" for "from" to
  proof -
    from v(2) obtain live deleted where ld: "MaterializeView v from to s = (Inr (live, deleted), s)"
      "folds (logical (mem_of s) d ns m from to) (live, deleted)" by (metis surj_pair)
    then have "map_of live = live_spec (logical (mem_of s) d ns m from to)"
      "\<And>x. map_of deleted x = (if deleted_spec (logical (mem_of s) d ns m from to) x then Some True else None)"
      by (auto simp: folds_def)
    with ld(1) live_not_deleted show ?thesis by (fastforce simp: dom_def split: if_splits)
  qed
  with v(1) show ?thesis by blast
qed

text \<open>A store with a parent of one segment and a branch of another, for the witnesses.\<close>

definition demo_doc :: "string \<Rightarrow> Document" where
  "demo_doc x = \<lparr>dID = x, dVector = None, dAttributes = [], dDeleted = False\<rparr>"

definition demo_child :: Manifest where
  "demo_child = (branch_manifest ''p'' (root_manifest \<lparr>cDimension = 2, cMetric = ''cosine'', cTextField = []\<rparr>))
     \<lparr>mWALSeq := 2, mForkWALSeq := 1\<rparr>"

definition demo_mem :: "wire MemStore" where
  "demo_mem = fold (\<lambda>(k, b) m. snd (MemStore_Put m k b))
     [(manifestKey ''p'', WManifest ((root_manifest \<lparr>cDimension = 2, cMetric = ''cosine'',
         cTextField = []\<rparr>)\<lparr>mWALSeq := 1\<rparr>)),
      (walKey ''p'' 0, WSegment \<lparr>sSeq = 0, sOps = [demo_doc ''a'']\<rparr>),
      (manifestKey ''c'', WManifest demo_child),
      (walKey ''c'' 1, WSegment \<lparr>sSeq = 1,
         sOps = [(demo_doc ''a'')\<lparr>dDeleted := True\<rparr>, demo_doc ''b'']\<rparr>)] MemStore_New"

definition demo_db :: db where
  "demo_db = NewWithCapacity (\<lambda>k. k) \<lparr>bstore = demo_mem, bevents = []\<rparr> 0"

lemma demo_chain: "chain_ok demo_mem 1 ''c'' demo_child"
  by code_simp

lemma demo_db_simps [simp]: "mem_of demo_db = demo_mem" "db_quiet demo_db"
  by (simp_all add: demo_db_def NewWithCapacity_def)

theorem MaterializeView_last_writer_wins_witness:
  "\<exists>v. resolveReadView ''c'' demo_child demo_db = (Inr v, demo_db) \<and> (\<forall>from to. \<exists>live deleted.
    MaterializeView v from to demo_db = (Inr (live, deleted), demo_db) \<and>
    map_of live = live_spec (logical demo_mem 1 ''c'' demo_child from to) \<and>
    (\<forall>x. map_of deleted x = Some True \<longleftrightarrow> deleted_spec (logical demo_mem 1 ''c'' demo_child from to) x) \<and>
    dom (map_of live) \<inter> dom (map_of deleted) = {})"
  using MaterializeView_last_writer_wins [of demo_db 1 "''c''" demo_child] demo_chain
  by (simp add: maxBranchDepth_def)



text \<open>
  The comments promise that a branch must not see what the parent writes after the fork, and that it
  reads \<open>the nearest ancestor's epoch frozen at its fork point\<close>.  A branch of a parent that had no
  epoch at the fork does not: \<open>resolveIndex\<close> then takes the ancestor's current epoch.  Here the child
  forked at sequence number 1, and the epoch it is told to read covers the parent's segment 1 too.
\<close>

definition leak_parent :: Manifest where
  "leak_parent = (root_manifest \<lparr>cDimension = 2, cMetric = ''cosine'', cTextField = []\<rparr>)
     \<lparr>mWALSeq := 2, mIndexedUpTo := 2, mIndexEpoch := 1\<rparr>"

definition leak_child :: Manifest where
  "leak_child = branch_manifest ''p'' ((root_manifest \<lparr>cDimension = 2, cMetric = ''cosine'',
     cTextField = []\<rparr>)\<lparr>mWALSeq := 1\<rparr>)"

theorem branch_reads_epoch_past_its_fork:
  "fst (resolveIndex ''c'' leak_child (NewWithCapacity (\<lambda>k. k) \<lparr>bstore =
      snd (MemStore_Put MemStore_New (manifestKey ''p'') (WManifest leak_parent)), bevents = []\<rparr> 0))
   = Inr (''p'', mIndexEpoch leak_parent) \<and> mIndexedUpTo leak_parent = 2 \<and> mForkWALSeq leak_child = 1"
  by code_simp

end
