(* ===== verification/Namespace.thy ===== *)
theory Namespace
  imports Branch
begin

text \<open>
  The write path of a namespace (\<open>namespace.go\<close>): validation, the claim of a WAL slot, and the
  manifest update that publishes it.  \<open>Create\<close>, \<open>Branch\<close> and \<open>Info\<close> hand on to the manifest.
\<close>

definition maxUpsertAttempts :: nat where
  "maxUpsertAttempts = 64"

text \<open>The name of the offending document, its dimension and that of the namespace.\<close>

fun validateDocs :: "int \<Rightarrow> Document list \<Rightarrow> err + unit" where
  "validateDocs dimn [] = Inr ()"
| "validateDocs dimn (d # ds) = (case dVector d of
     Some v \<Rightarrow> if int (length v) \<noteq> dimn then Inl (BadDimension (dID d) (length v) dimn)
               else validateDocs dimn ds
   | None \<Rightarrow> validateDocs dimn ds)"

definition liveDelta :: "Document list \<Rightarrow> int" where
  "liveDelta docs = foldl (\<lambda>n d. if dDeleted d then n - 1 else n + 1) 0 docs"

text \<open>The claim loop: the first argument is the number of attempts that remain.\<close>

fun claim_loop :: "nat \<Rightarrow> string \<Rightarrow> int \<Rightarrow> Document list \<Rightarrow> db \<Rightarrow> (err + int) \<times> db" where
  "claim_loop 0 ns seq docs s = (Inl ExhaustedAppend, s)"
| "claim_loop (Suc n) ns seq docs s = (case AppendWAL ns seq docs s of
     (Inr _, s) \<Rightarrow> (Inr seq, s)
   | (Inl e, s) \<Rightarrow>
       if \<not> is_precondition e then (Inl e, s) else claim_loop n ns (seq + 1) docs s)"

definition advance_to :: "int \<Rightarrow> int \<Rightarrow> Manifest \<Rightarrow> Manifest" where
  "advance_to committedSeq delta m =
     (let m = (if committedSeq + 1 > mWALSeq m then m\<lparr>mWALSeq := committedSeq + 1\<rparr> else m);
          m = m\<lparr>mDocCount := mDocCount m + delta\<rparr>
      in if mDocCount m < 0 then m\<lparr>mDocCount := 0\<rparr> else m)"

definition commitBatch :: "string \<Rightarrow> int \<Rightarrow> Document list \<Rightarrow> db \<Rightarrow> (err + unit) \<times> db" where
  "commitBatch ns seqHint docs s = (case claim_loop maxUpsertAttempts ns seqHint docs s of
     (Inl e, s) \<Rightarrow> (Inl e, s)
   | (Inr committedSeq, s) \<Rightarrow>
       (case SaveManifestCAS ns (advance_to committedSeq (liveDelta docs)) s of
          (Inl e, s) \<Rightarrow> (Inl e, s)
        | (Inr m, s) \<Rightarrow> (Inr (), s)))"

definition Upsert :: "string \<Rightarrow> Document list \<Rightarrow> db \<Rightarrow> (err + unit) \<times> db" where
  "Upsert ns docs s =
     (if docs = [] then (Inr (), s)
      else (case LoadManifest ns s of
        (Inl e, s) \<Rightarrow> (Inl e, s)
      | (Inr (m, etag), s) \<Rightarrow> (case validateDocs (mDimension m) docs of
          Inl e \<Rightarrow> (Inl e, s)
        | Inr _ \<Rightarrow> commitBatch ns (mWALSeq m) docs s)))"

definition Namespace_Create :: "string \<Rightarrow> NamespaceConfig \<Rightarrow> db \<Rightarrow> (err + unit) \<times> db" where
  "Namespace_Create = CreateManifest"

definition Namespace_Branch :: "string \<Rightarrow> string \<Rightarrow> db \<Rightarrow> (err + unit) \<times> db" where
  "Namespace_Branch name child = BranchFrom name child"

definition Info :: "string \<Rightarrow> db \<Rightarrow> (err + Manifest) \<times> db" where
  "Info ns s = (case LoadManifest ns s of
     (Inl e, s) \<Rightarrow> (Inl e, s)
   | (Inr (m, etag), s) \<Rightarrow> (Inr m, s))"

lemma advance_to_simps [simp]:
  "mWALSeq (advance_to c d m) = max (mWALSeq m) (c + 1)" "mParent (advance_to c d m) = mParent m"
  "mForkWALSeq (advance_to c d m) = mForkWALSeq m" "mForkIndexEpoch (advance_to c d m) = mForkIndexEpoch m"
  "mDimension (advance_to c d m) = mDimension m" "mMetric (advance_to c d m) = mMetric m"
  "mTextField (advance_to c d m) = mTextField m" "mIndexedUpTo (advance_to c d m) = mIndexedUpTo m"
  "mIndexEpoch (advance_to c d m) = mIndexEpoch m" "mVersion (advance_to c d m) = mVersion m"
  "mDocCount (advance_to c d m) = max 0 (mDocCount m + d)"
  by (auto simp: advance_to_def Let_def max_def)

text \<open>Validation accepts exactly the batches in which every present vector has the dimension.\<close>

lemma validateDocs_iff:
  "validateDocs dimn docs = Inr () \<longleftrightarrow> (\<forall>d \<in> set docs. \<forall>v. dVector d = Some v \<longrightarrow> int (length v) = dimn)"
  by (induction docs) (auto split: option.splits)

text \<open>
  The comment on \<open>Upsert\<close> says that a nil or zero-length vector is allowed, as a text-only document.
  A vector that is empty but not nil is rejected by any namespace with vectors.
\<close>

theorem empty_vector_is_rejected:
  "validateDocs 2 [\<lparr>dID = ''a'', dVector = Some [], dAttributes = [], dDeleted = False\<rparr>] =
     Inl (BadDimension ''a'' 0 2)"
  by simp

end
