(* ===== verification/Protocol.thy ===== *)
theory Protocol
  imports Namespace
begin

text \<open>
  The protocol that any number of processes run on one bucket.  The only shared state is the store;
  a process is a sequence of requests, and each request that has an effect is one of the steps below.
  \<open>pstep\<close> is that abstract protocol, \<open>pinv\<close> its invariant: log segments are written once, the
  segments a manifest advertises are there, and branch chains reach a root.  The second half shows
  that the operations of the engine, interleaved with anybody else's steps, only make such steps,
  and what a successful upsert has then achieved.
\<close>

section \<open>Writes that succeed\<close>

lemma MemStore_PutIfAbsent_Inr:
  assumes "memstore_ok m" "MemStore_PutIfAbsent m k b = (Inr e, m')"
  shows "MemStore_Get m k = Inl ErrNotFound \<and> memstore_ok m' \<and> wrote MemStore_Get used_etags m k b e m'"
proof -
  have none: "MemStore_Get m k = Inl ErrNotFound"
    using assms(2) by (auto simp: MemStore_PutIfAbsent_def MemStore_Get_def split: option.splits)
  with mem.absent_free [OF assms(1) none, of b] assms(2) show ?thesis by auto
qed

lemma MemStore_PutCAS_Inr:
  assumes "memstore_ok m" "MemStore_PutCAS m k b e0 = (Inr e, m')"
  shows "(\<exists>b0. MemStore_Get m k = Inr (b0, e0)) \<and> memstore_ok m' \<and> wrote MemStore_Get used_etags m k b e m'"
proof -
  obtain b0 where b0: "MemStore_Get m k = Inr (b0, e0)"
    using mem.cas_iff [OF assms(1), of k b e0] assms(2) by blast
  with mem.cas_match [OF assms(1) b0, of b] assms(2) show ?thesis by auto
qed

lemma MemStore_Put_Inr:
  assumes "memstore_ok m" "MemStore_Put m k b = (r, m')"
  shows "\<exists>e. r = Inr e \<and> memstore_ok m' \<and> wrote MemStore_Get used_etags m k b e m'"
  using mem.put_always [OF assms(1), of k b] assms(2) by auto

lemma MemStore_PutIfAbsent_Inl:
  "MemStore_PutIfAbsent m k b = (Inl e, m') \<Longrightarrow> m' = m \<and> e = ErrPreconditionFailed \<and> (\<exists>x. MemStore_Get m k = Inr x)"
  by (auto simp: MemStore_PutIfAbsent_def MemStore_Get_def Let_def split: option.splits prod.splits)

lemma MemStore_PutCAS_Inl:
  "MemStore_PutCAS m k b e0 = (Inl e, m') \<Longrightarrow> m' = m \<and> e = ErrPreconditionFailed"
  by (auto simp: MemStore_PutCAS_def Let_def split: option.splits prod.splits if_splits)

lemma wrote_get: "wrote MemStore_Get used_etags m k b e m' \<Longrightarrow>
    MemStore_Get m' k' = (if k' = k then Inr (b, e) else MemStore_Get m k')"
  by (auto simp: wrote_def)

section \<open>The abstract protocol\<close>

text \<open>What an update of a manifest may change.\<close>

definition manifest_le :: "Manifest \<Rightarrow> Manifest \<Rightarrow> bool" where
  "manifest_le a b \<longleftrightarrow> mParent b = mParent a \<and> mForkWALSeq b = mForkWALSeq a \<and>
     mForkIndexEpoch b = mForkIndexEpoch a \<and> mDimension b = mDimension a \<and> mMetric b = mMetric a \<and>
     mTextField b = mTextField a \<and> mWALSeq a \<le> mWALSeq b \<and> mVersion a \<le> mVersion b"

definition counters_ok :: "Manifest \<Rightarrow> bool" where
  "counters_ok m \<longleftrightarrow> 0 \<le> fork_of m \<and> fork_of m \<le> mWALSeq m \<and> 0 \<le> mIndexedUpTo m \<and>
     mIndexedUpTo m \<le> mWALSeq m \<and> 0 \<le> mDocCount m \<and> 1 \<le> mVersion m"

text \<open>The shared queue never holds two jobs for one namespace.\<close>

definition queue_ok :: "Queue \<Rightarrow> bool" where
  "queue_ok q \<longleftrightarrow> distinct (map jNamespace (qJobs q))"

inductive pstep :: "wire MemStore \<Rightarrow> wire MemStore \<Rightarrow> bool" where
  create:
    "pstep m m'"
    if "MemStore_PutIfAbsent m (manifestKey ns) (WManifest (root_manifest cfg)) = (Inr e, m')"
| fork:
    "pstep m m'"
    if "manifest_at m parent = Some pm" and "parent \<noteq> []" and "mParent cm = parent"
      and "fork_of pm \<le> mForkWALSeq cm" and "mForkWALSeq cm \<le> mWALSeq pm"
      and "mWALSeq cm = mForkWALSeq cm" and "counters_ok cm"
      and "MemStore_PutIfAbsent m (manifestKey child) (WManifest cm) = (Inr e, m')"
| append:
    "pstep m m'"
    if "0 \<le> i" and "sSeq seg = i" and "MemStore_PutIfAbsent m (walKey ns i) (WSegment seg) = (Inr e, m')"
| advance:
    "pstep m m'"
    if "MemStore_Get m (manifestKey ns) = Inr (WManifest m0, e0)" and "manifest_le m0 m1"
      and "mVersion m1 = mVersion m0 + 1" and "counters_ok m1"
      and "has_segs m ns (fork_of m0) (mWALSeq m1)"
      and "MemStore_PutCAS m (manifestKey ns) (WManifest m1) e0 = (Inr e, m')"
| index:
    "pstep m m'"
    if "MemStore_Put m (indexKey ns ep ob) b = (Inr e, m')"
| queue_create:
    "pstep m m'"
    if "queue_ok q" and "MemStore_PutIfAbsent m queueKey (WQueue q) = (Inr e, m')"
| queue_update:
    "pstep m m'"
    if "queue_ok q" and "MemStore_PutCAS m queueKey (WQueue q) e0 = (Inr e, m')"

text \<open>The effect of a step on the two kinds of objects that the protocol is about.\<close>

lemma seg_at_wrote:
  "wrote MemStore_Get used_etags m k b e m' \<Longrightarrow> walKey ns i \<noteq> k \<Longrightarrow> seg_at m' ns i = seg_at m ns i"
  by (simp add: seg_at_def wrote_get)

lemma manifest_at_wrote:
  "wrote MemStore_Get used_etags m k b e m' \<Longrightarrow> manifestKey ns \<noteq> k \<Longrightarrow> manifest_at m' ns = manifest_at m ns"
  by (simp add: manifest_at_def wrote_get)

lemma manifest_at_written:
  "wrote MemStore_Get used_etags m (manifestKey ns) (WManifest mf) e m' \<Longrightarrow>
   manifest_at m' ns' = (if ns' = ns then Some mf else manifest_at m ns')"
  by (simp add: manifest_at_def wrote_get)

lemma seg_at_written:
  "wrote MemStore_Get used_etags m (walKey ns i) (WSegment seg) e m' \<Longrightarrow> 0 \<le> i \<Longrightarrow> 0 \<le> j \<Longrightarrow>
   seg_at m' ns' j = (if ns' = ns \<and> j = i then Some seg else seg_at m ns' j)"
  by (simp add: seg_at_def wrote_get walKey_inject)

lemma manifest_at_None: "MemStore_Get m (manifestKey ns) = Inl x \<Longrightarrow> manifest_at m ns = None"
  by (simp add: manifest_at_def)

lemma seg_at_None: "MemStore_Get m (walKey ns i) = Inl x \<Longrightarrow> seg_at m ns i = None"
  by (simp add: seg_at_def)

lemma manifest_at_Some: "MemStore_Get m (manifestKey ns) = Inr (WManifest mf, e) \<Longrightarrow> manifest_at m ns = Some mf"
  by (simp add: manifest_at_def)

text \<open>A step, classified by what it wrote.\<close>

lemma pstep_cases:
  assumes "pstep m m'" "memstore_ok m"
  obtains (new_manifest) ns mf e where "manifest_at m ns = None" "memstore_ok m'"
      "wrote MemStore_Get used_etags m (manifestKey ns) (WManifest mf) e m'"
      "(\<exists>cfg. mf = root_manifest cfg) \<or> (\<exists>pm. mParent mf \<noteq> [] \<and> manifest_at m (mParent mf) = Some pm \<and>
         fork_of pm \<le> mForkWALSeq mf \<and> mForkWALSeq mf \<le> mWALSeq pm \<and> mWALSeq mf = mForkWALSeq mf \<and>
         counters_ok mf)"
  | (new_segment) ns i seg e where "seg_at m ns i = None" "memstore_ok m'" "0 \<le> i" "sSeq seg = i"
      "wrote MemStore_Get used_etags m (walKey ns i) (WSegment seg) e m'"
  | (new_version) ns m0 m1 e where "manifest_at m ns = Some m0" "memstore_ok m'" "manifest_le m0 m1"
      "counters_ok m1" "has_segs m ns (fork_of m0) (mWALSeq m1)"
      "wrote MemStore_Get used_etags m (manifestKey ns) (WManifest m1) e m'"
  | (other) k b e where "memstore_ok m'" "wrote MemStore_Get used_etags m k b e m'"
      "\<And>ns. k \<noteq> manifestKey ns" "\<And>ns i. 0 \<le> i \<Longrightarrow> k \<noteq> walKey ns i"
      "k = queueKey \<Longrightarrow> \<exists>q. b = WQueue q \<and> queue_ok q"
  using assms(1)
proof cases
  case (create ns cfg e)
  from MemStore_PutIfAbsent_Inr [OF assms(2) create] manifest_at_None new_manifest show ?thesis by blast
next
  case (fork parent pm cm child e)
  from MemStore_PutIfAbsent_Inr [OF assms(2) fork(8)] manifest_at_None new_manifest fork show ?thesis by blast
next
  case (append i seg ns e)
  from MemStore_PutIfAbsent_Inr [OF assms(2) append(3)] seg_at_None new_segment append show ?thesis by blast
next
  case (advance ns m0 e0 m1 e)
  from MemStore_PutCAS_Inr [OF assms(2) advance(6)] manifest_at_Some new_version advance show ?thesis by blast
next
  case (index ns ep ob b e)
  from MemStore_Put_Inr [OF assms(2) index] have "memstore_ok m'"
    "wrote MemStore_Get used_etags m (indexKey ns ep ob) b e m'" by auto
  from other [OF this] show ?thesis by simp
next
  case (queue_create q e)
  from MemStore_PutIfAbsent_Inr [OF assms(2) queue_create(2)] have "memstore_ok m'"
    "wrote MemStore_Get used_etags m queueKey (WQueue q) e m'" by auto
  from other [OF this] queue_create(1) show ?thesis by simp
next
  case (queue_update q e0 e)
  from MemStore_PutCAS_Inr [OF assms(2) queue_update(2)] have "memstore_ok m'"
    "wrote MemStore_Get used_etags m queueKey (WQueue q) e m'" by auto
  from other [OF this] queue_update(1) show ?thesis by simp
qed

section \<open>What steps keep\<close>

definition ext :: "wire MemStore \<Rightarrow> wire MemStore \<Rightarrow> bool" where
  "ext m m' \<longleftrightarrow> (\<forall>ns i seg. 0 \<le> i \<longrightarrow> seg_at m ns i = Some seg \<longrightarrow> seg_at m' ns i = Some seg) \<and>
     (\<forall>ns mf. manifest_at m ns = Some mf \<longrightarrow> (\<exists>mf'. manifest_at m' ns = Some mf' \<and> manifest_le mf mf'))"

lemma manifest_le_refl [simp]: "manifest_le a a"
  by (simp add: manifest_le_def)

lemma manifest_le_trans: "manifest_le a b \<Longrightarrow> manifest_le b c \<Longrightarrow> manifest_le a c"
  by (simp add: manifest_le_def)

lemma manifest_le_fork: "manifest_le a b \<Longrightarrow> fork_of b = fork_of a \<and> IsBranch b = IsBranch a"
  by (simp add: manifest_le_def fork_of_def IsBranch_def)

lemma ext_refl [simp]: "ext m m"
  by (auto simp: ext_def)

lemma ext_trans:
  assumes "ext a b" "ext b c"
  shows "ext a c"
proof -
  have "\<exists>mf'. manifest_at c ns = Some mf' \<and> manifest_le mf mf'" if at_a: "manifest_at a ns = Some mf" for ns mf
  proof -
    from assms(1) at_a obtain mf1 where mf1: "manifest_at b ns = Some mf1" "manifest_le mf mf1"
      unfolding ext_def by blast
    with assms(2) obtain mf2 where "manifest_at c ns = Some mf2" "manifest_le mf1 mf2"
      unfolding ext_def by blast
    with mf1(2) manifest_le_trans show ?thesis by blast
  qed
  then show ?thesis using assms unfolding ext_def by simp
qed

lemma extD:
  assumes "ext m m'"
  shows "0 \<le> i \<Longrightarrow> seg_at m ns i = Some seg \<Longrightarrow> seg_at m' ns i = Some seg"
    and "manifest_at m ns = Some mf \<Longrightarrow> \<exists>mf'. manifest_at m' ns = Some mf' \<and> manifest_le mf mf'"
  using assms unfolding ext_def by blast+

lemma ext_has_segs:
  assumes "ext m m'" "0 \<le> i" "has_segs m ns i j"
  shows "has_segs m' ns i j"
  unfolding has_segs_def
proof (intro allI impI)
  fix k assume k: "i \<le> k \<and> k < j"
  with assms(3) obtain seg where "seg_at m ns k = Some seg" unfolding has_segs_def by blast
  with extD(1) [OF assms(1)] k assms(2) show "seg_at m' ns k \<noteq> None" by fastforce
qed

lemma pstep_ext:
  assumes "pstep m m'" "memstore_ok m"
  shows "ext m m'"
proof (cases rule: pstep_cases [OF assms, case_names new_manifest new_segment new_version other])
  case (new_manifest ns mf e)
  have "seg_at m' ns' i = seg_at m ns' i" if "0 \<le> i" for ns' i
    using seg_at_wrote [OF new_manifest(3)] that by simp
  with new_manifest(1) show ?thesis
    unfolding ext_def by (auto simp: manifest_at_written [OF new_manifest(3)])
next
  case (new_segment ns i seg e)
  have "manifest_at m' ns' = manifest_at m ns'" for ns'
    using manifest_at_wrote [OF new_segment(5)] new_segment(3) by simp
  with new_segment(1,3) show ?thesis
    unfolding ext_def by (auto simp: seg_at_written [OF new_segment(5,3)])
next
  case (new_version ns m0 m1 e)
  have "seg_at m' ns' i = seg_at m ns' i" if "0 \<le> i" for ns' i
    using seg_at_wrote [OF new_version(6)] that by simp
  with new_version(1,3) show ?thesis
    unfolding ext_def by (auto simp: manifest_at_written [OF new_version(6)])
next
  case (other k b e)
  have "seg_at m' ns' i = seg_at m ns' i" if "0 \<le> i" for ns' i
    using seg_at_wrote [OF other(2)] other(4) [OF that] by metis
  moreover have "manifest_at m' ns' = manifest_at m ns'" for ns'
    using manifest_at_wrote [OF other(2)] other(3) by metis
  ultimately show ?thesis unfolding ext_def by auto
qed

section \<open>The invariant\<close>

text \<open>\<open>rank\<close> decreases from a branch to its parent, so no chain is a cycle.\<close>

definition node_ok :: "wire MemStore \<Rightarrow> (string \<Rightarrow> nat) \<Rightarrow> string \<Rightarrow> Manifest \<Rightarrow> bool" where
  "node_ok m rank ns mf \<longleftrightarrow> counters_ok mf \<and> has_segs m ns (fork_of mf) (mWALSeq mf) \<and>
     (IsBranch mf \<longrightarrow> rank (mParent mf) < rank ns \<and> (\<exists>pm. manifest_at m (mParent mf) = Some pm \<and>
        fork_of pm \<le> mForkWALSeq mf \<and> mForkWALSeq mf \<le> mWALSeq pm))"

definition typed :: "wire MemStore \<Rightarrow> bool" where
  "typed m \<longleftrightarrow> (\<forall>ns b e. MemStore_Get m (manifestKey ns) = Inr (b, e) \<longrightarrow> (\<exists>mf. b = WManifest mf)) \<and>
     (\<forall>ns i b e. 0 \<le> i \<longrightarrow> MemStore_Get m (walKey ns i) = Inr (b, e) \<longrightarrow> (\<exists>seg. b = WSegment seg \<and> sSeq seg = i)) \<and>
     (\<forall>b e. MemStore_Get m queueKey = Inr (b, e) \<longrightarrow> (\<exists>q. b = WQueue q \<and> queue_ok q))"

definition pinv :: "wire MemStore \<Rightarrow> bool" where
  "pinv m \<longleftrightarrow> memstore_ok m \<and> typed m \<and>
     (\<exists>rank. \<forall>ns mf. manifest_at m ns = Some mf \<longrightarrow> node_ok m rank ns mf)"

lemma counters_fork: "counters_ok mf \<Longrightarrow> 0 \<le> fork_of mf"
  by (simp add: counters_ok_def)

lemma node_ok_ext:
  assumes "ext m m'" "node_ok m rank ns mf"
  shows "node_ok m' rank ns mf"
proof -
  have "has_segs m' ns (fork_of mf) (mWALSeq mf)"
    using assms ext_has_segs [OF assms(1)] by (simp add: node_ok_def counters_fork)
  moreover have "\<exists>pm. manifest_at m' (mParent mf) = Some pm \<and> fork_of pm \<le> mForkWALSeq mf \<and>
      mForkWALSeq mf \<le> mWALSeq pm" if "IsBranch mf"
  proof -
    from that assms(2) obtain pm where pm: "manifest_at m (mParent mf) = Some pm"
      "fork_of pm \<le> mForkWALSeq mf" "mForkWALSeq mf \<le> mWALSeq pm" by (auto simp: node_ok_def)
    from extD(2) [OF assms(1) pm(1)] obtain pm' where "manifest_at m' (mParent mf) = Some pm'"
      "manifest_le pm pm'" by blast
    with pm manifest_le_fork show ?thesis by (fastforce simp: manifest_le_def)
  qed
  ultimately show ?thesis using assms(2) by (simp add: node_ok_def)
qed

lemma root_counters [simp]: "counters_ok (root_manifest cfg)" "\<not> IsBranch (root_manifest cfg)"
  "fork_of (root_manifest cfg) = 0" "mWALSeq (root_manifest cfg) = 0"
  by (simp_all add: counters_ok_def root_manifest_def fork_of_def IsBranch_def)

lemma has_segs_empty [simp]: "j \<le> i \<Longrightarrow> has_segs m ns i j"
  by (auto simp: has_segs_def)

lemma typedI:
  assumes "typed m" "wrote MemStore_Get used_etags m k b e m'"
    and "\<And>ns. k = manifestKey ns \<Longrightarrow> \<exists>mf. b = WManifest mf"
    and "\<And>ns i. 0 \<le> i \<Longrightarrow> k = walKey ns i \<Longrightarrow> \<exists>seg. b = WSegment seg \<and> sSeq seg = i"
    and "k = queueKey \<Longrightarrow> \<exists>q. b = WQueue q \<and> queue_ok q"
  shows "typed m'"
  unfolding typed_def
proof (intro conjI allI impI)
  show "\<exists>mf. b' = WManifest mf" if "MemStore_Get m' (manifestKey ns) = Inr (b', e')" for ns b' e'
  proof (cases "k = manifestKey ns")
    case False
    then have "MemStore_Get m (manifestKey ns) = Inr (b', e')"
      using that unfolding wrote_get [OF assms(2)] by auto
    with assms(1) show ?thesis unfolding typed_def by blast
  qed (use that assms(3) wrote_get [OF assms(2)] in auto)
  show "\<exists>seg. b' = WSegment seg \<and> sSeq seg = i"
    if "0 \<le> i" "MemStore_Get m' (walKey ns i) = Inr (b', e')" for ns i b' e'
  proof (cases "k = walKey ns i")
    case False
    then have "MemStore_Get m (walKey ns i) = Inr (b', e')"
      using that(2) unfolding wrote_get [OF assms(2)] by auto
    with assms(1) that(1) show ?thesis unfolding typed_def by blast
  qed (use that assms(4) wrote_get [OF assms(2)] in auto)
  show "\<exists>q. b' = WQueue q \<and> queue_ok q" if "MemStore_Get m' queueKey = Inr (b', e')" for b' e'
  proof (cases "k = queueKey")
    case False
    then have "MemStore_Get m queueKey = Inr (b', e')"
      using that unfolding wrote_get [OF assms(2)] by auto
    with assms(1) show ?thesis unfolding typed_def by blast
  qed (use that assms(5) wrote_get [OF assms(2)] in auto)
qed

lemma pstep_typed:
  assumes "pstep m m'" "memstore_ok m" "typed m"
  shows "typed m'"
proof (cases rule: pstep_cases [OF assms(1,2), case_names new_manifest new_segment new_version other])
  case (new_manifest ns mf e)
  show ?thesis by (rule typedI [OF assms(3) new_manifest(3)]) auto
next
  case (new_segment ns i seg e)
  show ?thesis
    by (rule typedI [OF assms(3) new_segment(5)]) (use new_segment in \<open>auto simp: walKey_inject\<close>)
next
  case (new_version ns m0 m1 e)
  show ?thesis by (rule typedI [OF assms(3) new_version(6)]) auto
next
  case (other k b e)
  show ?thesis by (rule typedI [OF assms(3) other(2)]) (use other in auto)
qed

lemma pstep_pinv:
  assumes "pstep m m'" "pinv m"
  shows "pinv m'"
proof -
  from assms(2) obtain rank where ok: "memstore_ok m" and ty: "typed m"
    and node: "\<And>ns mf. manifest_at m ns = Some mf \<Longrightarrow> node_ok m rank ns mf"
    by (auto simp: pinv_def)
  note ext = pstep_ext [OF assms(1) ok]
  note ty' = pstep_typed [OF assms(1) ok ty]
  show ?thesis
  proof (cases rule: pstep_cases [OF assms(1) ok, case_names new_manifest new_segment new_version other])
    case (new_manifest ns mf e)
    let ?rank = "rank(ns := Suc (rank (mParent mf)))"
    have "node_ok m' ?rank ns' mf'" if at': "manifest_at m' ns' = Some mf'" for ns' mf'
    proof (cases "ns' = ns")
      case True
      with at' have mf': "mf' = mf" by (simp add: manifest_at_written [OF new_manifest(3)])
      from new_manifest(4) show ?thesis
      proof (elim disjE exE conjE)
        fix cfg assume "mf = root_manifest cfg"
        then show ?thesis by (simp add: node_ok_def mf')
      next
        fix pm
        assume pm: "mParent mf \<noteq> []" "manifest_at m (mParent mf) = Some pm"
          "fork_of pm \<le> mForkWALSeq mf" "mForkWALSeq mf \<le> mWALSeq pm" "mWALSeq mf = mForkWALSeq mf"
          "counters_ok mf"
        then have "mParent mf \<noteq> ns" using new_manifest(1) by auto
        then have "manifest_at m' (mParent mf) = Some pm"
          using pm(2) by (simp add: manifest_at_written [OF new_manifest(3)])
        moreover have "fork_of mf = mForkWALSeq mf" using pm(1) by (simp add: fork_of_def IsBranch_def)
        ultimately show ?thesis
          using pm True \<open>mParent mf \<noteq> ns\<close> by (simp add: node_ok_def mf')
      qed
    next
      case False
      with at' have at0: "manifest_at m ns' = Some mf'" by (simp add: manifest_at_written [OF new_manifest(3)])
      have "mParent mf' \<noteq> ns" if "IsBranch mf'"
        using node [OF at0] that new_manifest(1) by (auto simp: node_ok_def)
      with node_ok_ext [OF ext node [OF at0]] False show ?thesis by (auto simp: node_ok_def)
    qed
    with new_manifest(2) show ?thesis using ty' by (auto simp: pinv_def)
  next
    case (new_segment ns i seg e)
    have "manifest_at m' ns' = manifest_at m ns'" for ns'
      using manifest_at_wrote [OF new_segment(5)] new_segment(3) by simp
    with node_ok_ext [OF ext node] new_segment(2) show ?thesis using ty' unfolding pinv_def by metis
  next
    case (new_version ns m0 m1 e)
    have "node_ok m' rank ns' mf'" if at': "manifest_at m' ns' = Some mf'" for ns' mf'
    proof (cases "ns' = ns")
      case True
      with at' have mf': "mf' = m1" by (simp add: manifest_at_written [OF new_version(6)])
      have n: "node_ok m' rank ns m0" by (rule node_ok_ext [OF ext node [OF new_version(1)]])
      have le: "fork_of m1 = fork_of m0" "IsBranch m1 = IsBranch m0" "mParent m1 = mParent m0"
        "mForkWALSeq m1 = mForkWALSeq m0"
        using new_version(3) manifest_le_fork by (auto simp: manifest_le_def)
      have "0 \<le> fork_of m0" using n by (simp add: node_ok_def counters_fork)
      then have "has_segs m' ns (fork_of m1) (mWALSeq m1)"
        using ext_has_segs [OF ext _ new_version(5)] le by simp
      then show ?thesis using n new_version(4) True unfolding node_ok_def mf' by (simp add: le)
    next
      case False
      with at' have "manifest_at m ns' = Some mf'" by (simp add: manifest_at_written [OF new_version(6)])
      then show ?thesis by (rule node_ok_ext [OF ext node])
    qed
    with new_version(2) show ?thesis using ty' by (auto simp: pinv_def)
  next
    case (other k b e)
    have "manifest_at m' ns' = manifest_at m ns'" for ns'
      using manifest_at_wrote [OF other(2)] other(3) by metis
    with node_ok_ext [OF ext node] other(1) show ?thesis using ty' unfolding pinv_def by metis
  qed
qed

abbreviation psteps :: "wire MemStore \<Rightarrow> wire MemStore \<Rightarrow> bool" where
  "psteps \<equiv> pstep\<^sup>*\<^sup>*"

lemma psteps_pinv: "psteps m m' \<Longrightarrow> pinv m \<Longrightarrow> pinv m'"
  by (induction rule: rtranclp_induct) (auto intro: pstep_pinv)

lemma pinv_ok: "pinv m \<Longrightarrow> memstore_ok m"
  by (simp add: pinv_def)

lemma psteps_ext: "psteps m m' \<Longrightarrow> pinv m \<Longrightarrow> ext m m'"
proof (induction rule: rtranclp_induct)
  case (step y z)
  then have "pinv y" using psteps_pinv by blast
  with step show ?case using ext_trans pstep_ext pinv_ok by blast
qed simp

lemma pinv_New: "pinv MemStore_New"
proof -
  have "manifest_at MemStore_New ns = None" for ns
    by (simp add: manifest_at_def MemStore_Get_def MemStore_New_def)
  moreover have "typed MemStore_New"
    by (simp add: typed_def MemStore_Get_def MemStore_New_def)
  ultimately show ?thesis by (simp add: pinv_def)
qed

section \<open>Requests as protocol steps\<close>

text \<open>
  \<open>fair b\<close>: the store satisfies the invariant and all that the other clients do, between two requests
  of this one, is a sequence of protocol steps.
\<close>

definition fair :: "wire Backend \<Rightarrow> bool" where
  "fair b \<longleftrightarrow> pinv (bstore b) \<and> (\<forall>ev \<in> set (bevents b). \<forall>m. pinv m \<longrightarrow> psteps m (others ev m))"

abbreviation db_fair :: "db \<Rightarrow> bool" where
  "db_fair s \<equiv> fair (sBackend s)"

lemma fair_pinv: "fair b \<Longrightarrow> pinv (bstore b)"
  by (simp add: fair_def)

lemma next_event_fair:
  assumes "fair b" "next_event b = (x, b')"
  shows "psteps (bstore b) (bstore b') \<and> fair b'"
proof (cases "bevents b")
  case Nil
  with assms show ?thesis by (simp add: next_event_def)
next
  case (Cons ev es)
  obtain f y where ev: "ev = Event f y" by (cases ev)
  with Cons assms(2) have b': "b' = \<lparr>bstore = f (bstore b), bevents = es\<rparr>" by (simp add: next_event_def)
  have "psteps (bstore b) (f (bstore b))" using assms(1) Cons ev by (auto simp: fair_def)
  moreover from this have "pinv (f (bstore b))" by (rule psteps_pinv) (rule fair_pinv [OF assms(1)])
  ultimately show ?thesis using assms(1) Cons by (simp add: b' fair_def)
qed

lemma fair_update: "fair b \<Longrightarrow> pinv m \<Longrightarrow> fair (b\<lparr>bstore := m\<rparr>)"
  by (simp add: fair_def)

text \<open>
  A request whose effect is a protocol step keeps all this; and a reply other than a lost one is the
  store's, at a moment that the protocol reaches.
\<close>

lemma deliver_fair:
  assumes "fair b" "deliver op b = (r, b')"
    and op: "\<And>m. psteps (bstore b) m \<Longrightarrow> psteps m (snd (op m))"
  shows "psteps (bstore b) (bstore b') \<and> fair b' \<and>
    (r \<noteq> Inl ErrOther \<longrightarrow> (\<exists>m. psteps (bstore b) m \<and> pinv m \<and> op m = (r, bstore b')))"
  using assms(2)
proof (cases rule: deliver_cases)
  case (served b0 m)
  from next_event_fair [OF assms(1) served(1)] have b0: "psteps (bstore b) (bstore b0)" "fair b0" by auto
  from op [OF b0(1)] served(2) have m: "psteps (bstore b0) m" by simp
  with b0(2) have "pinv m" by (blast intro: psteps_pinv fair_pinv)
  with b0 m served show ?thesis using fair_update [OF b0(2), of m] fair_pinv [OF b0(2)] by auto
next
  case (lost b0)
  from next_event_fair [OF assms(1) lost(1)] lost show ?thesis by simp
next
  case (unanswered b0 r' m)
  from next_event_fair [OF assms(1) unanswered(1)] have b0: "psteps (bstore b) (bstore b0)" "fair b0" by auto
  from op [OF b0(1)] unanswered(3) have m: "psteps (bstore b0) m" by simp
  with b0(2) have "pinv m" by (blast intro: psteps_pinv fair_pinv)
  with b0 m unanswered show ?thesis using fair_update [OF b0(2), of m] by auto
qed

lemma Store_Get_fair:
  assumes "db_fair s" "Store_Get key s = (r, s')"
  shows "psteps (mem_of s) (mem_of s') \<and> db_fair s' \<and>
    (r \<noteq> Inl ErrOther \<longrightarrow> r = MemStore_Get (mem_of s') key)"
proof -
  have "deliver (\<lambda>m. (MemStore_Get m key, m)) (sBackend s) = (r, sBackend s')"
    using assms(2) by (simp add: Store_Get_def on_backend_eq Backend_Get_def)
  from deliver_fair [OF assms(1) this] show ?thesis by auto
qed

lemma Store_PutIfAbsent_fair:
  assumes "db_fair s" "Store_PutIfAbsent key b s = (r, s')"
    and "\<And>m m' e. psteps (mem_of s) m \<Longrightarrow> pinv m \<Longrightarrow> MemStore_PutIfAbsent m key b = (Inr e, m') \<Longrightarrow> pstep m m'"
  shows "psteps (mem_of s) (mem_of s') \<and> db_fair s' \<and>
    (r \<noteq> Inl ErrOther \<longrightarrow> (\<exists>m. psteps (mem_of s) m \<and> pinv m \<and> MemStore_PutIfAbsent m key b = (r, mem_of s')))"
proof -
  have d: "deliver (\<lambda>m. MemStore_PutIfAbsent m key b) (sBackend s) = (r, sBackend s')"
    using assms(2) by (simp add: Store_PutIfAbsent_def on_backend_eq Backend_PutIfAbsent_def)
  have "psteps m (snd (MemStore_PutIfAbsent m key b))" if m: "psteps (mem_of s) m" for m
  proof (cases "MemStore_PutIfAbsent m key b")
    case (Pair r1 m1)
    then show ?thesis
    proof (cases r1)
      case (Inl e)
      with Pair MemStore_PutIfAbsent_Inl [of m key b e m1] show ?thesis by simp
    next
      case (Inr e)
      have "pinv m" using psteps_pinv [OF m fair_pinv [OF assms(1)]] .
      with Pair Inr assms(3) [OF m] show ?thesis by auto
    qed
  qed
  from deliver_fair [OF assms(1) d this] show ?thesis by simp
qed

lemma Store_PutCAS_fair:
  assumes "db_fair s" "Store_PutCAS key b e0 s = (r, s')"
    and "\<And>m m' e. psteps (mem_of s) m \<Longrightarrow> pinv m \<Longrightarrow> MemStore_PutCAS m key b e0 = (Inr e, m') \<Longrightarrow> pstep m m'"
  shows "psteps (mem_of s) (mem_of s') \<and> db_fair s' \<and>
    (r \<noteq> Inl ErrOther \<longrightarrow> (\<exists>m. psteps (mem_of s) m \<and> pinv m \<and> MemStore_PutCAS m key b e0 = (r, mem_of s')))"
proof -
  have d: "deliver (\<lambda>m. MemStore_PutCAS m key b e0) (sBackend s) = (r, sBackend s')"
    using assms(2) by (simp add: Store_PutCAS_def on_backend_eq Backend_PutCAS_def)
  have "psteps m (snd (MemStore_PutCAS m key b e0))" if m: "psteps (mem_of s) m" for m
  proof (cases "MemStore_PutCAS m key b e0")
    case (Pair r1 m1)
    then show ?thesis
    proof (cases r1)
      case (Inl e)
      with Pair MemStore_PutCAS_Inl [of m key b e0 e m1] show ?thesis by simp
    next
      case (Inr e)
      have "pinv m" using psteps_pinv [OF m fair_pinv [OF assms(1)]] .
      with Pair Inr assms(3) [OF m] show ?thesis by auto
    qed
  qed
  from deliver_fair [OF assms(1) d this] show ?thesis by simp
qed

text \<open>An ETag that was read once names one body for ever.\<close>

lemma pstep_etag:
  assumes "pstep m m'" "memstore_ok m"
  shows "memstore_ok m' \<and> used_etags m \<subseteq> used_etags m' \<and>
    (\<forall>e \<in> used_etags m. \<forall>b k. MemStore_Get m' k = Inr (b, e) \<longrightarrow> MemStore_Get m k = Inr (b, e))"
proof -
  obtain k b e where "memstore_ok m'" "wrote MemStore_Get used_etags m k b e m'"
    by (cases rule: pstep_cases [OF assms, case_names new_manifest new_segment new_version other]) blast+
  then show ?thesis by (auto simp: wrote_get wrote_def split: if_splits)
qed

lemma psteps_etag:
  "psteps m m' \<Longrightarrow> pinv m \<Longrightarrow> used_etags m \<subseteq> used_etags m' \<and>
    (\<forall>e \<in> used_etags m. \<forall>b k. MemStore_Get m' k = Inr (b, e) \<longrightarrow> MemStore_Get m k = Inr (b, e))"
proof (induction rule: rtranclp_induct)
  case (step y z)
  from psteps_pinv [OF step.hyps(1) step.prems] have "memstore_ok y" by (rule pinv_ok)
  from pstep_etag [OF step.hyps(2) this] step.IH [OF step.prems] show ?case by blast
qed simp

lemma etag_names_body:
  assumes "psteps m m'" "pinv m" "MemStore_Get m k = Inr (b, e)" "MemStore_Get m' k = Inr (b', e)"
  shows "b' = b"
proof -
  have "e \<in> used_etags m" using mem.get_used [OF pinv_ok [OF assms(2)] assms(3)] .
  with psteps_etag [OF assms(1,2)] assms(4) have "MemStore_Get m k = Inr (b', e)" by blast
  with assms(3) show ?thesis by simp
qed

text \<open>
  So a compare-and-swap that succeeds with an ETag read earlier replaced just the body read then.
\<close>

lemma cas_current:
  assumes "psteps m1 m" "pinv m1" "MemStore_Get m1 k = Inr (b, e)" "MemStore_PutCAS m k b' e = (Inr e', m')"
  shows "MemStore_Get m k = Inr (b, e) \<and> MemStore_Get m' k = Inr (b', e')"
proof -
  have ok: "memstore_ok m" using psteps_pinv [OF assms(1,2)] by (rule pinv_ok)
  from MemStore_PutCAS_Inr [OF ok assms(4)] obtain b0 where b0: "MemStore_Get m k = Inr (b0, e)"
    and w: "wrote MemStore_Get used_etags m k b' e' m'" by blast
  from etag_names_body [OF assms(1-3) b0] b0 wrote_get [OF w, of k] show ?thesis by simp
qed

end
