(* ===== verification/Durability.thy ===== *)
theory Durability
  imports Protocol
begin

text \<open>
  The operations of the engine run the protocol of \<open>Protocol\<close>: create, branch, append, the
  compare-and-swap loop and the upsert, each interleaved with any other clients' steps and with any
  requests or replies lost, only make protocol steps; and what each of them has achieved when it
  returns a success.
\<close>

section \<open>Reading\<close>

lemma LoadManifest_fair:
  assumes "db_fair s" "LoadManifest ns s = (r, s')"
  shows "psteps (mem_of s) (mem_of s') \<and> db_fair s' \<and>
    (\<forall>m e. r = Inr (m, e) \<longrightarrow> MemStore_Get (mem_of s') (manifestKey ns) = Inr (WManifest m, e))"
proof -
  obtain r1 s1 where g: "Store_Get (manifestKey ns) s = (r1, s1)" by (cases "Store_Get (manifestKey ns) s")
  from Store_Get_fair [OF assms(1) g] assms(2) g show ?thesis
    by (auto simp: LoadManifest_def split: sum.splits wire.splits)
qed

lemma ReadWAL_fair:
  assumes "db_fair s" "ReadWAL ns i s = (r, s')"
  shows "psteps (mem_of s) (mem_of s') \<and> db_fair s' \<and> (\<forall>seg. r = Inr seg \<longrightarrow> seg_at (mem_of s') ns i = Some seg)"
proof -
  obtain r1 s1 where g: "Store_Get (walKey ns i) s = (r1, s1)" by (cases "Store_Get (walKey ns i) s")
  from Store_Get_fair [OF assms(1) g] assms(2) g show ?thesis
    by (auto simp: ReadWAL_def seg_at_def split: sum.splits wire.splits)
qed

section \<open>Creating and branching\<close>

lemma CreateManifest_fair:
  assumes "db_fair s" "CreateManifest ns cfg s = (r, s')"
  shows "psteps (mem_of s) (mem_of s') \<and> db_fair s' \<and>
    (r = Inr () \<longrightarrow> manifest_at (mem_of s') ns = Some (root_manifest cfg))"
proof -
  obtain r1 s1 where g: "Store_PutIfAbsent (manifestKey ns) (WManifest (root_manifest cfg)) s = (r1, s1)"
    by (cases "Store_PutIfAbsent (manifestKey ns) (WManifest (root_manifest cfg)) s")
  from Store_PutIfAbsent_fair [OF assms(1) g pstep.create]
  have f: "psteps (mem_of s) (mem_of s1)" "db_fair s1"
    "r1 \<noteq> Inl ErrOther \<Longrightarrow> \<exists>m. psteps (mem_of s) m \<and> pinv m \<and>
      MemStore_PutIfAbsent m (manifestKey ns) (WManifest (root_manifest cfg)) = (r1, mem_of s1)" by auto
  have s1: "s' = s1" "r = Inr () \<longleftrightarrow> (\<exists>e. r1 = Inr e)"
    using assms(2) g by (auto simp: CreateManifest_def split: sum.splits)
  have "manifest_at (mem_of s1) ns = Some (root_manifest cfg)" if "r1 = Inr e" for e
  proof -
    from f(3) that obtain m where "pinv m"
      "MemStore_PutIfAbsent m (manifestKey ns) (WManifest (root_manifest cfg)) = (Inr e, mem_of s1)" by auto
    with MemStore_PutIfAbsent_Inr [OF pinv_ok] manifest_at_written show ?thesis by fastforce
  qed
  with f s1 show ?thesis by auto
qed

lemma branch_manifest_simps [simp]:
  "mParent (branch_manifest p pm) = p" "mForkWALSeq (branch_manifest p pm) = mWALSeq pm"
  "mWALSeq (branch_manifest p pm) = mWALSeq pm" "mIndexedUpTo (branch_manifest p pm) = mIndexedUpTo pm"
  "mDocCount (branch_manifest p pm) = mDocCount pm" "mVersion (branch_manifest p pm) = 1"
  by (simp_all add: branch_manifest_def)

lemma pinv_node:
  assumes "pinv m" "manifest_at m ns = Some mf"
  obtains rank where "node_ok m rank ns mf"
  using assms by (auto simp: pinv_def)

lemma BranchFrom_fair:
  assumes "db_fair s" "BranchFrom parent child s = (r, s')" "parent \<noteq> []"
  shows "psteps (mem_of s) (mem_of s') \<and> db_fair s' \<and>
    (r = Inr () \<longrightarrow> (\<exists>pm mem. psteps (mem_of s) mem \<and> psteps mem (mem_of s') \<and>
      manifest_at mem parent = Some pm \<and> manifest_at (mem_of s') child = Some (branch_manifest parent pm)))"
proof (cases "parent = child")
  case True
  with assms(1,2) show ?thesis by (auto simp: BranchFrom_def)
next
  case False
  obtain r1 s1 where l: "LoadManifest parent s = (r1, s1)" by (cases "LoadManifest parent s")
  note f1 = LoadManifest_fair [OF assms(1) l]
  show ?thesis
  proof (cases r1)
    case (Inl e)
    with assms(2) l False f1 show ?thesis by (auto simp: BranchFrom_def)
  next
    case (Inr x)
    obtain pm e0 where x: "x = (pm, e0)" by (cases x)
    let ?cm = "branch_manifest parent pm"
    obtain r2 s2 where p: "Store_PutIfAbsent (manifestKey child) (WManifest ?cm) s1 = (r2, s2)"
      by (cases "Store_PutIfAbsent (manifestKey child) (WManifest ?cm) s1")
    have s2: "s' = s2" "r = Inr () \<longleftrightarrow> (\<exists>e. r2 = Inr e)"
      using assms(2) l False Inr x p by (auto simp: BranchFrom_def split: sum.splits)
    have at1: "manifest_at (mem_of s1) parent = Some pm" using f1 Inr x by (auto intro: manifest_at_Some)
    have fair1: "db_fair s1" using f1 by simp
    from pinv_node [OF fair_pinv [OF fair1] at1] obtain rank where "node_ok (mem_of s1) rank parent pm" by blast
    then have c: "counters_ok pm" by (simp add: node_ok_def)
    have cm: "counters_ok ?cm" "fork_of ?cm = mWALSeq pm"
      using c assms(3) by (auto simp: counters_ok_def fork_of_def IsBranch_def)
    have step: "pstep m m'" if m: "psteps (mem_of s1) m" "pinv m"
      "MemStore_PutIfAbsent m (manifestKey child) (WManifest ?cm) = (Inr e, m')" for m m' e
    proof -
      from psteps_ext [OF m(1) fair_pinv [OF fair1]] have "ext (mem_of s1) m" .
      from extD(2) [OF this at1] obtain pm' where pm': "manifest_at m parent = Some pm'" "manifest_le pm pm'" by blast
      with c have "fork_of pm' \<le> mWALSeq pm" "mWALSeq pm \<le> mWALSeq pm'"
        using manifest_le_fork [OF pm'(2)] by (auto simp: counters_ok_def manifest_le_def)
      then show ?thesis by (intro pstep.fork [OF pm'(1) assms(3) _ _ _ _ cm(1) m(3)]) simp_all
    qed
    from Store_PutIfAbsent_fair [OF fair1 p step]
    have f2: "psteps (mem_of s1) (mem_of s2)" "db_fair s2"
      "r2 \<noteq> Inl ErrOther \<Longrightarrow> \<exists>m. psteps (mem_of s1) m \<and> pinv m \<and>
        MemStore_PutIfAbsent m (manifestKey child) (WManifest ?cm) = (r2, mem_of s2)" by auto
    have "manifest_at (mem_of s2) child = Some ?cm" if "r2 = Inr e" for e
    proof -
      from f2(3) that obtain m where "pinv m"
        "MemStore_PutIfAbsent m (manifestKey child) (WManifest ?cm) = (Inr e, mem_of s2)" by auto
      with MemStore_PutIfAbsent_Inr [OF pinv_ok] manifest_at_written show ?thesis by fastforce
    qed
    moreover have "psteps (mem_of s) (mem_of s1)" using f1 by blast
    moreover from this have "psteps (mem_of s) (mem_of s2)" using f2(1) by (rule rtranclp_trans)
    ultimately show ?thesis using f2(1,2) s2 at1 by blast
  qed
qed

section \<open>Claiming a WAL slot\<close>

lemma AppendWAL_fair:
  assumes "db_fair s" "AppendWAL ns i docs s = (r, s')" "0 \<le> i"
  shows "psteps (mem_of s) (mem_of s') \<and> db_fair s' \<and>
    (r = Inr () \<longrightarrow> seg_at (mem_of s') ns i = Some \<lparr>sSeq = i, sOps = map json_doc docs\<rparr>) \<and>
    (\<forall>e. r = Inl e \<longrightarrow> is_precondition e \<longrightarrow> seg_at (mem_of s') ns i \<noteq> None)"
proof (cases "list_all json_encodable docs")
  case False
  with assms show ?thesis by (auto simp: AppendWAL_def)
next
  case True
  let ?seg = "\<lparr>sSeq = i, sOps = map json_doc docs\<rparr>"
  obtain r1 s1 where p: "Store_PutIfAbsent (walKey ns i) (WSegment ?seg) s = (r1, s1)"
    by (cases "Store_PutIfAbsent (walKey ns i) (WSegment ?seg) s")
  from True assms(2) p have r: "s' = s1" "r = (case r1 of Inl e \<Rightarrow> Inl (StoreErr e) | Inr e \<Rightarrow> Inr ())"
    by (auto simp: AppendWAL_def split: sum.splits)
  have step: "pstep m m'" if "psteps (mem_of s) m" "pinv m"
    "MemStore_PutIfAbsent m (walKey ns i) (WSegment ?seg) = (Inr e, m')" for m m' e
    using pstep.append [OF assms(3) _ that(3)] by simp
  from Store_PutIfAbsent_fair [OF assms(1) p step]
  have f: "psteps (mem_of s) (mem_of s1)" "db_fair s1"
    "r1 \<noteq> Inl ErrOther \<Longrightarrow> \<exists>m. psteps (mem_of s) m \<and> pinv m \<and>
      MemStore_PutIfAbsent m (walKey ns i) (WSegment ?seg) = (r1, mem_of s1)" by auto
  show ?thesis
  proof (cases r1)
    case (Inl e)
    have "seg_at (mem_of s1) ns i \<noteq> None" if e: "e = ErrPreconditionFailed"
    proof -
      from f(3) Inl e obtain m where "pinv m"
        "MemStore_PutIfAbsent m (walKey ns i) (WSegment ?seg) = (Inl e, mem_of s1)" by auto
      with MemStore_PutIfAbsent_Inl obtain x where x: "MemStore_Get (mem_of s1) (walKey ns i) = Inr x"
        "pinv (mem_of s1)" by metis
      then obtain seg where "fst x = WSegment seg" using assms(3) unfolding pinv_def typed_def by (metis prod.collapse)
      with x show ?thesis by (auto simp: seg_at_def split: prod.splits wire.splits)
    qed
    with f r Inl show ?thesis by simp
  next
    case (Inr e)
    from f(3) Inr obtain m where m: "pinv m"
      "MemStore_PutIfAbsent m (walKey ns i) (WSegment ?seg) = (Inr e, mem_of s1)" by auto
    from MemStore_PutIfAbsent_Inr [OF pinv_ok [OF m(1)] m(2)]
    have "seg_at (mem_of s1) ns i = Some ?seg" using seg_at_written assms(3) by fastforce
    with f r Inr show ?thesis by simp
  qed
qed

lemma has_segs_Suc: "has_segs m ns f i \<Longrightarrow> seg_at m ns i \<noteq> None \<Longrightarrow> has_segs m ns f (i + 1)"
  unfolding has_segs_def by (metis order_le_less zle_add1_eq_le)

text \<open>Probing from \<open>i\<close> leaves no gap: a slot that was refused is one that is taken.\<close>

lemma claim_loop_fair:
  assumes "db_fair s" "claim_loop n ns i docs s = (r, s')" "0 \<le> f" "f \<le> i" "has_segs (mem_of s) ns f i"
  shows "psteps (mem_of s) (mem_of s') \<and> db_fair s' \<and>
    (\<forall>c. r = Inr c \<longrightarrow> i \<le> c \<and> has_segs (mem_of s') ns f (c + 1) \<and>
      seg_at (mem_of s') ns c = Some \<lparr>sSeq = c, sOps = map json_doc docs\<rparr>)"
  using assms(1,2,4,5)
proof (induction n arbitrary: i s)
  case (Suc n)
  obtain r1 s1 where a: "AppendWAL ns i docs s = (r1, s1)" by (cases "AppendWAL ns i docs s")
  have i: "0 \<le> i" using assms(3) Suc.prems(3) by simp
  note f1 = AppendWAL_fair [OF Suc.prems(1) a i]
  have segs: "has_segs (mem_of s1) ns f i"
    using ext_has_segs [OF psteps_ext assms(3) Suc.prems(4)] f1 fair_pinv [OF Suc.prems(1)] by blast
  show ?case
  proof (cases r1)
    case (Inr u)
    with Suc.prems(2) a have "s' = s1" "r = Inr i" by auto
    with f1 Inr has_segs_Suc [OF segs] show ?thesis by auto
  next
    case (Inl e)
    show ?thesis
    proof (cases "is_precondition e")
      case False
      with Suc.prems(2) a Inl f1 show ?thesis by auto
    next
      case True
      with Suc.prems(2) a Inl have l: "claim_loop n ns (i + 1) docs s1 = (r, s')" by simp
      have "has_segs (mem_of s1) ns f (i + 1)" using has_segs_Suc [OF segs] f1 Inl True by blast
      from Suc.IH [OF _ l _ this] f1 Suc.prems(3) show ?thesis by (auto intro: rtranclp_trans)
    qed
  qed
qed auto

section \<open>The compare-and-swap loop\<close>

text \<open>
  \<open>may_become m ns mutate\<close>: in every store that the protocol can reach from \<open>m\<close>, the mutation of the
  manifest of \<open>ns\<close> is one that the protocol allows.
\<close>

definition may_become :: "wire MemStore \<Rightarrow> string \<Rightarrow> (Manifest \<Rightarrow> Manifest) \<Rightarrow> bool" where
  "may_become m ns mutate \<longleftrightarrow> (\<forall>m' mf. psteps m m' \<longrightarrow> pinv m' \<longrightarrow> manifest_at m' ns = Some mf \<longrightarrow>
     counters_ok mf \<longrightarrow>
     mVersion (mutate mf) = mVersion mf \<and> manifest_le mf (mutate mf) \<and> counters_ok (mutate mf) \<and>
     has_segs m' ns (fork_of mf) (mWALSeq (mutate mf)))"

definition bump :: "Manifest \<Rightarrow> Manifest" where
  "bump m = m\<lparr>mVersion := mVersion m + 1\<rparr>"

lemma may_become_later: "may_become m ns mutate \<Longrightarrow> psteps m m1 \<Longrightarrow> may_become m1 ns mutate"
  unfolding may_become_def by (meson rtranclp_trans)

lemma bump_simps [simp]:
  "fork_of (bump m) = fork_of m" "mWALSeq (bump m) = mWALSeq m" "mVersion (bump m) = mVersion m + 1"
  by (simp_all add: bump_def fork_of_def IsBranch_def)

lemma bump_step:
  assumes "may_become m ns mutate" "psteps m m'" "pinv m'" "manifest_at m' ns = Some mf"
  shows "manifest_le mf (bump (mutate mf)) \<and> counters_ok (bump (mutate mf)) \<and>
    mVersion (bump (mutate mf)) = mVersion mf + 1 \<and> has_segs m' ns (fork_of mf) (mWALSeq (bump (mutate mf)))"
proof -
  from pinv_node [OF assms(3,4)] obtain rank where "node_ok m' rank ns mf" .
  then have "counters_ok mf" by (simp add: node_ok_def)
  with assms have "mVersion (mutate mf) = mVersion mf" "manifest_le mf (mutate mf)" "counters_ok (mutate mf)"
    "has_segs m' ns (fork_of mf) (mWALSeq (mutate mf))" unfolding may_become_def by blast+
  then show ?thesis
    by (auto simp: manifest_le_def counters_ok_def bump_def fork_of_def IsBranch_def)
qed

text \<open>
  Success means that the mutation was applied to the manifest that was current at the moment of the
  write: nobody's update is lost.
\<close>

lemma save_loop_fair:
  assumes "db_fair s" "save_manifest_loop n ns mutate s = (r, s')" "may_become (mem_of s) ns mutate"
  shows "psteps (mem_of s) (mem_of s') \<and> db_fair s' \<and>
    (\<forall>m'. r = Inr m' \<longrightarrow> (\<exists>mem mf. psteps (mem_of s) mem \<and> pstep mem (mem_of s') \<and>
      manifest_at mem ns = Some mf \<and> m' = bump (mutate mf) \<and> manifest_at (mem_of s') ns = Some m'))"
  using assms
proof (induction n arbitrary: s)
  case (Suc n)
  obtain r1 s1 where l: "LoadManifest ns s = (r1, s1)" by (cases "LoadManifest ns s")
  note f1 = LoadManifest_fair [OF Suc.prems(1) l]
  show ?case
  proof (cases r1)
    case (Inl e)
    with Suc.prems(2) l f1 show ?thesis by auto
  next
    case (Inr x)
    obtain mf e0 where x: "x = (mf, e0)" by (cases x)
    let ?m = "bump (mutate mf)"
    have get1: "MemStore_Get (mem_of s1) (manifestKey ns) = Inr (WManifest mf, e0)" using f1 Inr x by auto
    have fair1: "db_fair s1" and p1: "psteps (mem_of s) (mem_of s1)" using f1 by auto
    note may = may_become_later [OF Suc.prems(3) p1]
    obtain r2 s2 where p: "Store_PutCAS (manifestKey ns) (WManifest ?m) e0 s1 = (r2, s2)"
      by (cases "Store_PutCAS (manifestKey ns) (WManifest ?m) e0 s1")
    have cur: "manifest_at m ns = Some mf" if m: "psteps (mem_of s1) m" "pinv m"
      "MemStore_PutCAS m (manifestKey ns) (WManifest ?m) e0 = (Inr e, m')" for m m' e
    proof -
      from MemStore_PutCAS_Inr [OF pinv_ok [OF m(2)] m(3)] obtain b0
        where "MemStore_Get m (manifestKey ns) = Inr (b0, e0)" by blast
      with etag_names_body [OF m(1) fair_pinv [OF fair1] get1] show ?thesis
        by (auto intro: manifest_at_Some)
    qed
    have step: "pstep m m'" if m: "psteps (mem_of s1) m" "pinv m"
      "MemStore_PutCAS m (manifestKey ns) (WManifest ?m) e0 = (Inr e, m')" for m m' e
    proof -
      note c = cur [OF m]
      from MemStore_PutCAS_Inr [OF pinv_ok [OF m(2)] m(3)] obtain b0
        where b0: "MemStore_Get m (manifestKey ns) = Inr (b0, e0)" by blast
      with etag_names_body [OF m(1) fair_pinv [OF fair1] get1] have "b0 = WManifest mf" by blast
      with b0 bump_step [OF may m(1,2) c] m(3) show ?thesis by (blast intro: pstep.advance)
    qed
    from Store_PutCAS_fair [OF fair1 p step]
    have f2: "psteps (mem_of s1) (mem_of s2)" "db_fair s2"
      "r2 \<noteq> Inl ErrOther \<Longrightarrow> \<exists>m. psteps (mem_of s1) m \<and> pinv m \<and>
        MemStore_PutCAS m (manifestKey ns) (WManifest ?m) e0 = (r2, mem_of s2)" by auto
    have p2: "psteps (mem_of s) (mem_of s2)" using p1 f2(1) by (rule rtranclp_trans)
    show ?thesis
    proof (cases r2)
      case i2: (Inr e)
      have s2: "s' = s2" "r = Inr ?m" using Suc.prems(2) l Inr x p i2 by (auto simp: bump_def Let_def)
      from f2(3) i2 obtain m where m: "psteps (mem_of s1) m" "pinv m"
        "MemStore_PutCAS m (manifestKey ns) (WManifest ?m) e0 = (Inr e, mem_of s2)" by auto
      from MemStore_PutCAS_Inr [OF pinv_ok [OF m(2)] m(3)] manifest_at_written
      have "manifest_at (mem_of s2) ns = Some ?m" by fastforce
      moreover have "psteps (mem_of s) m" using p1 m(1) by (rule rtranclp_trans)
      ultimately show ?thesis using s2 p2 f2(2) cur [OF m] step [OF m] by blast
    next
      case i2: (Inl e)
      show ?thesis
      proof (cases "e = ErrPreconditionFailed")
        case True
        with Suc.prems(2) l Inr x p i2 have "save_manifest_loop n ns mutate s2 = (r, s')"
          by (simp add: bump_def Let_def)
        from Suc.IH [OF f2(2) this may_become_later [OF Suc.prems(3) p2]] rtranclp_trans [OF p2]
        show ?thesis by blast
      next
        case False
        with Suc.prems(2) l Inr x p i2 have "s' = s2" "\<exists>e. r = Inl e" by (auto simp: bump_def Let_def)
        with p2 f2(2) show ?thesis by auto
      qed
    qed
  qed
qed auto

lemmas SaveManifestCAS_fair = save_loop_fair [of _ maxCASAttempts, folded SaveManifestCAS_def]

section \<open>The upsert\<close>

lemma advance_may_become:
  assumes "has_segs m ns f (c + 1)" "0 \<le> f"
    and f: "\<And>m' mf. psteps m m' \<Longrightarrow> manifest_at m' ns = Some mf \<Longrightarrow> fork_of mf = f"
    and inv: "pinv m"
  shows "may_become m ns (advance_to c d)"
  unfolding may_become_def
proof (intro allI impI)
  fix m' mf
  assume m': "psteps m m'" "pinv m'" "manifest_at m' ns = Some mf" "counters_ok mf"
  have fork: "fork_of (advance_to c d mf) = fork_of mf" by (simp add: fork_of_def IsBranch_def)
  from pinv_node [OF m'(2,3)] obtain rank where "node_ok m' rank ns mf" .
  then have "has_segs m' ns (fork_of mf) (mWALSeq mf)" by (simp add: node_ok_def)
  moreover have "has_segs m' ns (fork_of mf) (c + 1)"
    using ext_has_segs [OF psteps_ext [OF m'(1) inv] assms(2,1)] f [OF m'(1,3)] by simp
  ultimately have "has_segs m' ns (fork_of mf) (mWALSeq (advance_to c d mf))"
    by (simp add: max_def)
  moreover have "manifest_le mf (advance_to c d mf)" by (simp add: manifest_le_def)
  moreover have "counters_ok (advance_to c d mf)"
    using m'(4) fork by (auto simp: counters_ok_def)
  ultimately show "mVersion (advance_to c d mf) = mVersion mf \<and> manifest_le mf (advance_to c d mf) \<and>
      counters_ok (advance_to c d mf) \<and> has_segs m' ns (fork_of mf) (mWALSeq (advance_to c d mf))" by simp
qed

text \<open>
  \<open>committed mem ns docs\<close>: the segment is in the log and the manifest advertises it.
\<close>

definition committed :: "wire MemStore \<Rightarrow> string \<Rightarrow> Document list \<Rightarrow> int \<Rightarrow> bool" where
  "committed mem ns docs c \<longleftrightarrow> 0 \<le> c \<and> seg_at mem ns c = Some \<lparr>sSeq = c, sOps = map json_doc docs\<rparr> \<and>
     (\<exists>mf. manifest_at mem ns = Some mf \<and> c < mWALSeq mf)"

lemma commitBatch_fair:
  assumes "db_fair s" "commitBatch ns hint docs s = (r, s')"
    and "manifest_at (mem_of s) ns = Some m0" "fork_of m0 \<le> hint" "hint \<le> mWALSeq m0"
  shows "psteps (mem_of s) (mem_of s') \<and> db_fair s' \<and>
    (r = Inr () \<longrightarrow> (\<exists>c. hint \<le> c \<and> committed (mem_of s') ns docs c))"
proof -
  from pinv_node [OF fair_pinv [OF assms(1)] assms(3)] obtain rank where node: "node_ok (mem_of s) rank ns m0" .
  then have f0: "0 \<le> fork_of m0" by (simp add: node_ok_def counters_fork)
  have segs: "has_segs (mem_of s) ns (fork_of m0) hint"
    using node assms(5) by (auto simp: node_ok_def has_segs_def)
  obtain r1 s1 where a: "claim_loop maxUpsertAttempts ns hint docs s = (r1, s1)"
    by (cases "claim_loop maxUpsertAttempts ns hint docs s")
  note f1 = claim_loop_fair [OF assms(1) a f0 assms(4) segs]
  show ?thesis
  proof (cases r1)
    case (Inl e)
    with assms(2) a f1 show ?thesis by (auto simp: commitBatch_def)
  next
    case (Inr c)
    with f1 have c: "hint \<le> c" "has_segs (mem_of s1) ns (fork_of m0) (c + 1)"
      "seg_at (mem_of s1) ns c = Some \<lparr>sSeq = c, sOps = map json_doc docs\<rparr>"
      and p1: "psteps (mem_of s) (mem_of s1)" and fair1: "db_fair s1" by auto
    have fork: "fork_of mf = fork_of m0" if "psteps (mem_of s1) m'" "manifest_at m' ns = Some mf" for m' mf
    proof -
      have "psteps (mem_of s) m'" using p1 that(1) by (rule rtranclp_trans)
      from psteps_ext [OF this fair_pinv [OF assms(1)]] extD(2) assms(3) that(2) manifest_le_fork
      show ?thesis by fastforce
    qed
    obtain r2 s2 where sv: "SaveManifestCAS ns (advance_to c (liveDelta docs)) s1 = (r2, s2)"
      by (cases "SaveManifestCAS ns (advance_to c (liveDelta docs)) s1")
    have may: "may_become (mem_of s1) ns (advance_to c (liveDelta docs))"
      using c(2) f0 fork fair_pinv [OF fair1] by (rule advance_may_become)
    from SaveManifestCAS_fair [OF fair1 sv may] have p2: "psteps (mem_of s1) (mem_of s2)" "db_fair s2"
      and ok: "\<And>m'. r2 = Inr m' \<Longrightarrow> \<exists>mf. m' = bump (advance_to c (liveDelta docs) mf) \<and>
        manifest_at (mem_of s2) ns = Some m'" by blast+
    have s2: "s' = s2" "r = Inr () \<longleftrightarrow> (\<exists>m'. r2 = Inr m')"
      using assms(2) a Inr sv by (auto simp: commitBatch_def split: sum.splits)
    have "committed (mem_of s2) ns docs c" if r2: "r2 = Inr m'" for m'
    proof -
      from ok [OF r2] obtain mf where m': "m' = bump (advance_to c (liveDelta docs) mf)"
        "manifest_at (mem_of s2) ns = Some m'" by blast
      have c0: "0 \<le> c" using c(1) f0 assms(4) by simp
      from extD(1) [OF psteps_ext [OF p2(1) fair_pinv [OF fair1]] c0 c(3)] m' c0
      show ?thesis by (simp add: committed_def)
    qed
    with c(1) s2 p1 p2 show ?thesis by (auto intro: rtranclp_trans)
  qed
qed

lemma Upsert_fair:
  assumes "db_fair s" "Upsert ns docs s = (r, s')"
  shows "psteps (mem_of s) (mem_of s') \<and> db_fair s' \<and>
    (r = Inr () \<longrightarrow> docs \<noteq> [] \<longrightarrow> (\<exists>c. committed (mem_of s') ns docs c))"
proof (cases "docs = []")
  case True
  with assms show ?thesis by (auto simp: Upsert_def)
next
  case False
  obtain r1 s1 where l: "LoadManifest ns s = (r1, s1)" by (cases "LoadManifest ns s")
  note f1 = LoadManifest_fair [OF assms(1) l]
  show ?thesis
  proof (cases r1)
    case (Inl e)
    with assms(2) l f1 False show ?thesis by (auto simp: Upsert_def)
  next
    case (Inr x)
    obtain mf e0 where x: "x = (mf, e0)" by (cases x)
    have at1: "manifest_at (mem_of s1) ns = Some mf" using f1 Inr x by (auto intro: manifest_at_Some)
    have fair1: "db_fair s1" using f1 by simp
    from pinv_node [OF fair_pinv [OF fair1] at1] obtain rank where "node_ok (mem_of s1) rank ns mf" .
    then have le: "fork_of mf \<le> mWALSeq mf" by (simp add: node_ok_def counters_ok_def)
    show ?thesis
    proof (cases "validateDocs (mDimension mf) docs")
      case (Inl e)
      with assms(2) l f1 False Inr x show ?thesis by (auto simp: Upsert_def)
    next
      case v: (Inr u)
      with assms(2) l False Inr x have "commitBatch ns (mWALSeq mf) docs s1 = (r, s')"
        by (simp add: Upsert_def)
      from commitBatch_fair [OF fair1 this at1 le order_refl] f1 show ?thesis
        by (meson rtranclp_trans)
    qed
  qed
qed

section \<open>Chains in reachable stores\<close>

lemma chain_ok_cong:
  "mParent a = mParent b \<Longrightarrow> mForkWALSeq a = mForkWALSeq b \<Longrightarrow> mWALSeq a = mWALSeq b \<Longrightarrow>
   chain_ok m d ns a = chain_ok m d ns b"
  unfolding chain_ok.simps [of m d ns a] chain_ok.simps [of m d ns b] fork_of_def IsBranch_def by (simp cong: option.case_cong nat.case_cong)

lemma logical_cong:
  "mParent a = mParent b \<Longrightarrow> mForkWALSeq a = mForkWALSeq b \<Longrightarrow> mWALSeq a = mWALSeq b \<Longrightarrow>
   logical m d ns a x y = logical m d ns b x y"
  unfolding logical.simps [of m d ns a] logical.simps [of m d ns b] fork_of_def IsBranch_def by (simp cong: option.case_cong nat.case_cong)

lemma node_chain:
  assumes "\<And>ns mf. manifest_at m ns = Some mf \<Longrightarrow> node_ok m rank ns mf"
  shows "manifest_at m ns = Some mf \<Longrightarrow> fork_of mf \<le> w \<Longrightarrow> w \<le> mWALSeq mf \<Longrightarrow>
    chain_ok m (rank ns) ns (mf\<lparr>mWALSeq := w\<rparr>)"
proof (induction "rank ns" arbitrary: ns mf w rule: less_induct)
  case less
  note node = assms [OF less.prems(1)]
  have own: "0 \<le> fork_of mf" "has_segs m ns (fork_of mf) w"
    using node less.prems by (auto simp: node_ok_def has_segs_def counters_fork)
  show ?case
  proof (cases "IsBranch mf")
    case False
    with own less.prems(2) show ?thesis by (subst chain_ok.simps) simp
  next
    case True
    with node obtain pm where pm: "rank (mParent mf) < rank ns" "manifest_at m (mParent mf) = Some pm"
      "fork_of pm \<le> mForkWALSeq mf" "mForkWALSeq mf \<le> mWALSeq pm" by (auto simp: node_ok_def)
    from pm(1) obtain d where d: "rank ns = Suc d" "rank (mParent mf) \<le> d" by (cases "rank ns") auto
    from chain_ok_mono [OF less.hyps [OF pm] d(2)] own less.prems(2) pm d(1) show ?thesis
      by (subst chain_ok.simps) simp
  qed
qed

lemma pinv_chain:
  assumes "pinv m" "manifest_at m ns = Some mf"
  obtains d where "chain_ok m d ns mf"
proof -
  from assms(1) obtain rank where rank: "\<And>ns mf. manifest_at m ns = Some mf \<Longrightarrow> node_ok m rank ns mf"
    by (auto simp: pinv_def)
  from rank [OF assms(2)] have "fork_of mf \<le> mWALSeq mf" by (simp add: node_ok_def counters_ok_def)
  from node_chain [OF rank assms(2) this order_refl] that show ?thesis by simp
qed

lemma log_ops_ext:
  assumes "ext m m'" "0 \<le> i" "has_segs m ns i (i + int n)"
  shows "log_ops m' ns i n = log_ops m ns i n"
  using assms(2,3)
proof (induction n arbitrary: i)
  case (Suc n)
  then obtain seg where seg: "seg_at m ns i = Some seg" by (force simp: has_segs_def)
  with extD(1) [OF assms(1)] Suc.prems(1) have "seg_at m' ns i = Some seg" by blast
  moreover have "has_segs m ns (i + 1) (i + 1 + int n)" using Suc.prems(2) by (auto simp: has_segs_def)
  ultimately show ?case using Suc.IH [of "i + 1"] Suc.prems(1) seg by simp
qed simp

text \<open>What a chain reads never changes: segments are written once, and the clamp at the fork hides
  whatever an ancestor appends later.\<close>

lemma logical_ext:
  assumes "ext m m'"
  shows "chain_ok m d ns mf \<Longrightarrow> logical m' d ns mf f t = logical m d ns mf f t"
proof (induction d arbitrary: ns mf rule: less_induct)
  case (less d)
  note own = chain_ok_own [OF less.prems]
  let ?lo = "max f (fork_of mf)" and ?n = "nat (min t (mWALSeq mf) - max f (fork_of mf))"
  have ops: "log_ops m' ns ?lo ?n = log_ops m ns ?lo ?n"
  proof (cases "?n = 0")
    case False
    have "has_segs m ns ?lo (?lo + int ?n)" using own False by (auto simp: has_segs_def)
    then show ?thesis by (rule log_ops_ext [OF assms, rotated]) (use own in auto)
  qed simp
  show ?case
  proof (cases "IsBranch mf")
    case False
    with ops show ?thesis by (simp add: logical_root)
  next
    case True
    from chain_ok_parent [OF less.prems True] obtain d' pm where p: "d = Suc d'"
      "manifest_at m (mParent mf) = Some pm"
      "chain_ok m d' (mParent mf) (pm\<lparr>mWALSeq := mForkWALSeq mf\<rparr>)" by blast
    from extD(2) [OF assms p(2)] obtain pm' where pm': "manifest_at m' (mParent mf) = Some pm'"
      "manifest_le pm pm'" by blast
    have "logical m' d' (mParent mf) (pm'\<lparr>mWALSeq := mForkWALSeq mf\<rparr>) f t =
        logical m' d' (mParent mf) (pm\<lparr>mWALSeq := mForkWALSeq mf\<rparr>) f t"
      by (rule logical_cong) (use pm'(2) in \<open>auto simp: manifest_le_def\<close>)
    also have "\<dots> = logical m d' (mParent mf) (pm\<lparr>mWALSeq := mForkWALSeq mf\<rparr>) f t"
      using less.IH [OF _ p(3)] p(1) by simp
    finally show ?thesis using ops
      unfolding p(1) logical_branch [OF True p(2)] logical_branch [OF True pm'(1)] by simp
  qed
qed

section \<open>Properties\<close>

text \<open>
  The log has no holes, in any state that any number of clients can bring the bucket to: the
  segments that a manifest advertises as its own, from its fork point to its \<open>WALSeq\<close>, exist; its
  counters are consistent; and its parent chain leads to a root.
\<close>

theorem reachable_log_has_no_holes:
  assumes "psteps MemStore_New m" and "manifest_at m ns = Some mf"
  shows "has_segs m ns (fork_of mf) (mWALSeq mf) \<and> counters_ok mf \<and> (\<exists>d. chain_ok m d ns mf)"
proof -
  have inv: "pinv m" using assms(1) pinv_New by (rule psteps_pinv)
  from pinv_node [OF this assms(2)] obtain rank where "node_ok m rank ns mf" .
  moreover from pinv_chain [OF inv assms(2)] obtain d where "chain_ok m d ns mf" .
  ultimately show ?thesis by (auto simp: node_ok_def)
qed

text \<open>
  C1.  Durable before return.  Whatever other clients do between the requests of an upsert, and
  whichever of its requests or replies are lost, an upsert only makes protocol steps; when it returns
  success on a non-empty batch, the batch is one segment of the log that the manifest advertises, and
  stays so for ever.
\<close>

theorem Upsert_durable:
  assumes "db_fair s" and "Upsert ns docs s = (r, s')"
  shows "psteps (mem_of s) (mem_of s') \<and>
    (r = Inr () \<and> docs \<noteq> [] \<longrightarrow>
      (\<exists>c. \<forall>m. psteps (mem_of s') m \<longrightarrow> committed m ns docs c))"
proof -
  from Upsert_fair [OF assms] have p: "psteps (mem_of s) (mem_of s')" "db_fair s'"
    and c: "r = Inr () \<Longrightarrow> docs \<noteq> [] \<Longrightarrow> \<exists>c. committed (mem_of s') ns docs c" by blast+
  have "committed m ns docs c" if cm: "committed (mem_of s') ns docs c" and m: "psteps (mem_of s') m" for c m
  proof -
    note ext = psteps_ext [OF m fair_pinv [OF p(2)]]
    from cm obtain mf where mf: "manifest_at (mem_of s') ns = Some mf" "c < mWALSeq mf"
      "seg_at (mem_of s') ns c = Some \<lparr>sSeq = c, sOps = map json_doc docs\<rparr>" by (auto simp: committed_def)
    from extD(2) [OF ext mf(1)] obtain mf' where "manifest_at m ns = Some mf'" "manifest_le mf mf'" by blast
    moreover have "seg_at m ns c = Some \<lparr>sSeq = c, sOps = map json_doc docs\<rparr>"
      using extD(1) [OF ext _ mf(3)] cm by (simp add: committed_def)
    ultimately show ?thesis using mf(2) cm by (auto simp: committed_def manifest_le_def)
  qed
  with p(1) c show ?thesis by blast
qed

text \<open>
  C14.  No manifest update is lost.  When \<open>SaveManifestCAS\<close> returns success under any interference,
  the mutation was applied to the manifest that was current at the moment of the write, with the
  version counted up by one, and that is the manifest now in the store.  Here the mutation is one that
  the protocol allows from every store it can still reach.
\<close>

theorem SaveManifestCAS_atomic:
  assumes "db_fair s" and "may_become (mem_of s) ns mutate"
    and "SaveManifestCAS ns mutate s = (Inr m', s')"
  shows "\<exists>mem mf. psteps (mem_of s) mem \<and> pstep mem (mem_of s') \<and> manifest_at mem ns = Some mf \<and>
    m' = bump (mutate mf) \<and> manifest_at (mem_of s') ns = Some m'"
  using SaveManifestCAS_fair [OF assms(1,3,2)] by blast


section \<open>Witnesses\<close>

text \<open>
  Two clients: one has created a namespace and upserts; before its second request the other takes
  the WAL slot it is about to claim.
\<close>

definition cfg0 :: NamespaceConfig where
  "cfg0 = \<lparr>cDimension = 2, cMetric = ''cosine'', cTextField = []\<rparr>"

definition fresh_db :: db where
  "fresh_db = NewWithCapacity (\<lambda>k. k) \<lparr>bstore = MemStore_New, bevents = []\<rparr> 0"

definition rival :: "wire MemStore \<Rightarrow> wire MemStore" where
  "rival m = snd (MemStore_PutIfAbsent m (walKey ''n'' 0) (WSegment \<lparr>sSeq = 0, sOps = [demo_doc ''x'']\<rparr>))"

definition raced_db :: db where
  "raced_db = (snd (CreateManifest ''n'' cfg0 fresh_db))\<lparr>sBackend :=
     (sBackend (snd (CreateManifest ''n'' cfg0 fresh_db)))\<lparr>bevents := [Event id Served, Event rival Served]\<rparr>\<rparr>"

lemma fresh_fair: "db_fair fresh_db"
  by (simp add: fair_def fresh_db_def NewWithCapacity_def pinv_New)

lemma created: "psteps MemStore_New (mem_of (snd (CreateManifest ''n'' cfg0 fresh_db)))"
    "manifest_at (mem_of (snd (CreateManifest ''n'' cfg0 fresh_db))) ''n'' = Some (root_manifest cfg0)"
proof -
  have r: "fst (CreateManifest ''n'' cfg0 fresh_db) = Inr ()" by code_simp
  have m: "mem_of fresh_db = MemStore_New" unfolding fresh_db_def NewWithCapacity_def by simp
  note f = CreateManifest_fair [OF fresh_fair, where ns = "''n''" and cfg = cfg0, OF prod.collapse [symmetric]]
  from f [THEN conjunct1] show "psteps MemStore_New (mem_of (snd (CreateManifest ''n'' cfg0 fresh_db)))"
    unfolding m .
  from f r show "manifest_at (mem_of (snd (CreateManifest ''n'' cfg0 fresh_db))) ''n'' = Some (root_manifest cfg0)"
    by blast
qed

lemma rival_steps: "psteps m (rival m)"
proof -
  let ?b = "WSegment \<lparr>sSeq = 0, sOps = [demo_doc ''x'']\<rparr>"
  obtain r m1 where p: "MemStore_PutIfAbsent m (walKey ''n'' 0) ?b = (r, m1)"
    by (cases "MemStore_PutIfAbsent m (walKey ''n'' 0) ?b")
  have "psteps m m1"
  proof (cases r)
    case (Inl e)
    from MemStore_PutIfAbsent_Inl [OF p [unfolded Inl]] show ?thesis by simp
  next
    case (Inr e)
    from pstep.append [OF _ _ p [unfolded Inr]] show ?thesis by simp
  qed
  then show ?thesis by (simp add: rival_def p)
qed

lemma fair_events:
  "pinv (bstore b) \<Longrightarrow> (\<And>ev m. ev \<in> set es \<Longrightarrow> psteps m (others ev m)) \<Longrightarrow> fair (b\<lparr>bevents := es\<rparr>)"
  by (simp add: fair_def)

lemma set_backend: "sBackend (s\<lparr>sBackend := b\<rparr>) = b"
  by simp

lemma raced_fair: "db_fair raced_db"
proof -
  have "fair ((sBackend (snd (CreateManifest ''n'' cfg0 fresh_db)))
      \<lparr>bevents := [Event id Served, Event rival Served]\<rparr>)"
    by (rule fair_events) (use psteps_pinv [OF created(1) pinv_New] rival_steps in auto)
  then show ?thesis unfolding raced_db_def set_backend .
qed

theorem reachable_log_has_no_holes_witness:
  "has_segs (mem_of (snd (CreateManifest ''n'' cfg0 fresh_db))) ''n'' (fork_of (root_manifest cfg0))
     (mWALSeq (root_manifest cfg0)) \<and> counters_ok (root_manifest cfg0) \<and>
   (\<exists>d. chain_ok (mem_of (snd (CreateManifest ''n'' cfg0 fresh_db))) d ''n'' (root_manifest cfg0))"
  using created by (rule reachable_log_has_no_holes)

theorem Upsert_durable_witness:
  "\<exists>s'. Upsert ''n'' [demo_doc ''a''] raced_db = (Inr (), s') \<and> psteps (mem_of raced_db) (mem_of s') \<and>
    (\<exists>c. \<forall>m. psteps (mem_of s') m \<longrightarrow> committed m ''n'' [demo_doc ''a''] c)"
proof -
  have "fst (Upsert ''n'' [demo_doc ''a''] raced_db) = Inr ()" by code_simp
  then have r: "Upsert ''n'' [demo_doc ''a''] raced_db = (Inr (), snd (Upsert ''n'' [demo_doc ''a''] raced_db))"
    by (simp add: prod_eq_iff)
  from Upsert_durable [OF raced_fair r] r show ?thesis by auto
qed

theorem SaveManifestCAS_atomic_witness:
  "\<exists>m' s'. SaveManifestCAS ''n'' (\<lambda>m. m) raced_db = (Inr m', s') \<and>
    (\<exists>mem mf. psteps (mem_of raced_db) mem \<and> pstep mem (mem_of s') \<and> manifest_at mem ''n'' = Some mf \<and>
      m' = bump mf \<and> manifest_at (mem_of s') ''n'' = Some m')"
proof -
  have may: "may_become (mem_of raced_db) ''n'' (\<lambda>m. m)"
    unfolding may_become_def by (auto simp: pinv_def node_ok_def)
  have "\<not> isl (fst (SaveManifestCAS ''n'' (\<lambda>m. m) raced_db))" by code_simp
  then obtain m' where "fst (SaveManifestCAS ''n'' (\<lambda>m. m) raced_db) = Inr m'"
    by (cases "fst (SaveManifestCAS ''n'' (\<lambda>m. m) raced_db)") auto
  then have r: "SaveManifestCAS ''n'' (\<lambda>m. m) raced_db = (Inr m', snd (SaveManifestCAS ''n'' (\<lambda>m. m) raced_db))"
    by (simp add: prod_eq_iff)
  from SaveManifestCAS_atomic [OF raced_fair may r] r show ?thesis by blast
qed


end
