(* ===== verification/JobQueue.thy ===== *)
theory JobQueue
  imports Durability GoTime
begin

text \<open>
  The shared indexing queue (\<open>queue.go\<close>): the compare-and-swap loop over \<open>queue.json\<close> and the
  closures that enqueue, claim, heartbeat and complete.  A closure of the code may read the clock and
  assign to variables it captured; here it maps the captured state and the queue to the flag it
  returns, the new queue and the new captured state, and the loop threads that state from one attempt
  to the next, as the code does.  The clock is the list of its readings still to come, in
  nanoseconds; it is part of the captured state.
\<close>

section \<open>Operations\<close>

definition maxQueueCASAttempts :: nat where
  "maxQueueCASAttempts = 32"

definition defaultHeartbeatTimeout :: int where
  "defaultHeartbeatTimeout = 30 * 10 ^ 9"

definition LoadQueue :: "db \<Rightarrow> (err + Queue \<times> string) \<times> db" where
  "LoadQueue s = (case Store_Get queueKey s of
     (Inl e, s) \<Rightarrow> (Inl (StoreErr e), s)
   | (Inr (body, etag), s) \<Rightarrow> (case body of
       WQueue q \<Rightarrow> (Inr (q, etag), s)
     | _ \<Rightarrow> (Inl DecodeErr, s)))"

definition EnsureQueue :: "db \<Rightarrow> (err + unit) \<times> db" where
  "EnsureQueue s = (case LoadQueue s of
     (Inr _, s) \<Rightarrow> (Inr (), s)
   | (Inl e, s) \<Rightarrow>
       if \<not> is_not_found e then (Inl e, s)
       else (case Store_PutIfAbsent queueKey (WQueue \<lparr>qVersion = 1, qJobs = []\<rparr>) s of
         (Inr etag, s) \<Rightarrow> (Inr (), s)
       | (Inl e, s) \<Rightarrow> (if e = ErrPreconditionFailed then Inr () else Inl (StoreErr e), s)))"

fun save_queue_loop ::
    "nat \<Rightarrow> ('c \<Rightarrow> Queue \<Rightarrow> bool \<times> Queue \<times> 'c) \<Rightarrow> 'c \<Rightarrow> db \<Rightarrow> ((err + Queue \<times> bool) \<times> 'c) \<times> db" where
  "save_queue_loop 0 mutate c s = ((Inl ExhaustedCAS, c), s)"
| "save_queue_loop (Suc n) mutate c s = (case LoadQueue s of
     (Inl e, s) \<Rightarrow> ((Inl e, c), s)
   | (Inr (q, etag), s) \<Rightarrow> (case mutate c q of
       (False, q, c) \<Rightarrow> ((Inr (q, False), c), s)
     | (True, q, c) \<Rightarrow>
         (let q = q\<lparr>qVersion := qVersion q + 1\<rparr> in
          case Store_PutCAS queueKey (WQueue q) etag s of
            (Inr _, s) \<Rightarrow> ((Inr (q, True), c), s)
          | (Inl e, s) \<Rightarrow>
              if e = ErrPreconditionFailed then save_queue_loop n mutate c s
              else ((Inl (StoreErr e), c), s))))"

definition SaveQueueCAS ::
    "('c \<Rightarrow> Queue \<Rightarrow> bool \<times> Queue \<times> 'c) \<Rightarrow> 'c \<Rightarrow> db \<Rightarrow> ((err + Queue \<times> bool) \<times> 'c) \<times> db" where
  "SaveQueueCAS = save_queue_loop maxQueueCASAttempts"

text \<open>
  \<open>find_job P js\<close> is the loop \<open>for i := range q.Jobs\<close> that stops at the first job that satisfies \<open>P\<close>.
\<close>

fun find_job :: "(Job \<Rightarrow> bool) \<Rightarrow> Job list \<Rightarrow> nat option" where
  "find_job P [] = None"
| "find_job P (j # js) = (if P j then Some 0 else map_option Suc (find_job P js))"

text \<open>The closure of \<open>EnqueueReindex\<close>; the captured state is \<open>added\<close> and the clock.\<close>

definition enqueue_job :: "string \<Rightarrow> int \<Rightarrow> bool \<times> clock \<Rightarrow> Queue \<Rightarrow> bool \<times> Queue \<times> bool \<times> clock" where
  "enqueue_job ns requestedUpTo c q = (case c of (added, clk) \<Rightarrow>
     (case find_job (\<lambda>j. jNamespace j = ns) (qJobs q) of
        Some i \<Rightarrow>
          if requestedUpTo > jRequestedUpTo (qJobs q ! i)
          then (True, q\<lparr>qJobs := (qJobs q)[i := (qJobs q ! i)\<lparr>jRequestedUpTo := requestedUpTo\<rparr>]\<rparr>, False, clk)
          else (False, q, added, clk)
      | None \<Rightarrow> (let (now, clk) = time_Now clk in
          (True, q\<lparr>qJobs := qJobs q @ [\<lparr>jNamespace = ns, jRequestedUpTo = requestedUpTo,
             jState = JobUnclaimed, jWorker = [], jHeartbeatAt = 0, jEnqueuedAt = now\<rparr>]\<rparr>, True, clk))))"

definition EnqueueReindex :: "clock \<Rightarrow> string \<Rightarrow> int \<Rightarrow> db \<Rightarrow> (err + bool) \<times> db" where
  "EnqueueReindex clk ns requestedUpTo s = (case EnsureQueue s of
     (Inl e, s) \<Rightarrow> (Inl e, s)
   | (Inr _, s) \<Rightarrow> (case SaveQueueCAS (enqueue_job ns requestedUpTo) (False, clk) s of
       ((Inl e, _), s) \<Rightarrow> (Inl e, s)
     | ((Inr _, added, _), s) \<Rightarrow> (Inr added, s)))"

definition eligible :: "int \<Rightarrow> int \<Rightarrow> Job \<Rightarrow> bool" where
  "eligible timeout now j = (case jState j of
     JobUnclaimed \<Rightarrow> True
   | JobInProgress \<Rightarrow> time_Sub now (jHeartbeatAt j) > timeout
   | JobOther _ \<Rightarrow> False)"

fun pick_loop :: "Job list \<Rightarrow> nat \<Rightarrow> int \<Rightarrow> int \<Rightarrow> Job list \<Rightarrow> nat option \<Rightarrow> nat option" where
  "pick_loop all i timeout now [] best = best"
| "pick_loop all i timeout now (j # js) best =
     pick_loop all (Suc i) timeout now js
       (if \<not> eligible timeout now j then best
        else (case best of
          None \<Rightarrow> Some i
        | Some b \<Rightarrow> if jEnqueuedAt j < jEnqueuedAt (all ! b) then Some i else best))"

definition pickEligible :: "Job list \<Rightarrow> int \<Rightarrow> int \<Rightarrow> nat option" where
  "pickEligible jobs timeout now = pick_loop jobs 0 timeout now jobs None"

text \<open>The closure of \<open>ClaimNextJob\<close>; it resets what it captured, \<open>claimed\<close>, at every attempt.\<close>

definition claim_job ::
    "string \<Rightarrow> int \<Rightarrow> Job option \<times> clock \<Rightarrow> Queue \<Rightarrow> bool \<times> Queue \<times> Job option \<times> clock" where
  "claim_job worker timeout c q = (case c of (_, clk) \<Rightarrow>
     (let (now, clk) = time_Now clk in
      case pickEligible (qJobs q) timeout now of
        None \<Rightarrow> (False, q, None, clk)
      | Some i \<Rightarrow> (let (now', clk) = time_Now clk;
            j = (qJobs q ! i)\<lparr>jState := JobInProgress, jWorker := worker, jHeartbeatAt := now'\<rparr>
          in (True, q\<lparr>qJobs := (qJobs q)[i := j]\<rparr>, Some j, clk))))"

definition ClaimNextJob :: "clock \<Rightarrow> string \<Rightarrow> int \<Rightarrow> db \<Rightarrow> (err + Job option) \<times> db" where
  "ClaimNextJob clk worker timeout0 s =
     (let timeout = (if timeout0 \<le> 0 then defaultHeartbeatTimeout else timeout0) in
      case EnsureQueue s of
        (Inl e, s) \<Rightarrow> (Inl e, s)
      | (Inr _, s) \<Rightarrow> (case SaveQueueCAS (claim_job worker timeout) (None, clk) s of
          ((Inl e, _), s) \<Rightarrow> (Inl e, s)
        | ((Inr (q, wr), claimed, _), s) \<Rightarrow> (Inr (if \<not> wr then None else claimed), s)))"

definition heartbeat_job ::
    "string \<Rightarrow> string \<Rightarrow> bool \<times> clock \<Rightarrow> Queue \<Rightarrow> bool \<times> Queue \<times> bool \<times> clock" where
  "heartbeat_job ns worker c q = (case c of (ok, clk) \<Rightarrow>
     (case find_job (\<lambda>j. jNamespace j = ns \<and> jState j = JobInProgress \<and> jWorker j = worker) (qJobs q) of
        None \<Rightarrow> (False, q, ok, clk)
      | Some i \<Rightarrow> (let (now, clk) = time_Now clk in
          (True, q\<lparr>qJobs := (qJobs q)[i := (qJobs q ! i)\<lparr>jHeartbeatAt := now\<rparr>]\<rparr>, True, clk))))"

definition HeartbeatJob :: "clock \<Rightarrow> string \<Rightarrow> string \<Rightarrow> db \<Rightarrow> (err + bool) \<times> db" where
  "HeartbeatJob clk ns worker s = (case SaveQueueCAS (heartbeat_job ns worker) (False, clk) s of
     ((Inl e, _), s) \<Rightarrow> (Inl e, s)
   | ((Inr _, ok, _), s) \<Rightarrow> (Inr ok, s))"

definition complete_job :: "string \<Rightarrow> string \<Rightarrow> bool \<Rightarrow> Queue \<Rightarrow> bool \<times> Queue \<times> bool" where
  "complete_job ns worker removed q =
     (case find_job (\<lambda>j. jNamespace j = ns \<and> jWorker j = worker) (qJobs q) of
        None \<Rightarrow> (False, q, removed)
      | Some i \<Rightarrow> (True, q\<lparr>qJobs := take i (qJobs q) @ drop (Suc i) (qJobs q)\<rparr>, True))"

definition CompleteJob :: "string \<Rightarrow> string \<Rightarrow> db \<Rightarrow> (err + bool) \<times> db" where
  "CompleteJob ns worker s = (case SaveQueueCAS (complete_job ns worker) False s of
     ((Inl e, _), s) \<Rightarrow> (Inl e, s)
   | ((Inr _, removed), s) \<Rightarrow> (Inr removed, s))"

definition enqueued_before :: "Job \<Rightarrow> Job \<Rightarrow> bool" where
  "enqueued_before a b \<longleftrightarrow> jEnqueuedAt a < jEnqueuedAt b"

definition QueueSnapshot :: "db \<Rightarrow> (err + Job list) \<times> db" where
  "QueueSnapshot s = (case LoadQueue s of
     (Inl e, s) \<Rightarrow> (if is_not_found e then Inr [] else Inl e, s)
   | (Inr (q, etag), s) \<Rightarrow> (Inr (sort_by enqueued_before (qJobs q)), s))"

text \<open>The enqueueing side of \<open>namespace.go\<close>.\<close>

definition EnqueueReindexIfBehind :: "clock \<Rightarrow> string \<Rightarrow> int \<Rightarrow> db \<Rightarrow> (err + bool) \<times> db" where
  "EnqueueReindexIfBehind clk ns threshold s = (case Info ns s of
     (Inl e, s) \<Rightarrow> (Inl e, s)
   | (Inr m, s) \<Rightarrow> (let lag = mWALSeq m - mIndexedUpTo m in
       if lag \<le> 0 \<or> lag < threshold then (Inr False, s)
       else EnqueueReindex clk ns (mWALSeq m) s))"

interpretation job_order: slice_order enqueued_before "\<lambda>_. True"
  by unfold_locales (auto simp: enqueued_before_def)

section \<open>Picking a job\<close>

lemma find_job_Some:
  "find_job P js = Some i \<Longrightarrow> i < length js \<and> P (js ! i) \<and> (\<forall>k < i. \<not> P (js ! k))"
proof (induction js arbitrary: i)
  case (Cons j js)
  show ?case
  proof (cases "P j")
    case False
    with Cons.prems obtain i' where i': "i = Suc i'" "find_job P js = Some i'" by auto
    have "\<not> P ((j # js) ! k)" if "k < i" for k
      using that Cons.IH [OF i'(2)] i'(1) False by (cases k) auto
    with Cons.IH [OF i'(2)] i'(1) show ?thesis by auto
  qed (use Cons.prems in auto)
qed simp

lemma find_job_None: "find_job P js = None \<longleftrightarrow> (\<forall>j \<in> set js. \<not> P j)"
  by (induction js) auto

text \<open>
  \<open>best_of all k timeout now b\<close>: among the first \<open>k\<close> jobs, \<open>b\<close> is the first of the oldest eligible
  ones, or there is none.
\<close>

definition best_of :: "Job list \<Rightarrow> nat \<Rightarrow> int \<Rightarrow> int \<Rightarrow> nat option \<Rightarrow> bool" where
  "best_of all k timeout now b = (case b of
     None \<Rightarrow> (\<forall>i < k. \<not> eligible timeout now (all ! i))
   | Some i \<Rightarrow> i < k \<and> eligible timeout now (all ! i) \<and>
       (\<forall>j < k. eligible timeout now (all ! j) \<longrightarrow>
          jEnqueuedAt (all ! i) \<le> jEnqueuedAt (all ! j) \<and>
          (jEnqueuedAt (all ! i) = jEnqueuedAt (all ! j) \<longrightarrow> i \<le> j)))"

lemma best_of_step:
  assumes "best_of all k timeout now b"
  shows "best_of all (Suc k) timeout now
     (if \<not> eligible timeout now (all ! k) then b
      else (case b of None \<Rightarrow> Some k
        | Some i \<Rightarrow> if jEnqueuedAt (all ! k) < jEnqueuedAt (all ! i) then Some k else b))"
proof (cases "eligible timeout now (all ! k)")
  case False
  with assms show ?thesis by (auto simp: best_of_def less_Suc_eq split: option.splits)
next
  case True
  show ?thesis
  proof (cases b)
    case None
    with assms True show ?thesis by (auto simp: best_of_def less_Suc_eq)
  next
    case (Some i)
    show ?thesis
    proof (cases "jEnqueuedAt (all ! k) < jEnqueuedAt (all ! i)")
      case True
      with assms Some \<open>eligible _ _ _\<close> show ?thesis by (fastforce simp: best_of_def less_Suc_eq)
    next
      case False
      with assms Some \<open>eligible _ _ _\<close> show ?thesis by (fastforce simp: best_of_def less_Suc_eq)
    qed
  qed
qed

lemma pick_loop_best:
  "best_of (xs @ js) (length xs) timeout now b \<Longrightarrow>
   best_of (xs @ js) (length (xs @ js)) timeout now (pick_loop (xs @ js) (length xs) timeout now js b)"
proof (induction js arbitrary: xs b)
  case (Cons j js)
  have "best_of ((xs @ [j]) @ js) (length (xs @ [j])) timeout now
      (if \<not> eligible timeout now j then b
       else (case b of None \<Rightarrow> Some (length xs)
         | Some i \<Rightarrow> if jEnqueuedAt j < jEnqueuedAt ((xs @ j # js) ! i) then Some (length xs) else b))"
    using best_of_step [OF Cons.prems] unfolding nth_append_length by (simp del: nth_append_length)
  from Cons.IH [OF this] show ?case by simp
qed simp

lemma pickEligible_best: "best_of jobs (length jobs) timeout now (pickEligible jobs timeout now)"
  using pick_loop_best [of "[]" jobs timeout now None] by (simp add: pickEligible_def best_of_def)

section \<open>The closures keep the queue well formed\<close>

definition keeps_queue_ok :: "('c \<Rightarrow> Queue \<Rightarrow> bool \<times> Queue \<times> 'c) \<Rightarrow> bool" where
  "keeps_queue_ok mutate \<longleftrightarrow> (\<forall>c q. queue_ok q \<longrightarrow> queue_ok (fst (snd (mutate c q))))"

lemma queue_ok_update:
  assumes "queue_ok q" "jNamespace j = jNamespace (qJobs q ! i)"
  shows "queue_ok (q\<lparr>qJobs := (qJobs q)[i := j]\<rparr>)"
proof -
  have "map jNamespace ((qJobs q)[i := j]) = map jNamespace (qJobs q)"
    using assms(2) by (cases "i < length (qJobs q)") (auto intro!: nth_equalityI simp: nth_list_update map_update)
  with assms(1) show ?thesis by (simp add: queue_ok_def)
qed

lemma enqueue_keeps: "keeps_queue_ok (enqueue_job ns w)"
proof -
  have "queue_ok (q\<lparr>qJobs := qJobs q @ [j]\<rparr>)"
    if "queue_ok q" "find_job (\<lambda>j. jNamespace j = ns) (qJobs q) = None" "jNamespace j = ns" for q j
    using that by (auto simp: queue_ok_def find_job_None)
  then show ?thesis
    by (auto simp: keeps_queue_ok_def enqueue_job_def Let_def intro: queue_ok_update
        split: option.split prod.split)
qed

lemma claim_keeps: "keeps_queue_ok (claim_job worker timeout)"
  by (auto simp: keeps_queue_ok_def claim_job_def Let_def intro: queue_ok_update
      split: option.split prod.split)

lemma heartbeat_keeps: "keeps_queue_ok (heartbeat_job ns worker)"
  by (auto simp: keeps_queue_ok_def heartbeat_job_def Let_def intro: queue_ok_update
      split: option.split prod.split)

lemma distinct_take_drop: "distinct xs \<Longrightarrow> distinct (take i xs @ drop (Suc i) xs)"
  by (induction xs arbitrary: i)
    (auto simp: take_Cons drop_Cons split: nat.split dest: in_set_takeD in_set_dropD)

lemma complete_keeps: "keeps_queue_ok (complete_job ns worker)"
proof -
  have "queue_ok (q\<lparr>qJobs := take i (qJobs q) @ drop (Suc i) (qJobs q)\<rparr>)" if "queue_ok q" for q i
    using distinct_take_drop [of "map jNamespace (qJobs q)" i] that
    by (simp add: queue_ok_def take_map drop_map del: distinct_append)
  then show ?thesis by (auto simp: keeps_queue_ok_def complete_job_def split: option.split)
qed

section \<open>The loop runs the protocol\<close>

definition queue_at :: "wire MemStore \<Rightarrow> Queue option" where
  "queue_at m = (case MemStore_Get m queueKey of Inr (WQueue q, e) \<Rightarrow> Some q | _ \<Rightarrow> None)"

lemma queue_at_Some: "MemStore_Get m queueKey = Inr (WQueue q, e) \<Longrightarrow> queue_at m = Some q"
  by (simp add: queue_at_def)

lemma queue_at_ok:
  assumes "pinv m" "queue_at m = Some q"
  shows "queue_ok q"
proof -
  from assms(2) obtain e where e: "MemStore_Get m queueKey = Inr (WQueue q, e)"
    by (auto simp: queue_at_def split: sum.splits prod.splits wire.splits)
  from assms(1) have "typed m" by (simp add: pinv_def)
  with e obtain q' where "WQueue q = WQueue q'" "queue_ok q'" unfolding typed_def by blast
  then show ?thesis by simp
qed

lemma LoadQueue_fair:
  assumes "db_fair s" "LoadQueue s = (r, s')"
  shows "psteps (mem_of s) (mem_of s') \<and> db_fair s' \<and>
    (\<forall>q e. r = Inr (q, e) \<longrightarrow> MemStore_Get (mem_of s') queueKey = Inr (WQueue q, e) \<and> queue_ok q)"
proof -
  obtain r1 s1 where g: "Store_Get queueKey s = (r1, s1)" by (cases "Store_Get queueKey s")
  note f = Store_Get_fair [OF assms(1) g]
  have s1: "s' = s1" using assms(2) g by (auto simp: LoadQueue_def split: sum.splits wire.splits)
  have "MemStore_Get (mem_of s1) queueKey = Inr (WQueue q, e)" if "r = Inr (q, e)" for q e
    using f assms(2) g that by (auto simp: LoadQueue_def split: sum.splits wire.splits)
  moreover have "queue_ok q" if "MemStore_Get (mem_of s1) queueKey = Inr (WQueue q, e)" for q e
    using queue_at_ok [OF _ queue_at_Some [OF that]] f fair_pinv by blast
  ultimately show ?thesis using f s1 by blast
qed

lemma EnsureQueue_fair:
  assumes "db_fair s" "EnsureQueue s = (r, s')"
  shows "psteps (mem_of s) (mem_of s') \<and> db_fair s'"
proof -
  obtain r1 s1 where l: "LoadQueue s = (r1, s1)" by (cases "LoadQueue s")
  note f1 = LoadQueue_fair [OF assms(1) l]
  let ?q = "\<lparr>qVersion = 1, qJobs = []\<rparr>"
  obtain r2 s2 where p: "Store_PutIfAbsent queueKey (WQueue ?q) s1 = (r2, s2)"
    by (cases "Store_PutIfAbsent queueKey (WQueue ?q) s1")
  have fair1: "db_fair s1" using f1 by blast
  have "pstep m m'" if "MemStore_PutIfAbsent m queueKey (WQueue ?q) = (Inr e, m')" for m m' e
    using pstep.queue_create [OF _ that] by (simp add: queue_ok_def)
  with Store_PutIfAbsent_fair [OF fair1 p] have f2: "psteps (mem_of s1) (mem_of s2)" "db_fair s2" by blast+
  have "s' = s1 \<or> s' = s2" using assms(2) l p by (auto simp: EnsureQueue_def split: sum.splits if_splits)
  with f1 f2 show ?thesis by (metis rtranclp_trans)
qed

lemma save_queue_loop_fair:
  assumes "db_fair s" "save_queue_loop n mutate c s = ((r, c'), s')" "keeps_queue_ok mutate"
  shows "psteps (mem_of s) (mem_of s') \<and> db_fair s' \<and>
    (\<forall>q'. r = Inr (q', True) \<longrightarrow> (\<exists>mem q0 q1 c0. psteps (mem_of s) mem \<and> pstep mem (mem_of s') \<and>
       queue_at mem = Some q0 \<and> mutate c0 q0 = (True, q1, c') \<and> q' = q1\<lparr>qVersion := qVersion q1 + 1\<rparr> \<and>
       queue_at (mem_of s') = Some q')) \<and>
    (\<forall>q'. r = Inr (q', False) \<longrightarrow> (\<exists>q0 c0. queue_at (mem_of s') = Some q0 \<and> mutate c0 q0 = (False, q', c')))"
  using assms(1,2)
proof (induction n arbitrary: s c)
  case (Suc n)
  obtain r1 s1 where l: "LoadQueue s = (r1, s1)" by (cases "LoadQueue s")
  note f1 = LoadQueue_fair [OF Suc.prems(1) l]
  show ?case
  proof (cases r1)
    case (Inl e)
    with Suc.prems(2) l f1 show ?thesis by auto
  next
    case (Inr x)
    obtain q e0 where x: "x = (q, e0)" by (cases x)
    have get1: "MemStore_Get (mem_of s1) queueKey = Inr (WQueue q, e0)" and ok: "queue_ok q"
      using f1 Inr x by auto
    have fair1: "db_fair s1" and p1: "psteps (mem_of s) (mem_of s1)" using f1 by auto
    obtain w q1 c1 where mut: "mutate c q = (w, q1, c1)" by (cases "mutate c q") auto
    show ?thesis
    proof (cases w)
      case False
      with Suc.prems(2) l Inr x mut have "s' = s1" "r = Inr (q1, False)" "c' = c1" by auto
      with False mut get1 p1 fair1 show ?thesis by (auto intro: queue_at_Some)
    next
      case True
      let ?q = "q1\<lparr>qVersion := qVersion q1 + 1\<rparr>"
      have "queue_ok q1" using assms(3) ok mut unfolding keeps_queue_ok_def by (metis fst_conv snd_conv)
      then have ok1: "queue_ok ?q" by (simp add: queue_ok_def)
      obtain r2 s2 where p: "Store_PutCAS queueKey (WQueue ?q) e0 s1 = (r2, s2)"
        by (cases "Store_PutCAS queueKey (WQueue ?q) e0 s1")
      have step: "pstep m m'" if "MemStore_PutCAS m queueKey (WQueue ?q) e0 = (Inr e, m')" for m m' e
        using ok1 that by (rule pstep.queue_update)
      from Store_PutCAS_fair [OF fair1 p step]
      have f2: "psteps (mem_of s1) (mem_of s2)" "db_fair s2"
        "r2 \<noteq> Inl ErrOther \<Longrightarrow> \<exists>m. psteps (mem_of s1) m \<and> pinv m \<and>
          MemStore_PutCAS m queueKey (WQueue ?q) e0 = (r2, mem_of s2)" by auto
      have p2: "psteps (mem_of s) (mem_of s2)" using p1 f2(1) by (rule rtranclp_trans)
      show ?thesis
      proof (cases r2)
        case i2: (Inr e)
        have s2: "s' = s2" "r = Inr (?q, True)" "c' = c1"
          using Suc.prems(2) l Inr x mut True p i2 by (auto simp: Let_def)
        from f2(3) i2 obtain m where m: "psteps (mem_of s1) m"
          "MemStore_PutCAS m queueKey (WQueue ?q) e0 = (Inr e, mem_of s2)" by auto
        from cas_current [OF m(1) fair_pinv [OF fair1] get1 m(2)]
        have "queue_at m = Some q" "queue_at (mem_of s2) = Some ?q" by (auto intro: queue_at_Some)
        moreover have "psteps (mem_of s) m" using p1 m(1) by (rule rtranclp_trans)
        moreover have "mutate c q = (True, q1, c')" using mut True s2(3) by simp
        ultimately have "\<exists>mem q0 q1' c0. psteps (mem_of s) mem \<and> pstep mem (mem_of s2) \<and>
          queue_at mem = Some q0 \<and> mutate c0 q0 = (True, q1', c') \<and> ?q = q1'\<lparr>qVersion := qVersion q1' + 1\<rparr> \<and>
          queue_at (mem_of s2) = Some ?q" using step [OF m(2)] by blast
        with s2(1,2) p2 f2(2) show ?thesis by fastforce
      next
        case i2: (Inl e)
        show ?thesis
        proof (cases "e = ErrPreconditionFailed")
          case e: True
          with Suc.prems(2) l Inr x mut True p i2 have "save_queue_loop n mutate c1 s2 = ((r, c'), s')"
            by (simp add: Let_def)
          from Suc.IH [OF f2(2) this] rtranclp_trans [OF p2] show ?thesis by blast
        next
          case False
          with Suc.prems(2) l Inr x mut True p i2 have "s' = s2" "\<exists>e. r = Inl e" by (auto simp: Let_def)
          with p2 f2(2) show ?thesis by auto
        qed
      qed
    qed
  qed
qed auto

lemmas SaveQueueCAS_fair = save_queue_loop_fair [of _ maxQueueCASAttempts, folded SaveQueueCAS_def]

section \<open>Properties\<close>

text \<open>A job that a worker may take: unclaimed, or in progress with its last heartbeat longer ago than the timeout.\<close>

definition claimable :: "int \<Rightarrow> int \<Rightarrow> Job \<Rightarrow> bool" where
  "claimable timeout now j \<longleftrightarrow> jState j = JobUnclaimed \<or> jState j = JobInProgress \<and> time_Sub now (jHeartbeatAt j) > timeout"

lemma eligible_claimable: "eligible timeout now j \<longleftrightarrow> claimable timeout now j"
  by (auto simp: eligible_def claimable_def split: JobState.splits)


text \<open>
  C20.  A notification is never lost.  When \<open>EnqueueReindex\<close> returns without error, under any
  interference, the queue it leaves behind has a job for the namespace that asks for at least the
  requested position, and has only one.
\<close>

theorem EnqueueReindex_leaves_one_job:
  assumes "db_fair s" and "EnqueueReindex clk ns w s = (Inr added, s')"
  shows "psteps (mem_of s) (mem_of s') \<and> (\<exists>q. queue_at (mem_of s') = Some q \<and> queue_ok q \<and>
    (\<exists>j \<in> set (qJobs q). jNamespace j = ns \<and> w \<le> jRequestedUpTo j))"
proof -
  obtain r1 s1 where e: "EnsureQueue s = (r1, s1)" by (cases "EnsureQueue s")
  note f1 = EnsureQueue_fair [OF assms(1) e]
  obtain r2 c2 s2 where sv: "SaveQueueCAS (enqueue_job ns w) (False, clk) s1 = ((r2, c2), s2)"
    by (cases "SaveQueueCAS (enqueue_job ns w) (False, clk) s1") auto
  from assms(2) e sv obtain q' wr where r: "r2 = Inr (q', wr)" "s' = s2"
    by (auto simp: EnqueueReindex_def split: sum.splits prod.splits)
  have fair1: "db_fair s1" using f1 by blast
  note f2 = SaveQueueCAS_fair [OF fair1 sv enqueue_keeps]
  have "pinv (mem_of s2)" using f2 fair_pinv by blast
  note ok = queue_at_ok [OF this]
  have job: "\<exists>j \<in> set (qJobs q1). jNamespace j = ns \<and> w \<le> jRequestedUpTo j"
    if "enqueue_job ns w c0 q0 = (b, q1, c2)" for b c0 q0 q1
  proof (cases "find_job (\<lambda>j. jNamespace j = ns) (qJobs q0)")
    case None
    with that show ?thesis by (cases c0) (auto simp: enqueue_job_def Let_def split: prod.splits)
  next
    case (Some i)
    note i = find_job_Some [OF Some]
    show ?thesis
    proof (cases "w > jRequestedUpTo (qJobs q0 ! i)")
      case True
      with that Some have "q1 = q0\<lparr>qJobs := (qJobs q0)[i := (qJobs q0 ! i)\<lparr>jRequestedUpTo := w\<rparr>]\<rparr>"
        by (cases c0) (auto simp: enqueue_job_def)
      with i show ?thesis by (intro bexI [of _ "(qJobs q0 ! i)\<lparr>jRequestedUpTo := w\<rparr>"]) (auto intro: set_update_memI)
    next
      case False
      with that Some have "q1 = q0" by (cases c0) (auto simp: enqueue_job_def)
      with i False show ?thesis by (intro bexI [of _ "qJobs q0 ! i"]) auto
    qed
  qed
  have "\<exists>q. queue_at (mem_of s2) = Some q \<and> (\<exists>j \<in> set (qJobs q). jNamespace j = ns \<and> w \<le> jRequestedUpTo j)"
  proof (cases wr)
    case True
    with f2 r obtain q0 q1 c0 where "enqueue_job ns w c0 q0 = (True, q1, c2)"
      "queue_at (mem_of s2) = Some (q1\<lparr>qVersion := qVersion q1 + 1\<rparr>)" by blast
    with job [OF this(1)] show ?thesis by auto
  next
    case False
    with f2 r obtain q0 c0 where q0: "queue_at (mem_of s2) = Some q0" "enqueue_job ns w c0 q0 = (False, q', c2)" by blast
    then have "q' = q0" by (cases c0) (auto simp: enqueue_job_def Let_def split: option.splits if_splits prod.splits)
    with job [OF q0(2)] q0(1) show ?thesis by auto
  qed
  with ok f1 f2 r(2) show ?thesis by (meson rtranclp_trans)
qed

text \<open>
  A worker only completes its own job.  When \<open>CompleteJob\<close> changes the queue, under any
  interference, it removed one job of that namespace that this worker owned at the moment of the
  write, and nothing else.
\<close>

theorem CompleteJob_removes_own_job:
  assumes "db_fair s" and "SaveQueueCAS (complete_job ns worker) removed s = ((Inr (q', True), c'), s')"
  shows "\<exists>mem q i. psteps (mem_of s) mem \<and> pstep mem (mem_of s') \<and> queue_at mem = Some q \<and>
    i < length (qJobs q) \<and> jNamespace (qJobs q ! i) = ns \<and> jWorker (qJobs q ! i) = worker \<and>
    queue_at (mem_of s') = Some \<lparr>qVersion = qVersion q + 1,
      qJobs = take i (qJobs q) @ drop (Suc i) (qJobs q)\<rparr>"
proof -
  from SaveQueueCAS_fair [OF assms complete_keeps] obtain mem q0 q1 c0 where
    m: "psteps (mem_of s) mem" "pstep mem (mem_of s')" "queue_at mem = Some q0"
      "complete_job ns worker c0 q0 = (True, q1, c')"
      "queue_at (mem_of s') = Some (q1\<lparr>qVersion := qVersion q1 + 1\<rparr>)" by blast
  from m(4) obtain i where i: "find_job (\<lambda>j. jNamespace j = ns \<and> jWorker j = worker) (qJobs q0) = Some i"
    "q1 = q0\<lparr>qJobs := take i (qJobs q0) @ drop (Suc i) (qJobs q0)\<rparr>"
    by (auto simp: complete_job_def split: option.splits)
  have "q1\<lparr>qVersion := qVersion q1 + 1\<rparr> = \<lparr>qVersion = qVersion q0 + 1,
      qJobs = take i (qJobs q0) @ drop (Suc i) (qJobs q0)\<rparr>" by (simp add: i(2))
  with find_job_Some [OF i(1)] m(1-3,5) show ?thesis by metis
qed

text \<open>
  What \<open>pickEligible\<close> picks: the first of the oldest eligible jobs, and none only when no job is
  eligible.
\<close>

theorem pickEligible_oldest:
  "case pickEligible jobs timeout now of
     None \<Rightarrow> list_ex (eligible timeout now) jobs = False
   | Some i \<Rightarrow> best_of jobs (length jobs) timeout now (Some i)"
  using pickEligible_best [of jobs timeout now]
  by (auto simp: best_of_def list_ex_length split: option.splits)

section \<open>Witnesses, and a stale answer\<close>

definition job0 :: "string \<Rightarrow> Job" where
  "job0 ns = \<lparr>jNamespace = ns, jRequestedUpTo = 3, jState = JobUnclaimed, jWorker = [],
     jHeartbeatAt = 0, jEnqueuedAt = 5\<rparr>"

definition queue_db :: db where
  "queue_db = snd (EnqueueReindex [5] ''n'' 3 fresh_db)"

lemma queue_db_fair: "db_fair queue_db"
proof -
  have "\<not> isl (fst (EnqueueReindex [5] ''n'' 3 fresh_db))" by code_simp
  then obtain a where "fst (EnqueueReindex [5] ''n'' 3 fresh_db) = Inr a"
    by (cases "fst (EnqueueReindex [5] ''n'' 3 fresh_db)") auto
  obtain s1 r1 where e: "EnsureQueue fresh_db = (r1, s1)" by (cases "EnsureQueue fresh_db")
  have fair1: "db_fair s1" using EnsureQueue_fair [OF fresh_fair e] by blast
  obtain r2 c2 s2 where sv: "SaveQueueCAS (enqueue_job ''n'' 3) (False, [5]) s1 = ((r2, c2), s2)"
    by (cases "SaveQueueCAS (enqueue_job ''n'' 3) (False, [5]) s1") auto
  have "db_fair s2" using SaveQueueCAS_fair [OF fair1 sv enqueue_keeps] by blast
  moreover have "queue_db = s1 \<or> queue_db = s2"
    unfolding queue_db_def using e sv by (auto simp: EnqueueReindex_def split: sum.splits prod.splits)
  ultimately show ?thesis using fair1 by auto
qed


theorem EnqueueReindex_leaves_one_job_witness:
  "\<exists>s' added q. EnqueueReindex [9] ''n'' 7 queue_db = (Inr added, s') \<and> queue_at (mem_of s') = Some q \<and>
    queue_ok q \<and> (\<exists>j \<in> set (qJobs q). jNamespace j = ''n'' \<and> 7 \<le> jRequestedUpTo j)"
proof -
  have "\<not> isl (fst (EnqueueReindex [9] ''n'' 7 queue_db))" by code_simp
  then obtain added s' where c: "EnqueueReindex [9] ''n'' 7 queue_db = (Inr added, s')"
    by (cases "EnqueueReindex [9] ''n'' 7 queue_db"; cases "fst (EnqueueReindex [9] ''n'' 7 queue_db)") auto
  from EnqueueReindex_leaves_one_job [OF queue_db_fair c] c show ?thesis by blast
qed

theorem CompleteJob_removes_own_job_witness:
  "\<exists>q' c' s' mem q i. SaveQueueCAS (complete_job ''n'' []) False queue_db = ((Inr (q', True), c'), s') \<and>
    pstep mem (mem_of s') \<and> queue_at mem = Some q \<and> i < length (qJobs q) \<and> jNamespace (qJobs q ! i) = ''n''"
proof -
  have "case fst (SaveQueueCAS (complete_job ''n'' []) False queue_db) of (Inr (q, True), c) \<Rightarrow> True | _ \<Rightarrow> False"
    by code_simp
  then obtain q' c' s' where c: "SaveQueueCAS (complete_job ''n'' []) False queue_db = ((Inr (q', True), c'), s')"
    by (cases "SaveQueueCAS (complete_job ''n'' []) False queue_db") (auto split: sum.splits prod.splits bool.splits)
  from CompleteJob_removes_own_job [OF queue_db_fair c] c show ?thesis by blast
qed

text \<open>
  \<open>ClaimNextJob\<close> resets the variable it captures at every attempt; the other three operations do not.
  Here worker \<open>w\<close> sends a heartbeat for a job it owns; another worker takes the job over just before
  the write, which is refused; the second attempt finds that the job is no longer \<open>w\<close>'s and writes
  nothing, but \<open>HeartbeatJob\<close> still reports that the heartbeat was accepted, which the comment says
  it must not: ownership has moved and \<open>w\<close> should abandon.
\<close>

definition owned_by :: "string \<Rightarrow> Queue" where
  "owned_by w = \<lparr>qVersion = 1, qJobs = [(job0 ''n'')\<lparr>jState := JobInProgress, jWorker := w\<rparr>]\<rparr>"

definition takeover_db :: db where
  "takeover_db = NewWithCapacity (\<lambda>k. k) \<lparr>bstore = snd (MemStore_Put MemStore_New queueKey (WQueue (owned_by ''w''))),
     bevents = [Event id Served, Event (\<lambda>m. snd (MemStore_Put m queueKey (WQueue (owned_by ''v'')))) Served]\<rparr> 0"

theorem HeartbeatJob_reports_lost_job:
  "case HeartbeatJob [1] ''n'' ''w'' takeover_db of (r, s') \<Rightarrow>
     r = Inr True \<and> queue_at (mem_of s') = Some (owned_by ''v'')"
  by code_simp

end
