(* ===== verification/Commit.thy ===== *)
theory Commit
  imports Durability
begin

text \<open>
  Group commit (\<open>commit.go\<close>).  The inbox is an unbuffered channel: what it holds are the sends that
  callers are blocked in, in arrival order, each under the read lock of the gate.  A result channel
  is the number it was allocated under, and \<open>coResults\<close> is what the flusher has sent on them.  The
  goroutines interleave as the steps of \<open>crun\<close>: a caller enqueues or gives up, the flusher
  takes a batch, \<open>Close\<close> shuts the gate, the flusher exits.  A caller that gives up after its send was
  received changes nothing here.
\<close>

section \<open>The committer\<close>

definition defaultMaxBatchDocs :: int where
  "defaultMaxBatchDocs = 10000"

record pendingWrite =
  pwDocs :: "Document list"
  pwResult :: nat

record Committer =
  coName :: string
  coMaxBatchDocs :: int
  coInbox :: "pendingWrite list"
  coDone :: bool
  coAccepting :: bool
  coNext :: nat
  coResults :: "(nat \<times> (err + unit)) list"

definition WithMaxBatchDocs :: "int \<Rightarrow> Committer \<Rightarrow> Committer" where
  "WithMaxBatchDocs n c = (if n > 0 then c\<lparr>coMaxBatchDocs := n\<rparr> else c)"

definition NewCommitter :: "string \<Rightarrow> (Committer \<Rightarrow> Committer) list \<Rightarrow> Committer" where
  "NewCommitter ns opts = fold (\<lambda>opt c. opt c) opts
     \<lparr>coName = ns, coMaxBatchDocs = defaultMaxBatchDocs, coInbox = [], coDone = False,
      coAccepting = True, coNext = 0, coResults = []\<rparr>"

text \<open>
  \<open>Upsert\<close> up to the point where it blocks: \<open>Some r\<close> is a return, \<open>None\<close> a wait for the result.
\<close>

definition Committer_Upsert ::
    "Document list \<Rightarrow> Committer \<Rightarrow> db \<Rightarrow> (err + unit) option \<times> Committer \<times> db" where
  "Committer_Upsert docs c s =
     (if docs = [] then (Some (Inr ()), c, s)
      else (case LoadManifest (coName c) s of
        (Inl e, s) \<Rightarrow> (Some (Inl e), c, s)
      | (Inr (m, etag), s) \<Rightarrow> (case validateDocs (mDimension m) docs of
          Inl e \<Rightarrow> (Some (Inl e), c, s)
        | Inr _ \<Rightarrow>
            (let w = \<lparr>pwDocs = docs, pwResult = coNext c\<rparr>; c = c\<lparr>coNext := coNext c + 1\<rparr> in
             if \<not> coAccepting c then (Some (Inl ErrClosed), c, s)
             else (None, c\<lparr>coInbox := coInbox c @ [w]\<rparr>, s)))))"

text \<open>The drain of \<open>flush\<close>: a send that is there is received while the batch is below the cap.\<close>

fun drain :: "int \<Rightarrow> Document list \<Rightarrow> pendingWrite list \<Rightarrow> pendingWrite list \<Rightarrow>
    Document list \<times> pendingWrite list \<times> pendingWrite list" where
  "drain cap ops batch [] = (ops, batch, [])"
| "drain cap ops batch (w # ws) =
     (if int (length ops) < cap then drain cap (ops @ pwDocs w) (batch @ [w]) ws
      else (ops, batch, w # ws))"

text \<open>What follows the label \<open>commit\<close>: the hint is the current end of the log.\<close>

definition flush_commit :: "string \<Rightarrow> Document list \<Rightarrow> db \<Rightarrow> (err + unit) \<times> db" where
  "flush_commit ns ops s = (case LoadManifest ns s of
     (Inl e, s) \<Rightarrow> (Inl e, s)
   | (Inr (m, etag), s) \<Rightarrow> commitBatch ns (mWALSeq m) ops s)"

definition flush :: "pendingWrite \<Rightarrow> Committer \<Rightarrow> db \<Rightarrow> Committer \<times> db" where
  "flush first c s = (case drain (coMaxBatchDocs c) (pwDocs first) [first] (coInbox c) of
     (ops, batch, rest) \<Rightarrow>
       (case flush_commit (coName c) ops s of
         (r, s) \<Rightarrow> (c\<lparr>coInbox := rest,
             coResults := coResults c @ map (\<lambda>w. (pwResult w, r)) batch\<rparr>, s)))"

text \<open>
  \<open>Close\<close> gets the write lock once no sender is left; \<open>sync.Once\<close> makes the second call do nothing,
  which for these fields is the same as doing it again.
\<close>

definition Committer_Close :: "Committer \<Rightarrow> Committer" where
  "Committer_Close c = c\<lparr>coAccepting := False\<rparr>"

datatype clabel =
    Refused "Document list" "err + unit"
  | Accepted nat "Document list"
  | Cancelled nat
  | Flushed "pendingWrite list"
  | Closed
  | Exited

inductive crun :: "Committer \<times> db \<Rightarrow> clabel list \<Rightarrow> Committer \<times> db \<Rightarrow> bool" where
  start: "crun x [] x"
| refuse: "crun x ls (c, s) \<Longrightarrow> Committer_Upsert docs c s = (Some r, c', s') \<Longrightarrow>
    crun x (ls @ [Refused docs r]) (c', s')"
| accept: "crun x ls (c, s) \<Longrightarrow> Committer_Upsert docs c s = (None, c', s') \<Longrightarrow>
    crun x (ls @ [Accepted (coNext c) docs]) (c', s')"
| cancel: "crun x ls (c, s) \<Longrightarrow> i \<in> pwResult ` set (coInbox c) \<Longrightarrow>
    crun x (ls @ [Cancelled i]) (c\<lparr>coInbox := filter (\<lambda>w. pwResult w \<noteq> i) (coInbox c)\<rparr>, s)"
| flush: "crun x ls (c, s) \<Longrightarrow> coInbox c = w # ws \<Longrightarrow> flush w (c\<lparr>coInbox := ws\<rparr>) s = (c', s') \<Longrightarrow>
    crun x (ls @ [Flushed (take (length (coInbox c) - length (coInbox c')) (coInbox c))]) (c', s')"
| close: "crun x ls (c, s) \<Longrightarrow> coInbox c = [] \<Longrightarrow> crun x (ls @ [Closed]) (Committer_Close c, s)"
| exit: "crun x ls (c, s) \<Longrightarrow> \<not> coAccepting c \<Longrightarrow> coInbox c = [] \<Longrightarrow>
    crun x (ls @ [Exited]) (c\<lparr>coDone := True\<rparr>, s)"

section \<open>One flush\<close>

text \<open>
  What a drain takes is a prefix of what was waiting, as long as the cap allows and no longer.
\<close>

definition drained :: "int \<Rightarrow> pendingWrite list \<Rightarrow> pendingWrite list \<Rightarrow> bool" where
  "drained cap batch rest \<longleftrightarrow> batch \<noteq> [] \<and>
     (1 < length batch \<longrightarrow> int (length (concat (map pwDocs (butlast batch)))) < cap) \<and>
     (rest \<noteq> [] \<longrightarrow> cap \<le> int (length (concat (map pwDocs batch))))"

lemma drain_spec:
  assumes "drain cap ops batch ws = (ops', batch', rest)" "ops = concat (map pwDocs batch)" "batch \<noteq> []"
    and "1 < length batch \<longrightarrow> int (length (concat (map pwDocs (butlast batch)))) < cap"
  shows "ops' = concat (map pwDocs batch') \<and> batch @ ws = batch' @ rest \<and> drained cap batch' rest"
  using assms
proof (induction ws arbitrary: ops batch)
  case (Cons w ws)
  show ?case
  proof (cases "int (length ops) < cap")
    case True
    with Cons.prems Cons.IH [of "ops @ pwDocs w" "batch @ [w]"] show ?thesis by simp
  next
    case False
    with Cons.prems show ?thesis by (auto simp: drained_def)
  qed
qed (auto simp: drained_def)

lemma flush_spec:
  assumes "flush w c s = (c', s')"
  obtains batch rest r where "w # coInbox c = batch @ rest" "drained (coMaxBatchDocs c) batch rest"
    "c' = c\<lparr>coInbox := rest, coResults := coResults c @ map (\<lambda>w. (pwResult w, r)) batch\<rparr>"
    "flush_commit (coName c) (concat (map pwDocs batch)) s = (r, s')"
proof -
  obtain ops batch rest where d: "drain (coMaxBatchDocs c) (pwDocs w) [w] (coInbox c) = (ops, batch, rest)"
    by (cases "drain (coMaxBatchDocs c) (pwDocs w) [w] (coInbox c)")
  from drain_spec [OF d] have b: "ops = concat (map pwDocs batch)" "w # coInbox c = batch @ rest"
    "drained (coMaxBatchDocs c) batch rest" by auto
  obtain r s1 where x: "flush_commit (coName c) ops s = (r, s1)" by (cases "flush_commit (coName c) ops s")
  from assms x have c': "s1 = s'"
    "c' = c\<lparr>coInbox := rest, coResults := coResults c @ map (\<lambda>w. (pwResult w, r)) batch\<rparr>"
    by (simp_all add: flush_def d)
  from that [OF b(2,3) c'(2)] x c'(1) b(1) show ?thesis by simp
qed

lemma flush_commit_fair:
  assumes "db_fair s" "flush_commit ns ops s = (r, s')"
  shows "psteps (mem_of s) (mem_of s') \<and> db_fair s' \<and>
    (r = Inr () \<longrightarrow> (\<exists>k. committed (mem_of s') ns ops k))"
proof -
  obtain r1 s1 where l: "LoadManifest ns s = (r1, s1)" by (cases "LoadManifest ns s")
  note f1 = LoadManifest_fair [OF assms(1) l]
  show ?thesis
  proof (cases r1)
    case (Inl e)
    with assms(2) l f1 show ?thesis by (auto simp: flush_commit_def)
  next
    case (Inr x)
    obtain mf e0 where x: "x = (mf, e0)" by (cases x)
    have at1: "manifest_at (mem_of s1) ns = Some mf" using f1 Inr x by (auto intro: manifest_at_Some)
    have fair1: "db_fair s1" using f1 by simp
    from pinv_node [OF fair_pinv [OF fair1] at1] obtain rank where "node_ok (mem_of s1) rank ns mf" .
    then have le: "fork_of mf \<le> mWALSeq mf" by (simp add: node_ok_def counters_ok_def)
    from assms(2) l Inr x have "commitBatch ns (mWALSeq mf) ops s1 = (r, s')"
      by (simp add: flush_commit_def)
    from commitBatch_fair [OF fair1 this at1 le order_refl] f1 show ?thesis
      by (meson rtranclp_trans)
  qed
qed

lemma flush_fair:
  assumes "db_fair s" "flush w c s = (c', s')"
  shows "psteps (mem_of s) (mem_of s') \<and> db_fair s'"
proof -
  from assms(2) obtain batch :: "pendingWrite list" and r where
    "flush_commit (coName c) (concat (map pwDocs batch)) s = (r, s')"
    by (rule flush_spec) blast
  from flush_commit_fair [OF assms(1) this] show ?thesis by blast
qed

lemma committed_later:
  assumes "pinv mem" "psteps mem m" "committed mem ns docs k"
  shows "committed m ns docs k"
proof -
  note ext = psteps_ext [OF assms(2,1)]
  from assms(3) obtain mf where mf: "0 \<le> k" "seg_at mem ns k = Some \<lparr>sSeq = k, sOps = map json_doc docs\<rparr>"
    "manifest_at mem ns = Some mf" "k < mWALSeq mf" by (auto simp: committed_def)
  from extD(2) [OF ext mf(3)] obtain mf' where "manifest_at m ns = Some mf'" "manifest_le mf mf'" by blast
  with extD(1) [OF ext mf(1,2)] mf(1,4) show ?thesis by (auto simp: committed_def manifest_le_def)
qed

text \<open>
  C23. All-or-nothing and order: a flush takes the waiting writes in arrival order up to the cap (only
  the last one may exceed it), sends one and the same result to every one of them, and when that result
  is a success the concatenation of their documents is one segment of the log, advertised by the
  manifest, for ever, whatever the other clients do and whichever messages are lost.
\<close>

theorem flush_all_or_nothing:
  assumes "db_fair s" "flush w c s = (c', s')"
  shows "\<exists>batch r. w # coInbox c = batch @ coInbox c' \<and> drained (coMaxBatchDocs c) batch (coInbox c') \<and>
    coResults c' = coResults c @ map (\<lambda>w. (pwResult w, r)) batch \<and>
    (r = Inr () \<longrightarrow> (\<exists>k. \<forall>m. psteps (mem_of s') m \<longrightarrow>
       committed m (coName c) (concat (map pwDocs batch)) k))"
proof -
  from assms(2) obtain batch rest r where b: "w # coInbox c = batch @ rest"
    "drained (coMaxBatchDocs c) batch rest"
    "c' = c\<lparr>coInbox := rest, coResults := coResults c @ map (\<lambda>w. (pwResult w, r)) batch\<rparr>"
    and x: "flush_commit (coName c) (concat (map pwDocs batch)) s = (r, s')"
    by (rule flush_spec)
  note f = flush_commit_fair [OF assms(1) x]
  have "\<exists>k. \<forall>m. psteps (mem_of s') m \<longrightarrow> committed m (coName c) (concat (map pwDocs batch)) k"
    if "r = Inr ()"
    using f that committed_later [OF fair_pinv] by blast
  with b show ?thesis by (intro exI [of _ batch] exI [of _ r]) simp
qed

section \<open>Runs\<close>

fun accepted :: "clabel list \<Rightarrow> (nat \<times> Document list) list" where
  "accepted [] = []"
| "accepted (Accepted i docs # ls) = (i, docs) # accepted ls"
| "accepted (_ # ls) = accepted ls"

fun cancelled :: "clabel list \<Rightarrow> nat list" where
  "cancelled [] = []"
| "cancelled (Cancelled i # ls) = i # cancelled ls"
| "cancelled (_ # ls) = cancelled ls"

lemma accepted_append [simp]: "accepted (xs @ ys) = accepted xs @ accepted ys"
  by (induction xs rule: accepted.induct) auto

lemma cancelled_append [simp]: "cancelled (xs @ ys) = cancelled xs @ cancelled ys"
  by (induction xs rule: cancelled.induct) auto

lemma Committer_Upsert_None:
  assumes "Committer_Upsert docs c s = (None, c', s')"
  shows "docs \<noteq> [] \<and> coAccepting c \<and>
    c' = c\<lparr>coNext := coNext c + 1, coInbox := coInbox c @ [\<lparr>pwDocs = docs, pwResult = coNext c\<rparr>]\<rparr>"
  using assms by (auto simp: Committer_Upsert_def Let_def split: if_splits prod.splits sum.splits)

lemma Committer_Upsert_Some:
  assumes "Committer_Upsert docs c s = (Some r, c', s')"
  shows "\<exists>n. coNext c \<le> n \<and> c' = c\<lparr>coNext := n\<rparr>"
proof -
  have "c' = c\<lparr>coNext := coNext c\<rparr> \<or> c' = c\<lparr>coNext := coNext c + 1\<rparr>"
    using assms by (auto simp: Committer_Upsert_def Let_def split: if_splits prod.splits sum.splits)
  then show ?thesis
    by (elim disjE) (rule exI [of _ "coNext c"], simp, rule exI [of _ "coNext c + 1"], simp)
qed

lemma Committer_Upsert_fair:
  assumes "db_fair s" "Committer_Upsert docs c s = (r, c', s')"
  shows "psteps (mem_of s) (mem_of s') \<and> db_fair s'"
proof -
  obtain r1 s1 where l: "LoadManifest (coName c) s = (r1, s1)" by (cases "LoadManifest (coName c) s")
  have "s' = s \<or> s' = s1"
    using assms(2) l by (auto simp: Committer_Upsert_def Let_def split: if_splits prod.splits sum.splits)
  with LoadManifest_fair [OF assms(1) l] assms(1) show ?thesis by auto
qed

text \<open>
  The invariant of the runs of a new committer.  \<open>answered_ok\<close>: a write that was told a success is
  in a committed batch.
\<close>

definition answered_ok :: "clabel list \<Rightarrow> Committer \<Rightarrow> db \<Rightarrow> bool" where
  "answered_ok ls c s \<longleftrightarrow> (\<forall>i. (i, Inr ()) \<in> set (coResults c) \<longrightarrow>
     (\<exists>docs pre post k. (i, docs) \<in> set (accepted ls) \<and>
        committed (mem_of s) (coName c) (pre @ docs @ post) k))"

definition accounted :: "clabel list \<Rightarrow> Committer \<Rightarrow> bool" where
  "accounted ls c \<longleftrightarrow>
     mset (map fst (accepted ls)) =
       mset (map fst (coResults c)) + mset (map pwResult (coInbox c)) + mset (cancelled ls) \<and>
     distinct (map fst (accepted ls)) \<and> (\<forall>i \<in> set (map fst (accepted ls)). i < coNext c) \<and>
     (\<forall>w \<in> set (coInbox c). (pwResult w, pwDocs w) \<in> set (accepted ls)) \<and>
     (coDone c \<longrightarrow> \<not> coAccepting c) \<and> (\<not> coAccepting c \<longrightarrow> coInbox c = [])"

lemma NewCommitter_empty:
  "\<exists>n. NewCommitter ns (map WithMaxBatchDocs caps) = \<lparr>coName = ns, coMaxBatchDocs = n, coInbox = [],
      coDone = False, coAccepting = True, coNext = 0, coResults = []\<rparr>"
proof -
  have "\<exists>n. fold (\<lambda>opt c. opt c) (map WithMaxBatchDocs caps) (c\<lparr>coMaxBatchDocs := k\<rparr>) = c\<lparr>coMaxBatchDocs := n\<rparr>"
    for c :: Committer and k
    by (induction caps arbitrary: k) (auto simp: WithMaxBatchDocs_def)
  from this [of defaultMaxBatchDocs "\<lparr>coName = ns, coMaxBatchDocs = 0, coInbox = [], coDone = False,
      coAccepting = True, coNext = 0, coResults = []\<rparr>"]
  show ?thesis by (simp add: NewCommitter_def)
qed

lemma crun_fair:
  "crun x ls y \<Longrightarrow> db_fair (snd x) \<Longrightarrow> db_fair (snd y)"
proof (induction rule: crun.induct)
  case (refuse x ls c s docs r c' s')
  then show ?case using Committer_Upsert_fair by fastforce
next
  case (accept x ls c s docs c' s')
  then show ?case using Committer_Upsert_fair by fastforce
next
  case (flush x ls c s w ws c' s')
  then show ?case using flush_fair by fastforce
qed auto

lemma mset_filter_one:
  "i \<in> f ` set xs \<Longrightarrow> distinct (map f xs) \<Longrightarrow>
   mset (map f xs) = add_mset i (mset (map f (filter (\<lambda>x. f x \<noteq> i) xs)))"
proof (induction xs)
  case (Cons x xs)
  show ?case
  proof (cases "f x = i")
    case True
    have "f y \<noteq> i" if "y \<in> set xs" for y
      using Cons.prems(2) True imageI [OF that, of f] by auto
    then have "filter (\<lambda>x. f x \<noteq> i) xs = xs" by simp
    with True show ?thesis by simp
  next
    case False
    with Cons show ?thesis by auto
  qed
qed simp

lemma crun_accounted:
  "crun x ls y \<Longrightarrow> accounted [] (fst x) \<Longrightarrow> accounted ls (fst y)"
proof (induction rule: crun.induct)
  case (refuse x ls c s docs r c' s')
  from Committer_Upsert_Some [OF refuse.hyps(2)] obtain n where "coNext c \<le> n" "c' = c\<lparr>coNext := n\<rparr>" by blast
  with refuse show ?case by (auto simp: accounted_def)
next
  case (accept x ls c s docs c' s')
  from Committer_Upsert_None [OF accept.hyps(2)] accept show ?case
    by (auto simp: accounted_def less_Suc_eq)
next
  case (cancel x ls c s i)
  then have ac: "accounted ls c" by simp
  then have "mset (map fst (accepted ls)) =
      mset (map fst (coResults c)) + mset (map pwResult (coInbox c)) + mset (cancelled ls)"
    and "distinct (map fst (accepted ls))" by (auto simp: accounted_def)
  then have d: "distinct (map pwResult (coInbox c))"
    by (metis mset_eq_imp_distinct_iff distinct_append mset_append)
  have "mset (map pwResult (coInbox c)) =
      add_mset i (mset (map pwResult (filter (\<lambda>w. pwResult w \<noteq> i) (coInbox c))))"
    using cancel.hyps(2) d by (rule mset_filter_one)
  with ac show ?case by (auto simp: accounted_def)
next
  case (flush x ls c s w ws c' s')
  from flush.hyps(3) obtain batch rest r where "w # ws = batch @ rest"
    "c' = c\<lparr>coInbox := rest, coResults := coResults c @ map (\<lambda>w. (pwResult w, r)) batch\<rparr>"
    by (rule flush_spec) auto
  with flush show ?case by (auto simp: accounted_def comp_def)
qed (auto simp: accounted_def Committer_Close_def)

lemma answered_ok_later:
  assumes "pinv (mem_of s)" "psteps (mem_of s) (mem_of s')" "answered_ok ls c s"
    and "coResults c' = coResults c" "coName c' = coName c"
    and "set (accepted ls) \<subseteq> set (accepted ls')"
  shows "answered_ok ls' c' s'"
  unfolding answered_ok_def assms(4,5)
proof (intro allI impI)
  fix i
  assume "(i, Inr ()) \<in> set (coResults c)"
  with assms(3) obtain docs pre post k where "(i, docs) \<in> set (accepted ls)"
    "committed (mem_of s) (coName c) (pre @ docs @ post) k" unfolding answered_ok_def by blast
  with assms(6) committed_later [OF assms(1,2)]
  show "\<exists>docs pre post k. (i, docs) \<in> set (accepted ls') \<and> committed (mem_of s') (coName c) (pre @ docs @ post) k"
    by blast
qed

lemma crun_answered:
  "crun x ls y \<Longrightarrow> db_fair (snd x) \<Longrightarrow> accounted [] (fst x) \<Longrightarrow> answered_ok [] (fst x) (snd x) \<Longrightarrow>
   answered_ok ls (fst y) (snd y)"
proof (induction rule: crun.induct)
  case (refuse x ls c s docs r c' s')
  from crun_fair [OF refuse.hyps(1) refuse.prems(1)] have "db_fair s" by simp
  then have p: "pinv (mem_of s)" "psteps (mem_of s) (mem_of s')"
    using Committer_Upsert_fair [OF _ refuse.hyps(2)] fair_pinv by blast+
  from Committer_Upsert_Some [OF refuse.hyps(2)] have "coResults c' = coResults c" "coName c' = coName c" by auto
  moreover have "answered_ok ls c s" using refuse.IH refuse.prems by simp
  ultimately show ?case unfolding snd_conv fst_conv
    by (intro answered_ok_later [OF p, where ls = ls and c = c]) auto
next
  case (accept x ls c s docs c' s')
  from crun_fair [OF accept.hyps(1) accept.prems(1)] have "db_fair s" by simp
  then have p: "pinv (mem_of s)" "psteps (mem_of s) (mem_of s')"
    using Committer_Upsert_fair [OF _ accept.hyps(2)] fair_pinv by blast+
  from Committer_Upsert_None [OF accept.hyps(2)] have "coResults c' = coResults c" "coName c' = coName c" by auto
  moreover have "answered_ok ls c s" using accept.IH accept.prems by simp
  ultimately show ?case unfolding snd_conv fst_conv
    by (intro answered_ok_later [OF p, where ls = ls and c = c]) auto
next
  case (flush x ls c s w ws c' s')
  from crun_fair [OF flush.hyps(1) flush.prems(1)] have fair: "db_fair s" by simp
  then have p: "pinv (mem_of s)" "psteps (mem_of s) (mem_of s')"
    using flush_fair [OF _ flush.hyps(3)] fair_pinv by blast+
  from crun_accounted [OF flush.hyps(1) flush.prems(2)]
  have waiting: "\<And>w. w \<in> set (coInbox c) \<Longrightarrow> (pwResult w, pwDocs w) \<in> set (accepted ls)"
    by (simp add: accounted_def)
  from flush.hyps(3) obtain batch rest r where b: "w # ws = batch @ rest"
    and c': "c' = c\<lparr>coInbox := rest, coResults := coResults c @ map (\<lambda>w. (pwResult w, r)) batch\<rparr>"
    and x: "flush_commit (coName c) (concat (map pwDocs batch)) s = (r, s')"
    by (rule flush_spec) simp
  have old: "answered_ok ls c s" using flush.IH flush.prems by simp
  have "\<exists>docs pre post k. (i, docs) \<in> set (accepted ls) \<and> committed (mem_of s') (coName c) (pre @ docs @ post) k"
    if i: "(i, Inr ()) \<in> set (coResults c')" for i
  proof (cases "(i, Inr ()) \<in> set (coResults c)")
    case True
    from answered_ok_later [OF p old refl refl order_refl] True show ?thesis unfolding answered_ok_def by blast
  next
    case False
    with i c' obtain v where v: "v \<in> set batch" "i = pwResult v" "r = Inr ()" by auto
    from v(1) obtain xs ys where "batch = xs @ v # ys" by (meson split_list)
    moreover from flush_commit_fair [OF fair x] v(3) obtain k
      where "committed (mem_of s') (coName c) (concat (map pwDocs batch)) k" by blast
    moreover from v(1) b flush.hyps(2) have "v \<in> set (coInbox c)" by auto
    ultimately show ?thesis using waiting [of v] v(2) by auto
  qed
  with c' show ?case by (simp add: answered_ok_def)
qed (auto simp: answered_ok_def Committer_Close_def)

text \<open>
  C24. The promises of the committer along any interleaving of callers, cancellations, flushes and
  \<open>Close\<close>, over a store that other clients write too: every accepted write is answered exactly once,
  still waiting, or cancelled before it was taken; once the gate is shut nothing waits, so \<open>Close\<close>
  strands nobody; and whoever was answered with a success has its documents, contiguous, in a
  committed segment.
\<close>

theorem committer_answers_every_write:
  assumes "db_fair s" "crun (NewCommitter ns (map WithMaxBatchDocs caps), s) ls (c, s')"
  shows "mset (map fst (accepted ls)) =
      mset (map fst (coResults c)) + mset (map pwResult (coInbox c)) + mset (cancelled ls) \<and>
    distinct (map fst (accepted ls)) \<and> (\<not> coAccepting c \<longrightarrow> coInbox c = []) \<and>
    (\<forall>i. (i, Inr ()) \<in> set (coResults c) \<longrightarrow> (\<exists>docs pre post k. (i, docs) \<in> set (accepted ls) \<and>
       committed (mem_of s') (coName c) (pre @ docs @ post) k))"
proof -
  from NewCommitter_empty [of ns caps] have "accounted [] (NewCommitter ns (map WithMaxBatchDocs caps))"
    "answered_ok [] (NewCommitter ns (map WithMaxBatchDocs caps)) s"
    by (auto simp: accounted_def answered_ok_def)
  with crun_accounted [OF assms(2)] crun_answered [OF assms(2)] assms(1)
  have "accounted ls c" "answered_ok ls c s'" by auto
  then show ?thesis unfolding accounted_def answered_ok_def by blast
qed

section \<open>Witnesses\<close>

definition demo_committer :: Committer where
  "demo_committer = NewCommitter ''n'' (map WithMaxBatchDocs [2])"

definition demo_inbox :: "pendingWrite list" where
  "demo_inbox = [\<lparr>pwDocs = [demo_doc ''b''], pwResult = 1\<rparr>, \<lparr>pwDocs = [demo_doc ''c''], pwResult = 2\<rparr>]"

theorem flush_all_or_nothing_witness:
  "\<exists>c' s' (batch :: pendingWrite list) k. flush \<lparr>pwDocs = [demo_doc ''a''], pwResult = 0\<rparr> (demo_committer\<lparr>coInbox := demo_inbox\<rparr>) raced_db = (c', s') \<and>
    coResults c' = [(0, Inr ()), (1, Inr ())] \<and> map pwResult (coInbox c') = [2] \<and>
    (\<forall>m. psteps (mem_of s') m \<longrightarrow> committed m ''n'' (concat (map pwDocs batch)) k)"
proof -
  let ?x = "flush \<lparr>pwDocs = [demo_doc ''a''], pwResult = 0\<rparr> (demo_committer\<lparr>coInbox := demo_inbox\<rparr>) raced_db"
  obtain c' s' where x: "?x = (c', s')" by (cases ?x)
  have n: "coName (demo_committer\<lparr>coInbox := demo_inbox\<rparr>) = ''n''" by code_simp
  have old: "coResults (demo_committer\<lparr>coInbox := demo_inbox\<rparr>) = []" by code_simp
  have "coResults (fst ?x) = [(0, Inr ()), (1, Inr ())]" "map pwResult (coInbox (fst ?x)) = [2]" by code_simp+
  with x have res: "coResults c' = [(0, Inr ()), (1, Inr ())]" "map pwResult (coInbox c') = [2]" by simp_all
  from flush_all_or_nothing [OF raced_fair x] old obtain batch :: "pendingWrite list" and r
    where b: "coResults c' = map (\<lambda>w. (pwResult w, r)) batch"
      "r = Inr () \<longrightarrow> (\<exists>k. \<forall>m. psteps (mem_of s') m \<longrightarrow> committed m ''n'' (concat (map pwDocs batch)) k)"
    unfolding n by auto
  from b(1) res(1) have "r = Inr ()" by (cases batch) auto
  with b(2) obtain k where "\<forall>m. psteps (mem_of s') m \<longrightarrow> committed m ''n'' (concat (map pwDocs batch)) k"
    by blast
  with x res show ?thesis by (intro exI [of _ c'] exI [of _ s'] exI [of _ batch] exI [of _ k] conjI)
qed

theorem committer_answers_every_write_witness:
  "\<exists>ls c s'. crun (demo_committer, raced_db) ls (c, s') \<and> coResults c = [(0, Inr ())] \<and>
    \<not> coAccepting c \<and> coInbox c = [] \<and>
    (\<exists>docs pre post k. (0, docs) \<in> set (accepted ls) \<and> committed (mem_of s') (coName c) (pre @ docs @ post) k)"
proof -
  let ?u = "Committer_Upsert [demo_doc ''a''] demo_committer raced_db"
  obtain r c1 s1 where u: "?u = (r, c1, s1)" by (cases ?u) auto
  have "fst ?u = None" by code_simp
  with u have "r = None" by simp
  from crun.accept [OF crun.start] u this have 1: "crun (demo_committer, raced_db) [Accepted (coNext demo_committer) [demo_doc ''a'']] (c1, s1)"
    by fastforce
  let ?w = "\<lparr>pwDocs = [demo_doc ''a''], pwResult = coNext demo_committer\<rparr>"
  have e: "coNext demo_committer = 0" "coInbox demo_committer = []" by code_simp+
  from Committer_Upsert_None u \<open>r = None\<close> have c1: "coInbox c1 = [?w]" using e(2) by fastforce
  obtain c2 s2 where f: "flush ?w (c1\<lparr>coInbox := []\<rparr>) s1 = (c2, s2)" by (cases "flush ?w (c1\<lparr>coInbox := []\<rparr>) s1")
  from crun.flush [OF 1 c1 f] obtain ls where 2: "crun (demo_committer, raced_db) ls (c2, s2)" by blast
  have "coResults (fst (let (r, c1, s1) = ?u in flush ?w (c1\<lparr>coInbox := []\<rparr>) s1)) = [(0, Inr ())]"
    "coInbox (fst (let (r, c1, s1) = ?u in flush ?w (c1\<lparr>coInbox := []\<rparr>) s1)) = []" by code_simp+
  with u f have res: "coResults c2 = [(0, Inr ())]" "coInbox c2 = []" by auto
  from crun.close [OF 2 res(2)] have 3: "crun (demo_committer, raced_db) (ls @ [Closed]) (Committer_Close c2, s2)" .
  from committer_answers_every_write [OF raced_fair 3 [unfolded demo_committer_def]]
  have "(0, Inr ()) \<in> set (coResults (Committer_Close c2)) \<longrightarrow> (\<exists>docs pre post k. (0, docs) \<in> set (accepted (ls @ [Closed])) \<and>
       committed (mem_of s2) (coName (Committer_Close c2)) (pre @ docs @ post) k)" by blast
  with 3 res show ?thesis
    by (intro exI [of _ "ls @ [Closed]"] exI [of _ "Committer_Close c2"] exI [of _ s2])
      (auto simp: Committer_Close_def)
qed

end
