(* ===== verification/Broker.thy ===== *)
theory Broker
  imports JobQueue
begin

text \<open>
  The broker (\<open>cmd/tpuf-broker/main.go\<close>): one goroutine that collects notifications in a window of
  time and merges each window into the queue with one compare-and-swap.  A \<open>done\<close> channel is a number,
  and \<open>bkDone\<close> is what was sent on them.  The goroutine is driven by the events it selects on: a request
  that arrives, and the timer of the window.
\<close>

record enqueueRequest =
  rqNs :: string
  rqUpTo :: int
  rqDone :: nat

record broker =
  bkId :: string
  bkInterval :: int
  bkDone :: "(nat \<times> err option) list"

definition newBroker :: "string \<Rightarrow> int \<Rightarrow> broker" where
  "newBroker i interval = \<lparr>bkId = i,
     bkInterval = (if interval \<le> 0 then 50 * 10 ^ 6 else interval), bkDone = []\<rparr>"

definition mergeNotification :: "Queue \<Rightarrow> string \<Rightarrow> int \<Rightarrow> clock \<Rightarrow> bool \<times> Queue \<times> clock" where
  "mergeNotification q ns requestedUpTo clk =
     (case find_job (\<lambda>j. jNamespace j = ns) (qJobs q) of
        Some i \<Rightarrow>
          if requestedUpTo > jRequestedUpTo (qJobs q ! i)
          then (True, q\<lparr>qJobs := (qJobs q)[i := (qJobs q ! i)\<lparr>jRequestedUpTo := requestedUpTo\<rparr>]\<rparr>, clk)
          else (False, q, clk)
      | None \<Rightarrow> (let (now, clk) = time_Now clk in
          (True, q\<lparr>qJobs := qJobs q @ [\<lparr>jNamespace = ns, jRequestedUpTo = requestedUpTo,
             jState = JobUnclaimed, jWorker = [], jHeartbeatAt = 0, jEnqueuedAt = now\<rparr>]\<rparr>, clk)))"

text \<open>The closure of \<open>flush\<close>; the clock is the state it captures.\<close>

fun merge_loop :: "enqueueRequest list \<Rightarrow> bool \<Rightarrow> clock \<Rightarrow> Queue \<Rightarrow> bool \<times> Queue \<times> clock" where
  "merge_loop [] changed clk q = (changed, q, clk)"
| "merge_loop (req # batch) changed clk q = (case mergeNotification q (rqNs req) (rqUpTo req) clk of
     (True, q, clk) \<Rightarrow> merge_loop batch True clk q
   | (False, q, clk) \<Rightarrow> merge_loop batch changed clk q)"

definition merge_batch :: "enqueueRequest list \<Rightarrow> clock \<Rightarrow> Queue \<Rightarrow> bool \<times> Queue \<times> clock" where
  "merge_batch batch = merge_loop batch False"

definition broker_flush ::
    "enqueueRequest list \<Rightarrow> clock \<Rightarrow> broker \<Rightarrow> db \<Rightarrow> broker \<times> clock \<times> db" where
  "broker_flush batch clk b s = (case SaveQueueCAS (merge_batch batch) clk s of
     ((r, clk), s) \<Rightarrow>
       (let e = (case r of Inl e \<Rightarrow> Some e | Inr _ \<Rightarrow> None) in
        (b\<lparr>bkDone := bkDone b @ map (\<lambda>req. (rqDone req, e)) batch\<rparr>, clk, s)))"

datatype bevent = Arrive enqueueRequest | TimerFires

text \<open>The collecting loop; \<open>None\<close> means that the window is still open when the events end.\<close>

fun collect :: "enqueueRequest list \<Rightarrow> bevent list \<Rightarrow> (enqueueRequest list \<times> bevent list) option" where
  "collect batch [] = None"
| "collect batch (Arrive req # es) = collect (batch @ [req]) es"
| "collect batch (TimerFires # es) = Some (batch, es)"

lemma collect_shorter: "collect batch es = Some (batch', es') \<Longrightarrow> length es' < length es"
  by (induction batch es rule: collect.induct) auto

function commitLoop :: "bevent list \<Rightarrow> clock \<Rightarrow> broker \<Rightarrow> db \<Rightarrow> broker \<times> clock \<times> db" where
  "commitLoop [] clk b s = (b, clk, s)"
| "commitLoop (TimerFires # es) clk b s = commitLoop es clk b s"
| "commitLoop (Arrive first # es) clk b s = (case collect [first] es of
     None \<Rightarrow> (b, clk, s)
   | Some (batch, es) \<Rightarrow> (case broker_flush batch clk b s of
       (b, clk, s) \<Rightarrow> commitLoop es clk b s))"
  by pat_completeness auto
termination
  by (relation "measure (\<lambda>(es, _). length es)") (auto dest: collect_shorter)

text \<open>
  The HTTP handlers: the decoded body (\<open>None\<close> if it does not decode), whether the client is gone
  before the send, and what came back on the \<open>done\<close> channel determine the status.
\<close>

definition handleEnqueue :: "(string \<times> int) option \<Rightarrow> bool \<Rightarrow> nat \<Rightarrow> err option \<Rightarrow> nat \<times> enqueueRequest option" where
  "handleEnqueue body gone chan reply = (case body of
     None \<Rightarrow> (400, None)
   | Some (ns, upTo) \<Rightarrow>
       if ns = [] then (400, None)
       else if gone then (408, None)
       else (if reply \<noteq> None then 500 else 200, Some \<lparr>rqNs = ns, rqUpTo = upTo, rqDone = chan\<rparr>))"

definition handleQueue :: "db \<Rightarrow> (nat \<times> Job list) \<times> db" where
  "handleQueue s = (case QueueSnapshot s of
     (Inl e, s) \<Rightarrow> ((500, []), s)
   | (Inr jobs, s) \<Rightarrow> ((200, jobs), s))"

section \<open>One window is a sequence of enqueues\<close>

lemma mergeNotification_enqueue:
  "enqueue_job ns w (a, clk) q = (ch, q', a', clk') \<Longrightarrow> mergeNotification q ns w clk = (ch, q', clk')"
  by (auto simp: enqueue_job_def mergeNotification_def Let_def split: option.splits if_splits prod.splits)

text \<open>Enqueueing one request after the other, as \<open>EnqueueReindex\<close> would.\<close>

fun enqueue_all :: "enqueueRequest list \<Rightarrow> clock \<Rightarrow> Queue \<Rightarrow> Queue \<times> clock" where
  "enqueue_all [] clk q = (q, clk)"
| "enqueue_all (req # batch) clk q = (case enqueue_job (rqNs req) (rqUpTo req) (False, clk) q of
     (_, q, _, clk) \<Rightarrow> enqueue_all batch clk q)"

lemma merge_loop_enqueue_all: "snd (merge_loop batch ch clk q) = enqueue_all batch clk q"
proof (induction batch arbitrary: ch clk q)
  case (Cons req batch)
  obtain c q' a' clk' where e: "enqueue_job (rqNs req) (rqUpTo req) (False, clk) q = (c, q', a', clk')"
    by (cases "enqueue_job (rqNs req) (rqUpTo req) (False, clk) q") auto
  from mergeNotification_enqueue [OF e] e Cons show ?case by (cases c) auto
qed simp

lemma enqueue_job_False: "enqueue_job ns w c q = (False, q', c') \<Longrightarrow> q' = q \<and> snd c' = snd c"
  by (auto simp: enqueue_job_def Let_def split: option.splits if_splits prod.splits)

lemma merge_loop_unchanged:
  "merge_loop batch ch clk q = (False, q', clk') \<Longrightarrow> \<not> ch \<and> q' = q \<and> clk' = clk"
proof (induction batch arbitrary: ch clk q)
  case (Cons req batch)
  obtain c q1 a1 clk1 where e: "enqueue_job (rqNs req) (rqUpTo req) (False, clk) q = (c, q1, a1, clk1)"
    by (cases "enqueue_job (rqNs req) (rqUpTo req) (False, clk) q") auto
  note m = mergeNotification_enqueue [OF e]
  show ?case
  proof (cases c)
    case True
    with Cons m have False by fastforce
    then show ?thesis ..
  next
    case False
    then have "q1 = q" "clk1 = clk" using enqueue_job_False e by fastforce+
    with Cons m False show ?thesis by auto
  qed
qed auto

text \<open>
  C26. One window of the broker has the effect of its requests enqueued one by one: the same queue and
  the same clock; and when it reports no change, none of them would have changed the queue.
\<close>

theorem merge_batch_is_enqueues:
  "snd (merge_batch batch clk q) = enqueue_all batch clk q \<and>
   (fst (merge_batch batch clk q) \<or> enqueue_all batch clk q = (q, clk))"
proof -
  obtain c q' clk' where m: "merge_loop batch False clk q = (c, q', clk')"
    by (cases "merge_loop batch False clk q")
  have "enqueue_all batch clk q = (q, clk)" if "\<not> c"
  proof -
    from m that have "merge_loop batch False clk q = (False, q', clk')" by simp
    then have "q' = q" "clk' = clk" by (auto dest: merge_loop_unchanged)
    with merge_loop_enqueue_all [of batch False clk q] m show ?thesis by simp
  qed
  with m merge_loop_enqueue_all [of batch False clk q] show ?thesis by (cases c) (simp_all add: merge_batch_def)
qed

lemma merge_keeps: "keeps_queue_ok (merge_batch batch)"
proof -
  have "queue_ok q \<Longrightarrow> queue_ok (fst (enqueue_all batch clk q))" for clk q
  proof (induction batch arbitrary: clk q)
    case (Cons req batch)
    obtain c q' a' clk' where e: "enqueue_job (rqNs req) (rqUpTo req) (False, clk) q = (c, q', a', clk')"
      by (cases "enqueue_job (rqNs req) (rqUpTo req) (False, clk) q") auto
    have "queue_ok q'"
      using enqueue_keeps Cons.prems e unfolding keeps_queue_ok_def by (metis fst_conv snd_conv)
    with Cons.IH e show ?case by simp
  qed simp
  then show ?thesis unfolding keeps_queue_ok_def merge_batch_def merge_loop_enqueue_all by blast
qed

section \<open>An acknowledged notification is in the queue\<close>

definition asked :: "Queue \<Rightarrow> string \<Rightarrow> int \<Rightarrow> bool" where
  "asked q ns w \<longleftrightarrow> (\<exists>j \<in> set (qJobs q). jNamespace j = ns \<and> w \<le> jRequestedUpTo j)"

lemma asked_enqueue:
  assumes "enqueue_job ns w c q = (ch, q', c')"
  shows "asked q' ns w \<and> (\<forall>n v. asked q n v \<longrightarrow> asked q' n v)"
proof (cases "find_job (\<lambda>j. jNamespace j = ns) (qJobs q)")
  case None
  with assms show ?thesis by (cases c) (auto simp: asked_def enqueue_job_def Let_def split: prod.splits)
next
  case (Some i)
  note i = find_job_Some [OF Some]
  show ?thesis
  proof (cases "w > jRequestedUpTo (qJobs q ! i)")
    case True
    let ?j = "(qJobs q ! i)\<lparr>jRequestedUpTo := w\<rparr>"
    from True assms Some have q': "q' = q\<lparr>qJobs := (qJobs q)[i := ?j]\<rparr>"
      by (cases c) (auto simp: enqueue_job_def)
    have new: "?j \<in> set ((qJobs q)[i := ?j])" using i by (auto intro: set_update_memI)
    have "asked q' n v" if "asked q n v" for n v
    proof -
      from that obtain k where k: "k < length (qJobs q)" "jNamespace (qJobs q ! k) = n"
        "v \<le> jRequestedUpTo (qJobs q ! k)" by (auto simp: asked_def in_set_conv_nth)
      show ?thesis
      proof (cases "k = i")
        case eq: True
        with k True new i show ?thesis unfolding q' asked_def by (intro bexI [of _ ?j]) auto
      next
        case False
        with k have "qJobs q ! k \<in> set ((qJobs q)[i := ?j])"
          by (metis length_list_update nth_list_update_neq nth_mem)
        with k q' show ?thesis by (auto simp: asked_def)
      qed
    qed
    moreover have "asked q' ns w"
      unfolding q' asked_def using new i by (intro bexI [of _ ?j]) auto
    ultimately show ?thesis by blast
  next
    case False
    with assms Some have "q' = q" by (cases c) (auto simp: enqueue_job_def)
    with i False show ?thesis unfolding asked_def by (auto intro: bexI [of _ "qJobs q ! i"])
  qed
qed

lemma asked_enqueue_all:
  "(\<forall>n v. asked q n v \<longrightarrow> asked (fst (enqueue_all batch clk q)) n v) \<and>
   (\<forall>req \<in> set batch. asked (fst (enqueue_all batch clk q)) (rqNs req) (rqUpTo req))"
proof (induction batch arbitrary: clk q)
  case (Cons req batch)
  obtain c q' a' clk' where e: "enqueue_job (rqNs req) (rqUpTo req) (False, clk) q = (c, q', a', clk')"
    by (cases "enqueue_job (rqNs req) (rqUpTo req) (False, clk) q") auto
  from asked_enqueue [OF e] Cons.IH [of q' clk'] e show ?case by auto
qed simp

text \<open>
  C25. The acknowledgements of one window: every request of the batch gets the same answer, and if the
  answer is a success then, under any interference, the queue that the flush leaves in the store has
  one job per namespace and, for every request, a job of its namespace that asks for its position or
  a later one.
\<close>

theorem broker_flush_acks_after_commit:
  assumes "db_fair s" "broker_flush batch clk b s = (b', clk', s')"
  shows "psteps (mem_of s) (mem_of s') \<and>
    (\<exists>e. bkDone b' = bkDone b @ map (\<lambda>req. (rqDone req, e)) batch \<and>
      (e = None \<longrightarrow> (\<exists>q. queue_at (mem_of s') = Some q \<and> queue_ok q \<and>
         (\<forall>req \<in> set batch. asked q (rqNs req) (rqUpTo req)))))"
proof -
  obtain r c s1 where sv: "SaveQueueCAS (merge_batch batch) clk s = ((r, c), s1)"
    by (cases "SaveQueueCAS (merge_batch batch) clk s") auto
  note f = SaveQueueCAS_fair [OF assms(1) sv merge_keeps]
  have ok: "queue_at (mem_of s1) = Some q \<Longrightarrow> queue_ok q" for q
    using f fair_pinv queue_at_ok by blast
  have done_ok: "\<forall>req \<in> set batch. asked q' (rqNs req) (rqUpTo req)"
    if "merge_batch batch c0 q0 = (ch, q', c1)" for c0 q0 ch q' c1
  proof -
    from merge_loop_enqueue_all [of batch False c0 q0] that
    have "fst (enqueue_all batch c0 q0) = q'" unfolding merge_batch_def by (metis fst_conv snd_conv)
    with asked_enqueue_all [of q0 batch c0] show ?thesis by blast
  qed
  have "\<exists>q. queue_at (mem_of s1) = Some q \<and> (\<forall>req \<in> set batch. asked q (rqNs req) (rqUpTo req))"
    if "r = Inr x" for x
  proof -
    obtain q' wr where x: "x = (q', wr)" by (cases x)
    show ?thesis
    proof (cases wr)
      case True
      with f that x obtain q0 q1 c0 where "merge_batch batch c0 q0 = (True, q1, c)"
        "queue_at (mem_of s1) = Some (q1\<lparr>qVersion := qVersion q1 + 1\<rparr>)" by blast
      with done_ok [OF this(1)] show ?thesis by (simp add: asked_def)
    next
      case False
      with f that x obtain q0 c0 where q0: "queue_at (mem_of s1) = Some q0" "merge_batch batch c0 q0 = (False, q', c)"
        by blast
      with merge_loop_unchanged have "q' = q0" unfolding merge_batch_def by blast
      with done_ok [OF q0(2)] q0(1) show ?thesis by blast
    qed
  qed
  with ok assms(2) sv f show ?thesis
    by (cases r) (auto simp: broker_flush_def Let_def)
qed

theorem broker_flush_acks_after_commit_witness:
  "\<exists>b' clk' s' q. broker_flush [\<lparr>rqNs = ''n'', rqUpTo = 9, rqDone = 0\<rparr>, \<lparr>rqNs = ''m'', rqUpTo = 2, rqDone = 1\<rparr>]
      [4] (newBroker ''b'' 0) queue_db = (b', clk', s') \<and>
    bkDone b' = [(0, None), (1, None)] \<and> queue_at (mem_of s') = Some q \<and> asked q ''n'' 9 \<and> asked q ''m'' 2"
proof -
  let ?x = "broker_flush [\<lparr>rqNs = ''n'', rqUpTo = 9, rqDone = 0\<rparr>, \<lparr>rqNs = ''m'', rqUpTo = 2, rqDone = 1\<rparr>]
      [4] (newBroker ''b'' 0) queue_db"
  obtain b' clk' s' where x: "?x = (b', clk', s')" by (cases ?x) auto
  have "bkDone (fst ?x) = [(0, None), (1, None)]" by code_simp
  with x have d: "bkDone b' = [(0, None), (1, None)]" by simp
  have "bkDone (newBroker ''b'' 0) = []" by code_simp
  with broker_flush_acks_after_commit [OF queue_db_fair x] d obtain q where
    "queue_at (mem_of s') = Some q" "asked q ''n'' 9" "asked q ''m'' 2" by auto
  with x d show ?thesis by blast
qed

end
