(* ===== verification/Bench.thy ===== *)
theory Bench
  imports GoFloat GoTime
begin

text \<open>
  The latency recorder of \<open>internal/bench/bench.go\<close>: recording, combining, and the summary by
  nearest-rank percentiles, with the float arithmetic that computes the rank.  The rendering of the
  table is not modelled, except for \<open>FormatDuration\<close>.
\<close>

record Recorder =
  rcName :: string
  rcSamples :: "int list"

definition NewRecorder :: "string \<Rightarrow> Recorder" where
  "NewRecorder name = \<lparr>rcName = name, rcSamples = []\<rparr>"

definition Combine :: "string \<Rightarrow> Recorder list \<Rightarrow> Recorder" where
  "Combine name recorders =
     fold (\<lambda>r out. out\<lparr>rcSamples := rcSamples out @ rcSamples r\<rparr>) recorders (NewRecorder name)"

definition Record :: "Recorder \<Rightarrow> int \<Rightarrow> Recorder" where
  "Record r d = r\<lparr>rcSamples := rcSamples r @ [d]\<rparr>"

definition Time :: "Recorder \<Rightarrow> ('s \<Rightarrow> 'e \<times> 's) \<Rightarrow> clock \<Rightarrow> 's \<Rightarrow> 'e \<times> Recorder \<times> clock \<times> 's" where
  "Time r fn clk s =
     (let (start, clk) = time_Now clk; (e, s) = fn s; (now, clk) = time_Now clk
      in (e, Record r (time_Sub now start), clk, s))"

definition Count :: "Recorder \<Rightarrow> nat" where
  "Count r = length (rcSamples r)"

record Stats =
  stName :: string
  stCount :: nat
  stMin :: int
  stMax :: int
  stMean :: int
  stP50 :: int
  stP90 :: int
  stP95 :: int
  stP99 :: int
  stP999 :: int
  stOpsPerSec :: flt

fun fceil :: "flt \<Rightarrow> flt" where
  "fceil (Fin q) = (if \<lceil>q\<rceil> = 0 \<and> q < 0 then NegZero else Fin (of_int \<lceil>q\<rceil>))"
| "fceil x = x"

definition rank :: "nat \<Rightarrow> flt \<Rightarrow> int" where
  "rank n p =
     (let rank = trunc_int (fceil (f_mul (f_div p (Fin 100)) (of_int64 (int n))));
          rank = (if rank < 1 then 1 else rank)
      in if rank > int n then int n else rank)"

definition percentile :: "int list \<Rightarrow> flt \<Rightarrow> int" where
  "percentile srt p =
     (let n = length srt in if n = 0 then 0 else srt ! nat (rank n p - 1))"

definition Summarize :: "Recorder \<Rightarrow> Stats" where
  "Summarize r =
     (let n = length (rcSamples r);
          s = \<lparr>stName = rcName r, stCount = n, stMin = 0, stMax = 0, stMean = 0, stP50 = 0, stP90 = 0,
               stP95 = 0, stP99 = 0, stP999 = 0, stOpsPerSec = Fin 0\<rparr>
      in if n = 0 then s
         else let srt = sort_by (<) (rcSamples r);
                  sum = fold (\<lambda>d sum. wrap64 (sum + d)) srt 0;
                  mean = wrap64 (sum sdiv int n)
              in s\<lparr>stMin := srt ! 0, stMax := srt ! (n - 1), stMean := mean,
                   stP50 := percentile srt (Fin 50), stP90 := percentile srt (Fin 90),
                   stP95 := percentile srt (Fin 95), stP99 := percentile srt (Fin 99),
                   stP999 := percentile srt (fround F64 (999 / 10)),
                   stOpsPerSec := (if mean > 0 then f_div (of_int64 Second) (of_int64 mean) else Fin 0)\<rparr>)"

definition FormatDuration :: "int \<Rightarrow> string" where
  "FormatDuration x =
     (if x = 0 then ''0''
      else if x < Microsecond then duration_String x
      else if x < Millisecond then duration_String (duration_Round x (10 * Nanosecond))
      else if x < Second then duration_String (duration_Round x Microsecond)
      else duration_String (duration_Round x Millisecond))"

section \<open>The rank\<close>

text \<open>The fractions \<open>p / 100\<close> of the five percentiles, as \<open>float64\<close> values.\<close>

definition q90 :: rat where "q90 = 8106479329266893 / 9007199254740992"
definition q95 :: rat where "q95 = 4278419646001971 / 4503599627370496"
definition q99 :: rat where "q99 = 4458563631096791 / 4503599627370496"
definition q999 :: rat where "q999 = 2249548013871563 / 2251799813685248"

lemma percent_values:
  "f_div (Fin 50) (Fin 100) = Fin (1 / 2)" "f_div (Fin 90) (Fin 100) = Fin q90"
  "f_div (Fin 95) (Fin 100) = Fin q95" "f_div (Fin 99) (Fin 100) = Fin q99"
  "f_div (fround F64 (999 / 10)) (Fin 100) = Fin q999"
  by code_simp+

lemma rank_eq:
  assumes "f_div p (Fin 100) = Fin c" "0 < c" "c \<le> 1" "0 < n" "n < 2 ^ 53"
  shows "rank n p = max 1 \<lceil>round_rat F64 (c * of_nat n)\<rceil>" "\<lceil>round_rat F64 (c * of_nat n)\<rceil> \<le> int n"
proof -
  let ?q = "c * of_nat n" and ?r = "round_rat F64 (c * of_nat n)"
  have n: "\<bar>int n\<bar> < 2 ^ 53" using assms(5) by simp
  have "int n = of_int (int n)" by simp
  have "round_rat F64 (of_int (int n)) = of_int (int n)"
    by (rule round_rat_int) (use n in simp_all)
  then have rn: "round_rat F64 (of_nat n) = of_nat n" by simp
  have "?q \<le> 1 * of_nat n" using assms(3) by (rule mult_right_mono) simp
  then have "?r \<le> round_rat F64 (of_nat n)" by (intro round_rat_mono) simp_all
  then have le: "?r \<le> of_nat n" by (simp add: rn)
  then have "?r \<le> of_int (int n)" by simp
  then show ub: "\<lceil>?r\<rceil> \<le> int n" by (simp only: ceiling_le_iff)
  have q0: "0 < ?q" using assms(2,4) by simp
  then have r0: "0 \<le> ?r" by (intro round_rat_nonneg) simp
  have "(of_nat n :: rat) < of_nat (2 ^ 53)" using assms(5) of_nat_less_iff by blast
  also have "\<dots> = 2 powi 53" by (simp add: power_int_def)
  also have "\<dots> \<le> 2 powi 1024" by (rule two_powi_mono) simp
  finally have "\<bar>?r\<bar> < 2 powi 1024" using le r0 by linarith
  then have fr: "fround F64 ?q = Fin ?r" using q0 by (simp add: fround_alt Let_def not_le)
  have "of_int64 (int n) = Fin (of_nat n)"
    using fround64_small_int [OF n] by (simp add: of_int64_def)
  then have "f_mul (Fin c) (of_int64 (int n)) = fround F64 ?q"
    using assms(2,4) by (simp add: fmul_def Let_def)
  then have "trunc_int (fceil (f_mul (f_div p (Fin 100)) (of_int64 (int n)))) = \<lceil>?r\<rceil>"
    using r0 by (simp add: assms(1) fr trunc_int_def)
  with ub assms(4) show "rank n p = max 1 \<lceil>?r\<rceil>" by (simp add: rank_def Let_def max_def)
qed

lemma rank_bounds: "0 < n \<Longrightarrow> 1 \<le> rank n p \<and> rank n p \<le> int n"
  by (auto simp: rank_def Let_def)

lemma rank_mono:
  assumes "f_div p (Fin 100) = Fin c" "f_div p' (Fin 100) = Fin c'" "0 < c" "c \<le> c'" "c' \<le> 1"
    and "0 < n" "n < 2 ^ 53"
  shows "rank n p \<le> rank n p'"
proof -
  have "c * of_nat n \<le> c' * of_nat n" using assms(4) by (rule mult_right_mono) simp
  then have "round_rat F64 (c * of_nat n) \<le> round_rat F64 (c' * of_nat n)"
    by (intro round_rat_mono) simp_all
  then have "\<lceil>round_rat F64 (c * of_nat n)\<rceil> \<le> \<lceil>round_rat F64 (c' * of_nat n)\<rceil>"
    by (rule ceiling_mono)
  with rank_eq(1) [OF assms(1)] rank_eq(1) [OF assms(2)] assms(3-7) show ?thesis by simp
qed

section \<open>The summary\<close>

interpretation durations: slice_order "(<) :: int \<Rightarrow> int \<Rightarrow> bool" "\<lambda>_. True"
  by unfold_locales auto

lemma sorted_durations: "sorted (sort_by (<) (xs :: int list))"
  using durations.sorted_sort_by [of xs] by (simp add: sorted_wrt_iff_nth_less list_all_iff not_less sorted_iff_nth_mono_less)

lemma percentile_mem: "xs \<noteq> [] \<Longrightarrow> percentile xs p \<in> set xs"
  using rank_bounds [of "length xs" p] by (auto simp: percentile_def Let_def)

lemma percentile_mono:
  assumes "sorted xs" "xs \<noteq> []" "rank (length xs) p \<le> rank (length xs) p'"
  shows "percentile xs p \<le> percentile xs p'"
proof -
  have "1 \<le> rank (length xs) p" "rank (length xs) p' \<le> int (length xs)" using rank_bounds assms(2) by auto
  with assms show ?thesis by (auto simp: percentile_def Let_def intro!: sorted_nth_mono)
qed

definition sum_wrapped :: "int list \<Rightarrow> int \<Rightarrow> int" where
  "sum_wrapped xs z = fold (\<lambda>d sum. wrap64 (sum + d)) xs z"

lemma sum_wrapped_exact:
  "list_all (\<lambda>d. 0 \<le> d) xs \<Longrightarrow> 0 \<le> z \<Longrightarrow> z + sum_list xs < 2 ^ 63 \<Longrightarrow> sum_wrapped xs z = z + sum_list xs"
proof (induction xs arbitrary: z)
  case (Cons x xs)
  then have "0 \<le> sum_list xs" by (auto simp: list_all_iff intro: sum_list_nonneg)
  with Cons.prems have "int64 (z + x)" by (simp add: int64_def)
  with Cons show ?case by (simp add: sum_wrapped_def)
qed (simp add: sum_wrapped_def)


definition demo_recorder :: Recorder where
  "demo_recorder = Combine ''op'' [Record (NewRecorder ''w1'') 30, Record (Record (NewRecorder ''w2'') 10) 20]"


lemma sum_list_bounds_const:
  fixes xs :: "int list"
  shows "\<forall>d \<in> set xs. a \<le> d \<and> d \<le> b \<Longrightarrow> a * int (length xs) \<le> sum_list xs \<and> sum_list xs \<le> b * int (length xs)"
  by (induction xs) (auto simp: algebra_simps)

text \<open>
  The mean: as long as the samples are not negative and their sum fits into 64 bits, it is the sum
  divided by their number, rounded down, and lies between the minimum and the maximum.
\<close>

theorem Summarize_mean:
  assumes "rcSamples r \<noteq> []" "list_all (\<lambda>d. 0 \<le> d) (rcSamples r)" "sum_list (rcSamples r) < 2 ^ 63"
  shows "stMean (Summarize r) = sum_list (rcSamples r) div int (length (rcSamples r)) \<and>
    stMin (Summarize r) \<le> stMean (Summarize r) \<and> stMean (Summarize r) \<le> stMax (Summarize r)"
proof -
  define xs where "xs = sort_by (<) (rcSamples r)"
  define n where "n = int (length xs)"
  have xs: "sorted xs" "length xs = length (rcSamples r)" "mset xs = mset (rcSamples r)"
    by (simp_all add: xs_def sorted_durations)
  have sum: "sum_list xs = sum_list (rcSamples r)" by (metis xs(3) sum_mset_sum_list)
  have nn: "list_all (\<lambda>d. 0 \<le> d) xs"
    using assms(2) mset_eq_setD [OF xs(3)] by (simp add: list_all_iff)
  have n: "0 < n" using assms(1) xs(2) by (simp add: n_def)
  have s: "sum_wrapped xs 0 = sum_list xs" using sum_wrapped_exact [OF nn] sum assms(3) by simp
  have "0 \<le> sum_list xs" using nn by (auto simp: list_all_iff intro: sum_list_nonneg)
  then have sd: "sum_list xs sdiv n = sum_list xs div n" using n by (cases "sum_list xs = 0") (simp_all add: signed_divide_int_def)
  have le: "0 \<le> sum_list xs div n" "sum_list xs div n \<le> sum_list xs"
    using \<open>0 \<le> sum_list xs\<close> n zdiv_mono2 [of "sum_list xs" 1 n] by (simp_all add: pos_imp_zdiv_nonneg_iff)
  have S: "stMin (Summarize r) = xs ! 0" "stMax (Summarize r) = xs ! (length xs - 1)"
    "stMean (Summarize r) = wrap64 (sum_wrapped xs 0 sdiv n)"
    using assms(1) unfolding Summarize_def Let_def xs_def n_def length_sort_by sum_wrapped_def
    by (simp_all only: length_0_conv simp_thms if_False Stats.simps)
  have "int64 (sum_list xs div n)" using le sum assms(3) by (simp add: int64_def)
  then have mean: "stMean (Summarize r) = sum_list xs div n" by (simp add: S(3) s sd)
  have "\<forall>d \<in> set xs. xs ! 0 \<le> d \<and> d \<le> xs ! (length xs - 1)"
    using xs(1) by (auto simp: in_set_conv_nth intro!: sorted_nth_mono)
  from sum_list_bounds_const [OF this] have "xs ! 0 * n \<le> sum_list xs" "sum_list xs \<le> xs ! (length xs - 1) * n"
    by (simp_all add: n_def)
  then have "xs ! 0 \<le> sum_list xs div n" "sum_list xs div n \<le> xs ! (length xs - 1)"
    using n zdiv_mono1 [of "xs ! 0 * n" "sum_list xs" n] zdiv_mono1 [of "sum_list xs" "xs ! (length xs - 1) * n" n]
    by simp_all
  with mean sum xs(2) show ?thesis by (simp add: S(1,2) n_def)
qed

theorem Summarize_mean_witness: "stMean (Summarize demo_recorder) = 20"
proof -
  have d: "rcSamples demo_recorder = [30, 10, 20]" by code_simp
  from Summarize_mean [of demo_recorder] show ?thesis by (simp add: d)
qed

text \<open>
  The comment on \<open>percentile\<close> promises the sample at rank \<open>ceil(p/100 * n)\<close>.  For the 99.9th percentile of
  a thousand samples that is rank 999, but \<open>99.9/100\<close> is rounded up to a \<open>float64\<close> above 0.999, its
  product with 1000 is above 999, and the code takes rank 1000: the maximum.
\<close>

theorem p999_of_a_thousand_is_the_maximum:
  "rank 1000 (fround F64 (999 / 10)) = 1000 \<and> \<lceil>(999 / 10 :: rat) / 100 * 1000\<rceil> = 999"
  by code_simp

end
