(* ===== verification/Bitmap.thy ===== *)
theory Bitmap
  imports GoBits
begin

text \<open>
  The compressed sets of \<open>bitmap.go\<close>.  The slices \<open>keys\<close> and \<open>containers\<close>, which the code keeps in step,
  are one list of pairs; a nil \<open>dense\<close> slice is \<open>None\<close>.  Ids are 32-bit words, a container's ids 16-bit
  words, a dense container 1024 words of 64 bits.  \<open>bset\<close> is the set that a bitmap stands for; the
  lemmas show that every operation keeps the representation well formed and computes on that set.
\<close>

unbundle bit_operations_syntax

section \<open>Containers\<close>

record container =
  cArr :: "16 word list"
  cDense :: "64 word list option"
  cCard :: nat

definition empty_container :: container where
  "empty_container = \<lparr>cArr = [], cDense = None, cCard = 0\<rparr>"

definition arrayMax :: nat where "arrayMax = 4096"
definition denseWords :: nat where "denseWords = 1024"

text \<open>The word and the mask of a low id in a dense container.\<close>

definition word_of :: "16 word \<Rightarrow> nat" where
  "word_of lo = unat (drop_bit 6 lo)"

definition mask_of :: "16 word \<Rightarrow> 64 word" where
  "mask_of lo = push_bit (unat (lo AND 63)) 1"

definition search_lo :: "16 word list \<Rightarrow> 16 word \<Rightarrow> nat" where
  "search_lo arr lo = sort_Search (length arr) (\<lambda>i. lo \<le> arr ! i)"

definition set_lo :: "16 word \<Rightarrow> 64 word list \<Rightarrow> 64 word list" where
  "set_lo lo dense = dense[word_of lo := dense ! word_of lo OR mask_of lo]"

definition toDense :: "container \<Rightarrow> container" where
  "toDense c = c\<lparr>cDense := Some (fold set_lo (cArr c) (replicate denseWords 0)), cArr := []\<rparr>"

definition container_add :: "16 word \<Rightarrow> container \<Rightarrow> container" where
  "container_add lo c = (case cDense c of
     Some dense \<Rightarrow>
       if dense ! word_of lo AND mask_of lo = 0
       then c\<lparr>cDense := Some (set_lo lo dense), cCard := cCard c + 1\<rparr> else c
   | None \<Rightarrow>
       (let i = search_lo (cArr c) lo in
        if i < length (cArr c) \<and> cArr c ! i = lo then c
        else let c = c\<lparr>cArr := take i (cArr c) @ lo # drop i (cArr c), cCard := cCard c + 1\<rparr>
             in if length (cArr c) > arrayMax then toDense c else c))"

definition container_contains :: "container \<Rightarrow> 16 word \<Rightarrow> bool" where
  "container_contains c lo = (case cDense c of
     Some dense \<Rightarrow> dense ! word_of lo AND mask_of lo \<noteq> 0
   | None \<Rightarrow> (let i = search_lo (cArr c) lo in i < length (cArr c) \<and> cArr c ! i = lo))"

text \<open>The nested loops over the words and the bits of a dense container: the offsets \<open>w*64 + bit\<close>.\<close>

definition dense_offsets :: "64 word list \<Rightarrow> nat list" where
  "dense_offsets dense =
     concat (map (\<lambda>(w, word). map (\<lambda>bit. w * 64 + bit) (word_bits word)) (enumerate 0 dense))"

definition container_each :: "container \<Rightarrow> 16 word \<Rightarrow> 32 word list" where
  "container_each c hi = (let base = push_bit 16 (ucast hi) in case cDense c of
     Some dense \<Rightarrow> map (\<lambda>k. base OR word_of_nat k) (dense_offsets dense)
   | None \<Rightarrow> map (\<lambda>lo. base OR ucast lo) (cArr c))"

fun merge_and :: "16 word list \<Rightarrow> 16 word list \<Rightarrow> 16 word list" where
  "merge_and (x # xs) (y # ys) =
     (if x < y then merge_and xs (y # ys)
      else if x > y then merge_and (x # xs) ys
      else x # merge_and xs ys)"
| "merge_and _ _ = []"

definition intersectArrayDense :: "16 word list \<Rightarrow> 64 word list \<Rightarrow> container" where
  "intersectArrayDense arr dense =
     (let out = filter (\<lambda>lo. dense ! word_of lo AND mask_of lo \<noteq> 0) arr
      in \<lparr>cArr = out, cDense = None, cCard = length out\<rparr>)"

definition container_and :: "container \<Rightarrow> container \<Rightarrow> container \<times> bool" where
  "container_and c d =
     (let out = (case (cDense c, cDense d) of
         (Some x, Some y) \<Rightarrow> (let dense = map (\<lambda>w. x ! w AND y ! w) [0..<denseWords]
           in \<lparr>cArr = [], cDense = Some dense, cCard = sum_list (map OnesCount64 dense)\<rparr>)
       | (Some x, None) \<Rightarrow> intersectArrayDense (cArr d) x
       | (None, Some y) \<Rightarrow> intersectArrayDense (cArr c) y
       | (None, None) \<Rightarrow> (let arr = merge_and (cArr c) (cArr d)
           in \<lparr>cArr = arr, cDense = None, cCard = length arr\<rparr>))
      in (out, cCard out > 0))"

definition fill :: "container \<Rightarrow> 64 word list \<Rightarrow> 64 word list" where
  "fill c dense = (case cDense c of
     Some x \<Rightarrow> map (\<lambda>w. dense ! w OR x ! w) [0..<length dense]
   | None \<Rightarrow> fold set_lo (cArr c) dense)"

definition toArray :: "container \<Rightarrow> container" where
  "toArray c = (case cDense c of
     Some dense \<Rightarrow> c\<lparr>cDense := None, cArr := map word_of_nat (dense_offsets dense)\<rparr>
   | None \<Rightarrow> c\<lparr>cDense := None, cArr := []\<rparr>)"

definition container_or :: "container \<Rightarrow> container \<Rightarrow> container" where
  "container_or c d =
     (let dense = fill d (fill c (replicate denseWords 0));
          card = sum_list (map OnesCount64 dense);
          out = \<lparr>cArr = [], cDense = Some dense, cCard = card\<rparr>
      in if card \<le> arrayMax then toArray out else out)"

definition clone :: "container \<Rightarrow> container" where
  "clone c = (case cDense c of
     Some dense \<Rightarrow> \<lparr>cArr = [], cDense = Some dense, cCard = cCard c\<rparr>
   | None \<Rightarrow> \<lparr>cArr = cArr c, cDense = None, cCard = cCard c\<rparr>)"

section \<open>Bitmaps\<close>

type_synonym bitmap = "(16 word \<times> container) list"

definition newBitmap :: bitmap where "newBitmap = []"

definition index :: "bitmap \<Rightarrow> 16 word \<Rightarrow> nat" where
  "index b hi = sort_Search (length b) (\<lambda>i. hi \<le> fst (b ! i))"

definition hi_of :: "32 word \<Rightarrow> 16 word" where "hi_of i = ucast (drop_bit 16 i)"
definition lo_of :: "32 word \<Rightarrow> 16 word" where "lo_of i = ucast i"

definition bitmap_add :: "32 word \<Rightarrow> bitmap \<Rightarrow> bitmap" where
  "bitmap_add k b =
     (let hi = hi_of k; lo = lo_of k; i = index b hi in
      if i < length b \<and> fst (b ! i) = hi then b[i := (hi, container_add lo (snd (b ! i)))]
      else take i b @ (hi, container_add lo empty_container) # drop i b)"

definition bitmap_len :: "bitmap \<Rightarrow> nat" where
  "bitmap_len b = sum_list (map (cCard \<circ> snd) b)"

definition bitmap_contains :: "bitmap \<Rightarrow> 32 word \<Rightarrow> bool" where
  "bitmap_contains b k =
     (let hi = hi_of k; i = index b hi in
      if i \<ge> length b \<or> fst (b ! i) \<noteq> hi then False else container_contains (snd (b ! i)) (lo_of k))"

definition bitmap_each :: "bitmap \<Rightarrow> 32 word list" where
  "bitmap_each b = concat (map (\<lambda>(hi, c). container_each c hi) b)"

fun bitmap_and :: "bitmap \<Rightarrow> bitmap \<Rightarrow> bitmap" where
  "bitmap_and ((k, c) # b) ((l, d) # e) =
     (if k < l then bitmap_and b ((l, d) # e)
      else if k > l then bitmap_and ((k, c) # b) e
      else if snd (container_and c d) then (k, fst (container_and c d)) # bitmap_and b e
      else bitmap_and b e)"
| "bitmap_and _ _ = newBitmap"

fun bitmap_or :: "bitmap \<Rightarrow> bitmap \<Rightarrow> bitmap" where
  "bitmap_or ((k, c) # b) ((l, d) # e) =
     (if k < l then (k, clone c) # bitmap_or b ((l, d) # e)
      else if l < k then (l, clone d) # bitmap_or ((k, c) # b) e
      else (k, container_or c d) # bitmap_or b e)"
| "bitmap_or ((k, c) # b) [] = (k, clone c) # bitmap_or b []"
| "bitmap_or [] ((l, d) # e) = (l, clone d) # bitmap_or [] e"
| "bitmap_or [] [] = newBitmap"

definition toSorted :: "bitmap \<Rightarrow> 32 word list" where
  "toSorted b = bitmap_each b"

definition bitmapFromSorted :: "32 word list \<Rightarrow> bitmap" where
  "bitmapFromSorted ids = fold bitmap_add ids newBitmap"

section \<open>Sorted lists and binary search\<close>

lemma search_key:
  fixes ks :: "'a::linorder list"
  assumes "sorted_wrt (<) ks" "\<And>i. i < length ks \<Longrightarrow> f i \<longleftrightarrow> x \<le> ks ! i" "i = sort_Search (length ks) f"
  shows "i \<le> length ks" "i < length ks \<and> ks ! i = x \<longleftrightarrow> x \<in> set ks"
    "x \<notin> set ks \<Longrightarrow> sorted_wrt (<) (take i ks @ x # drop i ks)"
proof -
  have mono: "\<And>a b. f a \<Longrightarrow> a \<le> b \<Longrightarrow> b < length ks \<Longrightarrow> f b"
    using assms(1,2) by (metis le_less_trans order_le_less order_trans sorted_wrt_nth_less less_imp_le)
  have sp: "sort_Search (length ks) f \<le> length ks" "\<And>k. k < sort_Search (length ks) f \<Longrightarrow> \<not> f k"
    "\<And>k. sort_Search (length ks) f \<le> k \<Longrightarrow> k < length ks \<Longrightarrow> f k"
    using sort_Search_spec [of f "length ks"] mono by blast+
  have le: "i \<le> length ks" using sp(1) assms(3) by blast
  then show "i \<le> length ks" .
  have lo: "ks ! k < x" if "k < i" for k using sp(2) assms(2,3) le that by (metis less_le_trans linorder_not_le)
  have hi: "x \<le> ks ! k" if "i \<le> k" "k < length ks" for k using sp(3) assms(2,3) that by blast
  show iff: "i < length ks \<and> ks ! i = x \<longleftrightarrow> x \<in> set ks"
  proof
    assume "x \<in> set ks"
    then obtain k where k: "k < length ks" "ks ! k = x" by (auto simp: in_set_conv_nth)
    then have "i \<le> k" using lo by (metis linorder_not_le order_less_irrefl)
    with k hi have "x \<le> ks ! i" by simp
    moreover have "ks ! i \<le> x"
      using \<open>i \<le> k\<close> k assms(1) by (metis order_le_less sorted_wrt_nth_less)
    ultimately show "i < length ks \<and> ks ! i = x" using \<open>i \<le> k\<close> k by simp
  qed auto
  show "sorted_wrt (<) (take i ks @ x # drop i ks)" if "x \<notin> set ks"
  proof -
    have "ks ! k \<noteq> x" if "k < length ks" for k using \<open>x \<notin> set ks\<close> that by auto
    with hi have hi': "x < ks ! k" if "i \<le> k" "k < length ks" for k using that by (metis order_le_less)
    have 1: "\<forall>y \<in> set (take i ks). y < x" using lo le by (auto simp: in_set_conv_nth)
    have 2: "\<forall>y \<in> set (drop i ks). x < y" using hi' by (auto simp: in_set_conv_nth)
    have "\<forall>y \<in> set (take i ks). \<forall>z \<in> set (drop i ks). y < z" using 1 2 by (meson less_trans)
    with 1 2 assms(1) show ?thesis by (auto simp: sorted_wrt_append sorted_wrt_take sorted_wrt_drop)
  qed
qed

section \<open>What a container holds\<close>

definition bit_of :: "16 word \<Rightarrow> nat" where
  "bit_of lo = unat lo mod 64"

lemma word_of_eq: "word_of lo = unat lo div 64"
  by (simp add: word_of_def unsigned_drop_bit_eq drop_bit_eq_div unat_div)

lemma word_of_less: "word_of lo < 1024"
  using unsigned_less [of lo, where 'a = nat] by (simp add: word_of_eq)

lemma bit_of_less: "bit_of lo < 64"
  by (simp add: bit_of_def)

lemma low_eq_iff: "lo = lo' \<longleftrightarrow> word_of lo = word_of lo' \<and> bit_of lo = bit_of lo'"
proof -
  have "unat lo = word_of lo * 64 + bit_of lo" for lo by (simp add: word_of_eq bit_of_def)
  then show ?thesis by (metis word_unat_eq_iff)
qed

lemma unat_and_63: "unat (lo AND 63) = bit_of (lo :: 16 word)"
proof -
  have "lo AND 63 = take_bit 6 lo" by (simp add: take_bit_eq_mask mask_eq_exp_minus_1)
  then show ?thesis by (simp add: bit_of_def unsigned_take_bit_eq take_bit_eq_mod unat_mod)
qed

lemma bit_mask_of: "bit (mask_of lo) i \<longleftrightarrow> i = bit_of lo"
  using bit_of_less [of lo] by (auto simp: mask_of_def unat_and_63 bit_simps)

lemma and_mask_of: "x AND mask_of lo = 0 \<longleftrightarrow> \<not> bit x (bit_of lo)"
  using bit_eq_iff [of "x AND mask_of lo" 0] bit_of_less [of lo] by (auto simp: bit_and_iff bit_mask_of)

definition dset :: "64 word list \<Rightarrow> 16 word set" where
  "dset dense = {lo. bit (dense ! word_of lo) (bit_of lo)}"

lemma set_lo_length [simp]: "length (set_lo lo dense) = length dense"
  by (simp add: set_lo_def)

lemma dset_set_lo: "length dense = 1024 \<Longrightarrow> dset (set_lo lo dense) = insert lo (dset dense)"
  using word_of_less
  by (auto simp: dset_def set_lo_def nth_list_update bit_or_iff bit_mask_of low_eq_iff split: if_splits)

lemma dset_fold: "length dense = 1024 \<Longrightarrow>
    length (fold set_lo xs dense) = 1024 \<and> dset (fold set_lo xs dense) = set xs \<union> dset dense"
  by (induction xs arbitrary: dense) (auto simp: dset_set_lo)

lemma dset_zero: "dset (replicate denseWords 0) = {}"
  by (simp add: dset_def denseWords_def word_of_less)

text \<open>The offsets of a dense container, in order.\<close>

lemma dense_offsets_snoc:
  "dense_offsets (ws @ [w]) = dense_offsets ws @ map (\<lambda>i. length ws * 64 + i) (word_bits w)"
  by (simp add: dense_offsets_def enumerate_append_eq)

lemma dense_offsets_eq:
  "dense_offsets dense = filter (\<lambda>k. bit (dense ! (k div 64)) (k mod 64)) [0..<64 * length dense]"
proof (induction dense rule: rev_induct)
  case (snoc w ws)
  let ?n = "length ws"
  have "filter (\<lambda>k. bit ((ws @ [w]) ! (k div 64)) (k mod 64)) [0..<64 * ?n] =
      filter (\<lambda>k. bit (ws ! (k div 64)) (k mod 64)) [0..<64 * ?n]"
    by (rule filter_cong) (auto simp: nth_append less_mult_imp_div_less mult.commute)
  moreover have "filter (\<lambda>k. bit ((ws @ [w]) ! (k div 64)) (k mod 64)) (map (\<lambda>i. ?n * 64 + i) [0..<64]) =
      map (\<lambda>i. ?n * 64 + i) (word_bits w)"
    unfolding filter_map word_bits_eq
    by (rule arg_cong [where f = "map _"], rule filter_cong) (auto simp: nth_append)
  ultimately show ?case using snoc upt_blocks [of ?n] by (simp add: dense_offsets_snoc)
qed (simp add: dense_offsets_def)

lemma length_dense_offsets: "length (dense_offsets dense) = sum_list (map OnesCount64 dense)"
  by (induction dense rule: rev_induct)
    (simp_all add: dense_offsets_snoc length_word_bits, simp add: dense_offsets_def)

text \<open>The ids of a container, in the order in which \<open>each\<close> visits them, and its set.\<close>

definition lows :: "container \<Rightarrow> 16 word list" where
  "lows c = (case cDense c of Some dense \<Rightarrow> map word_of_nat (dense_offsets dense) | None \<Rightarrow> cArr c)"

definition cset :: "container \<Rightarrow> 16 word set" where
  "cset c = (case cDense c of Some dense \<Rightarrow> dset dense | None \<Rightarrow> set (cArr c))"

definition c_ok :: "container \<Rightarrow> bool" where
  "c_ok c \<longleftrightarrow> cCard c = length (lows c) \<and> (case cDense c of
     Some dense \<Rightarrow> length dense = 1024 \<and> cArr c = []
   | None \<Rightarrow> sorted_wrt (<) (cArr c) \<and> length (cArr c) \<le> arrayMax)"

lemma dense_offsets_bound: "length dense = 1024 \<Longrightarrow> k \<in> set (dense_offsets dense) \<Longrightarrow> k < 65536"
  by (auto simp: dense_offsets_eq)

lemma lows_dense:
  assumes "length dense = 1024"
  shows "sorted_wrt (<) (map word_of_nat (dense_offsets dense) :: 16 word list)"
    "set (map word_of_nat (dense_offsets dense)) = dset dense"
proof -
  have "sorted_wrt (<) (dense_offsets dense)" unfolding dense_offsets_eq by (rule sorted_wrt_filter) simp
  then have "sorted_wrt (\<lambda>a b. (word_of_nat a :: 16 word) < word_of_nat b) (dense_offsets dense)"
  proof (rule sorted_wrt_mono_rel [rotated])
    fix a b
    assume "a \<in> set (dense_offsets dense)" "b \<in> set (dense_offsets dense)" "a < b"
    with dense_offsets_bound [OF assms] show "(word_of_nat a :: 16 word) < word_of_nat b"
      by (simp add: word_less_nat_alt unat_of_nat)
  qed
  then show "sorted_wrt (<) (map word_of_nat (dense_offsets dense) :: 16 word list)"
    by (simp add: sorted_wrt_map)
  have "(word_of_nat k :: 16 word) \<in> dset dense" if "k \<in> set (dense_offsets dense)" for k
    using that dense_offsets_bound [OF assms that]
    by (simp add: dset_def word_of_eq bit_of_def unat_of_nat dense_offsets_eq)
  moreover have "lo \<in> word_of_nat ` set (dense_offsets dense)" if "lo \<in> dset dense" for lo :: "16 word"
  proof -
    have "unat lo < 65536" using unsigned_less [of lo, where 'a = nat] by simp
    then have "unat lo \<in> set (dense_offsets dense)"
      using that assms by (simp add: dset_def word_of_eq bit_of_def dense_offsets_eq)
    then show ?thesis by (intro image_eqI [of _ _ "unat lo"]) simp_all
  qed
  ultimately show "set (map word_of_nat (dense_offsets dense)) = dset dense" by auto
qed

lemma lows_ok: "c_ok c \<Longrightarrow> sorted_wrt (<) (lows c) \<and> set (lows c) = cset c"
  using lows_dense by (cases "cDense c") (auto simp: lows_def cset_def c_ok_def)

lemma c_ok_dense: "length dense = 1024 \<Longrightarrow>
    c_ok \<lparr>cArr = [], cDense = Some dense, cCard = sum_list (map OnesCount64 dense)\<rparr>"
  by (simp add: c_ok_def lows_def length_dense_offsets)

lemma c_ok_arr: "sorted_wrt (<) arr \<Longrightarrow> length arr \<le> arrayMax \<Longrightarrow>
    c_ok \<lparr>cArr = arr, cDense = None, cCard = length arr\<rparr>"
  by (simp add: c_ok_def lows_def)

lemma cset_simps [simp]:
  "cset \<lparr>cArr = a, cDense = Some x, cCard = n\<rparr> = dset x" "cset \<lparr>cArr = a, cDense = None, cCard = n\<rparr> = set a"
  by (simp_all add: cset_def)

lemma card_cset: "c_ok c \<Longrightarrow> cCard c = card (cset c)"
  using lows_ok [of c] distinct_card [of "lows c"] by (auto simp: c_ok_def strict_sorted_iff)

section \<open>The container operations\<close>

lemma length_offsets_card: "length dense = 1024 \<Longrightarrow> length (dense_offsets dense) = card (dset dense)"
  using lows_dense [of dense] distinct_card [of "map word_of_nat (dense_offsets dense) :: 16 word list"]
  by (simp add: strict_sorted_iff)

lemma c_ok_denseI:
  "length dense = 1024 \<Longrightarrow> n = card (dset dense) \<Longrightarrow> c_ok \<lparr>cArr = [], cDense = Some dense, cCard = n\<rparr>"
  by (simp add: c_ok_def lows_def length_offsets_card)

lemma ones_card: "length dense = 1024 \<Longrightarrow> sum_list (map OnesCount64 dense) = card (dset dense)"
  by (simp add: length_offsets_card flip: length_dense_offsets)

lemma container_cases:
  assumes "c_ok c"
  obtains (dense) x where "c = \<lparr>cArr = [], cDense = Some x, cCard = card (dset x)\<rparr>" "length x = 1024"
    | (arr) xs where "c = \<lparr>cArr = xs, cDense = None, cCard = length xs\<rparr>" "sorted_wrt (<) xs" "length xs \<le> arrayMax"
proof (cases "cDense c")
  case None
  with assms arr [of "cArr c"] show ?thesis by (cases c) (simp add: c_ok_def lows_def)
next
  case (Some x)
  with assms dense [of x] length_offsets_card [of x] show ?thesis by (cases c) (simp add: c_ok_def lows_def)
qed

lemma container_add_ok:
  assumes "c_ok c"
  shows "c_ok (container_add lo c) \<and> cset (container_add lo c) = insert lo (cset c)"
  using assms
proof (cases rule: container_cases)
  case (dense x)
  show ?thesis
  proof (cases "lo \<in> dset x")
    case True
    with dense assms show ?thesis by (auto simp: container_add_def and_mask_of dset_def)
  next
    case False
    have "card (insert lo (dset x)) = Suc (card (dset x))" using False by (simp add: finite_code)
    with False dense dset_set_lo [of x lo] show ?thesis
      by (simp add: container_add_def and_mask_of dset_def [of x] c_ok_denseI)
  qed
next
  case (arr xs)
  define i where "i = search_lo xs lo"
  note k = search_key [OF arr(2) refl i_def [unfolded search_lo_def]]
  show ?thesis
  proof (cases "lo \<in> set xs")
    case True
    with k(2) arr assms show ?thesis
      by (auto simp: container_add_def Let_def simp flip: i_def)
  next
    case False
    let ?ys = "take i xs @ lo # drop i xs"
    have ys: "sorted_wrt (<) ?ys" using k(3) False by blast
    have set_ys: "set ?ys = insert lo (set xs)"
      by (metis append_take_drop_id set_append list.simps(15) Un_insert_right)
    have len: "length ?ys = Suc (length xs)" using k(1) by simp
    have nf: "\<not> (i < length xs \<and> xs ! i = lo)" using False k(2) by blast
    have card: "card (set ?ys) = Suc (length xs)" using ys len distinct_card [of ?ys] by (simp add: strict_sorted_iff)
    show ?thesis
    proof (cases "length ?ys > arrayMax")
      case True
      let ?d = "fold set_lo ?ys (replicate denseWords 0)"
      have d: "length ?d = 1024" "dset ?d = set ?ys"
        using dset_fold [of "replicate denseWords 0" ?ys] unfolding dset_zero by (simp_all add: denseWords_def)
      have "container_add lo c = \<lparr>cArr = [], cDense = Some ?d, cCard = Suc (length xs)\<rparr>"
        using nf True arr(1) len by (simp add: container_add_def Let_def toDense_def flip: i_def)
      with d c_ok_denseI [OF d(1), of "Suc (length xs)"] card set_ys arr(1) show ?thesis by simp
    next
      case f: False
      have "container_add lo c = \<lparr>cArr = ?ys, cDense = None, cCard = length ?ys\<rparr>"
        using nf f arr(1) len by (simp add: container_add_def Let_def flip: i_def)
      with ys f set_ys arr(1) c_ok_arr [OF ys] show ?thesis by simp
    qed
  qed
qed

lemma empty_container_ok: "c_ok empty_container" "cset empty_container = {}"
  by (simp_all add: empty_container_def c_ok_def lows_def)

lemma container_contains_iff:
  assumes "c_ok c"
  shows "container_contains c lo \<longleftrightarrow> lo \<in> cset c"
  using assms
proof (cases rule: container_cases)
  case (dense x)
  then show ?thesis by (simp add: container_contains_def and_mask_of dset_def)
next
  case (arr xs)
  with search_key(2) [OF arr(2) refl refl] show ?thesis
    by (simp add: container_contains_def search_lo_def Let_def)
qed

lemma merge_and_ok:
  "sorted_wrt (<) xs \<Longrightarrow> sorted_wrt (<) ys \<Longrightarrow>
   sorted_wrt (<) (merge_and xs ys) \<and> set (merge_and xs ys) = set xs \<inter> set ys \<and> length (merge_and xs ys) \<le> length xs"
proof (induction xs ys rule: merge_and.induct)
  case (1 x xs y ys)
  consider "x < y" | "y < x" | "x = y" by (metis linorder_neqE)
  then show ?case
  proof cases
    case 1
    with "1.IH"(1) "1.prems" show ?thesis by (auto dest: less_trans)
  next
    case 2
    with "1.IH"(2) "1.prems" show ?thesis by (auto dest: less_trans)
  next
    case 3
    with "1.IH"(3) "1.prems" show ?thesis by auto
  qed
qed auto

lemma intersectArrayDense_ok:
  assumes "sorted_wrt (<) xs" "length xs \<le> arrayMax"
  shows "c_ok (intersectArrayDense xs x) \<and> cset (intersectArrayDense xs x) = set xs \<inter> dset x"
proof -
  let ?ys = "filter (\<lambda>lo. x ! word_of lo AND mask_of lo \<noteq> 0) xs"
  have "sorted_wrt (<) ?ys" using assms(1) by (rule sorted_wrt_filter)
  moreover have "length ?ys \<le> arrayMax" using assms(2) length_filter_le le_trans by blast
  ultimately show ?thesis
    by (auto simp: intersectArrayDense_def Let_def c_ok_arr and_mask_of dset_def)
qed

lemma container_and_ok:
  assumes "c_ok c" "c_ok d" "container_and c d = (x, ok)"
  shows "c_ok x \<and> cset x = cset c \<inter> cset d \<and> (ok \<longleftrightarrow> cset x \<noteq> {})"
proof -
  have "snd (container_and c d) = (0 < cCard (fst (container_and c d)))"
    by (simp only: container_and_def Let_def fst_conv snd_conv)
  with assms(3) have x: "x = fst (container_and c d)" "ok = (0 < cCard x)" by simp_all
  have "c_ok x \<and> cset x = cset c \<inter> cset d"
    using assms(1)
  proof (cases rule: container_cases)
    case c: (dense u)
    show ?thesis using assms(2)
    proof (cases rule: container_cases)
      case d: (dense v)
      let ?w = "map (\<lambda>w. u ! w AND v ! w) [0..<denseWords]"
      have "?w ! word_of lo = u ! word_of lo AND v ! word_of lo" for lo
        using word_of_less by (simp add: denseWords_def)
      then have w: "length ?w = 1024" "dset ?w = dset u \<inter> dset v"
        by (simp_all add: denseWords_def dset_def bit_and_iff Collect_conj_eq)
      have "x = \<lparr>cArr = [], cDense = Some ?w, cCard = sum_list (map OnesCount64 ?w)\<rparr>"
        by (simp add: x c(1) d(1) container_and_def Let_def)
      with c(1) d(1) w c_ok_dense [OF w(1)] show ?thesis by simp
    next
      case d: (arr ys)
      have "x = intersectArrayDense ys u" by (simp add: x c(1) d(1) container_and_def Let_def)
      with c(1) d(1) intersectArrayDense_ok [OF d(2,3), of u] show ?thesis by (simp add: Int_commute)
    qed
  next
    case c: (arr xs)
    show ?thesis using assms(2)
    proof (cases rule: container_cases)
      case d: (dense v)
      have "x = intersectArrayDense xs v" by (simp add: x c(1) d(1) container_and_def Let_def)
      with c(1) d(1) intersectArrayDense_ok [OF c(2,3), of v] show ?thesis by simp
    next
      case d: (arr ys)
      have "x = \<lparr>cArr = merge_and xs ys, cDense = None, cCard = length (merge_and xs ys)\<rparr>"
        by (simp add: x c(1) d(1) container_and_def Let_def)
      with c d(1) merge_and_ok [OF c(2) d(2)] c_ok_arr [of "merge_and xs ys"] show ?thesis by simp
    qed
  qed
  moreover from this have "0 < cCard x \<longleftrightarrow> cset x \<noteq> {}"
    using card_gt_0_iff [of "cset x"] finite [of "cset x"] by (simp only: card_cset simp_thms)
  ultimately show ?thesis unfolding x(2) by blast
qed

lemma fill_ok:
  assumes "c_ok c" "length d = 1024"
  shows "length (fill c d) = 1024 \<and> dset (fill c d) = cset c \<union> dset d"
  using assms(1)
proof (cases rule: container_cases)
  case (dense x)
  have "map (\<lambda>w. d ! w OR x ! w) [0..<length d] ! word_of lo = d ! word_of lo OR x ! word_of lo" for lo
    using word_of_less assms(2) by simp
  with assms(2) dense(1) show ?thesis by (auto simp: fill_def dset_def bit_or_iff)
next
  case (arr xs)
  with dset_fold [OF assms(2)] show ?thesis by (simp add: fill_def)
qed

lemma toArray_ok:
  assumes "c_ok c" "cDense c = Some x" "cCard c \<le> arrayMax"
  shows "c_ok (toArray c) \<and> cset (toArray c) = cset c"
proof -
  have "length x = 1024" "cCard c = length (dense_offsets x)" using assms(1,2) by (auto simp: c_ok_def lows_def)
  with assms lows_dense [of x] show ?thesis by (auto simp: toArray_def c_ok_def lows_def cset_def)
qed

lemma container_or_ok:
  assumes "c_ok c" "c_ok d"
  shows "c_ok (container_or c d) \<and> cset (container_or c d) = cset c \<union> cset d"
proof -
  have 0: "length (replicate denseWords (0 :: 64 word)) = 1024" by (simp add: denseWords_def)
  let ?x = "fill d (fill c (replicate denseWords 0))"
  from fill_ok [OF assms(1) 0] fill_ok [OF assms(2), of "fill c (replicate denseWords 0)"]
  have x: "length ?x = 1024" "dset ?x = cset c \<union> cset d" by (auto simp: dset_zero)
  let ?c = "\<lparr>cArr = [], cDense = Some ?x, cCard = sum_list (map OnesCount64 ?x)\<rparr>"
  have ok: "c_ok ?c" using x(1) by (rule c_ok_dense)
  with x(2) toArray_ok [OF ok, of ?x] show ?thesis by (simp add: container_or_def Let_def)
qed

lemma clone_eq: "c_ok c \<Longrightarrow> clone c = c"
  by (cases c) (auto simp: clone_def c_ok_def split: option.splits)

section \<open>The two halves of an id\<close>

definition join :: "16 word \<Rightarrow> 16 word \<Rightarrow> 32 word" where
  "join hi lo = push_bit 16 (ucast hi) OR ucast lo"

lemma hi_of_join [simp]: "hi_of (join hi lo) = hi"
  by (rule bit_word_eqI) (auto simp: hi_of_def join_def bit_simps dest: bit_imp_le_length)

lemma lo_of_join [simp]: "lo_of (join hi lo) = lo"
  by (rule bit_word_eqI) (auto simp: lo_of_def join_def bit_simps)

lemma join_halves [simp]: "join (hi_of k) (lo_of k) = k"
  by (rule bit_word_eqI) (auto simp: hi_of_def lo_of_def join_def bit_simps)

lemma unat_halves: "unat k = unat (hi_of k) * 65536 + unat (lo_of k)"
proof -
  have "unat k < 65536 * 65536" using unsigned_less [of k, where 'a = nat] by simp
  then have "unat k div 65536 < 65536" by (simp add: less_mult_imp_div_less)
  then have "unat (hi_of k) = unat k div 65536"
    by (simp add: hi_of_def unsigned_ucast_eq unsigned_drop_bit_eq drop_bit_eq_div take_bit_eq_mod unat_div)
  moreover have "unat (lo_of k) = unat k mod 65536"
    by (simp add: lo_of_def unsigned_ucast_eq take_bit_eq_mod)
  ultimately show ?thesis by simp
qed

lemma join_less: "h < h' \<or> h = h' \<and> l < l' \<Longrightarrow> join h l < join h' l'"
proof -
  assume a: "h < h' \<or> h = h' \<and> l < l'"
  have "unat l < 65536" using unsigned_less [of l, where 'a = nat] by simp
  moreover have "unat h < unat h' \<Longrightarrow> unat h * 65536 + 65536 \<le> unat h' * 65536" by simp
  ultimately have "unat h * 65536 + unat l < unat h' * 65536 + unat l'"
    using a by (auto simp: word_less_nat_alt)
  then show ?thesis using unat_halves [of "join h l"] unat_halves [of "join h' l'"] by (simp add: word_less_nat_alt)
qed

lemma container_each_eq:
  assumes "c_ok c"
  shows "container_each c hi = map (join hi) (lows c)"
proof (cases "cDense c")
  case None
  then show ?thesis by (simp add: container_each_def lows_def join_def [abs_def])
next
  case (Some x)
  with assms have len: "length x = 1024" by (simp add: c_ok_def)
  have "push_bit 16 (ucast hi) OR word_of_nat k = join hi (word_of_nat k)" if "k \<in> set (dense_offsets x)" for k
  proof -
    have "k < 65536" using dense_offsets_bound [OF len that] .
    moreover from this have "take_bit 32 k = k" by (simp add: take_bit_nat_eq_self)
    ultimately have "(ucast (word_of_nat k :: 16 word) :: 32 word) = word_of_nat k"
      by (simp add: word_unat_eq_iff unsigned_ucast_eq unat_of_nat)
    then show ?thesis by (simp add: join_def)
  qed
  with Some show ?thesis by (simp add: container_each_def lows_def)
qed

section \<open>What a bitmap holds\<close>

definition bset :: "bitmap \<Rightarrow> 32 word set" where
  "bset b = {k. case map_of b (hi_of k) of Some c \<Rightarrow> lo_of k \<in> cset c | None \<Rightarrow> False}"

definition b_ok :: "bitmap \<Rightarrow> bool" where
  "b_ok b \<longleftrightarrow> sorted_wrt (<) (map fst b) \<and> (\<forall>(k, c) \<in> set b. c_ok c)"

lemma b_ok_Nil [simp]: "b_ok []" by (simp add: b_ok_def)

lemma b_ok_Cons: "b_ok ((k, c) # b) \<longleftrightarrow> c_ok c \<and> (\<forall>l \<in> set (map fst b). k < l) \<and> b_ok b"
  by (auto simp: b_ok_def)

lemma b_ok_map_of: "b_ok b \<Longrightarrow> map_of b h = Some c \<Longrightarrow> c_ok c"
  by (auto simp: b_ok_def dest: map_of_SomeD)

lemma map_of_below: "(\<And>l. l \<in> set (map fst b) \<Longrightarrow> (k :: 16 word) < l) \<Longrightarrow> map_of b k = None"
  by (auto simp: map_of_eq_None_iff)

lemma map_of_insert_at:
  "x \<notin> fst ` set b \<Longrightarrow> map_of (take i b @ (x, c) # drop i b) = (map_of b)(x \<mapsto> c)"
proof (rule ext)
  fix h
  assume "x \<notin> fst ` set b"
  then have "map_of (take i b) x = None"
    by (auto simp: map_of_eq_None_iff dest: in_set_takeD)
  moreover have "map_of b h = map_of (take i b @ drop i b) h" by simp
  ultimately show "map_of (take i b @ (x, c) # drop i b) h = ((map_of b)(x \<mapsto> c)) h"
    unfolding map_of_append by (auto simp: map_add_def split: option.splits)
qed

lemma map_of_update_at:
  "distinct (map fst b) \<Longrightarrow> i < length b \<Longrightarrow> fst (b ! i) = x \<Longrightarrow> map_of (b[i := (x, c)]) = (map_of b)(x \<mapsto> c)"
proof (induction b arbitrary: i)
  case (Cons e b)
  show ?case
  proof (cases i)
    case (Suc n)
    with Cons.prems have "fst (b ! n) \<in> fst ` set b" "fst (b ! n) = x" by auto
    with Cons.prems(1) have "fst e \<noteq> x" by (metis distinct.simps(2) list.map(2) list.set_map)
    with Cons Suc show ?thesis by (cases e) (auto intro: fun_upd_twist)
  qed (use Cons.prems in \<open>auto simp: prod_eq_iff\<close>)
qed simp

lemma index_spec:
  assumes "b_ok b"
  shows "index b hi \<le> length b" "index b hi < length b \<and> fst (b ! index b hi) = hi \<longleftrightarrow> hi \<in> fst ` set b"
    "hi \<notin> fst ` set b \<Longrightarrow> sorted_wrt (<) (take (index b hi) (map fst b) @ hi # drop (index b hi) (map fst b))"
proof -
  have s: "sorted_wrt (<) (map fst b)" using assms by (simp add: b_ok_def)
  have i: "index b hi = sort_Search (length (map fst b)) (\<lambda>i. hi \<le> fst (b ! i))" by (simp add: index_def)
  have "index b hi \<le> length (map fst b)" by (rule search_key(1) [OF s _ i]) simp
  then show "index b hi \<le> length b" by simp
  have "index b hi < length (map fst b) \<and> map fst b ! index b hi = hi \<longleftrightarrow> hi \<in> set (map fst b)"
    by (rule search_key(2) [OF s _ i]) simp
  then show "index b hi < length b \<and> fst (b ! index b hi) = hi \<longleftrightarrow> hi \<in> fst ` set b"
    by (simp cong: conj_cong)
  show "sorted_wrt (<) (take (index b hi) (map fst b) @ hi # drop (index b hi) (map fst b))" if "hi \<notin> fst ` set b"
    by (rule search_key(3) [OF s _ i]) (use that in simp_all)
qed

lemma bset_upd:
  assumes "map_of b' = (map_of b)(hi_of k \<mapsto> x)"
    and "cset x = insert (lo_of k) (case map_of b (hi_of k) of Some c \<Rightarrow> cset c | None \<Rightarrow> {})"
  shows "bset b' = insert k (bset b)"
proof (intro set_eqI)
  fix j
  have "j = k \<longleftrightarrow> hi_of j = hi_of k \<and> lo_of j = lo_of k" by (metis join_halves)
  with assms show "j \<in> bset b' \<longleftrightarrow> j \<in> insert k (bset b)" by (auto simp: bset_def split: option.splits)
qed

lemma bitmap_add_ok:
  assumes "b_ok b"
  shows "b_ok (bitmap_add k b) \<and> bset (bitmap_add k b) = insert k (bset b)"
proof -
  let ?i = "index b (hi_of k)"
  note i = index_spec [OF assms, of "hi_of k"]
  have d: "distinct (map fst b)" using assms by (simp add: b_ok_def strict_sorted_iff)
  show ?thesis
  proof (cases "hi_of k \<in> fst ` set b")
    case True
    with i(2) have at: "?i < length b" "fst (b ! ?i) = hi_of k" by blast+
    define c where "c = snd (b ! ?i)"
    have bi: "b ! ?i = (hi_of k, c)" using at(2) by (simp add: c_def prod_eq_iff)
    then have mem: "(hi_of k, c) \<in> set b" using at(1) by (metis nth_mem)
    with assms have "c_ok c" by (auto simp: b_ok_def)
    note c = container_add_ok [OF this, of "lo_of k"]
    let ?b = "b[?i := (hi_of k, container_add (lo_of k) c)]"
    have add: "bitmap_add k b = ?b" using at by (simp add: bitmap_add_def Let_def c_def)
    have "map fst ?b = map fst b" using bi at(1) by (simp add: map_update) (metis fst_conv list_update_id map_update nth_map)
    moreover have "set ?b \<subseteq> insert (hi_of k, container_add (lo_of k) c) (set b)" by (rule set_update_subset_insert)
    ultimately have "b_ok ?b" using assms c by (auto simp: b_ok_def)
    moreover have "map_of b (hi_of k) = Some c" using d mem by simp
    ultimately show ?thesis unfolding add
      using bset_upd [OF map_of_update_at [OF d at]] c by simp
  next
    case False
    note c = container_add_ok [OF empty_container_ok(1), of "lo_of k"]
    let ?x = "container_add (lo_of k) empty_container"
    let ?b = "take ?i b @ (hi_of k, ?x) # drop ?i b"
    have add: "bitmap_add k b = ?b" using False i(2) by (auto simp: bitmap_add_def Let_def)
    have "sorted_wrt (<) (map fst ?b)" using i(3) [OF False] by (simp add: take_map drop_map)
    moreover have "set ?b \<subseteq> insert (hi_of k, ?x) (set b)" by (auto dest: in_set_takeD in_set_dropD)
    ultimately have "b_ok ?b" using assms c unfolding b_ok_def by blast
    moreover have "map_of b (hi_of k) = None" using False by (simp add: map_of_eq_None_iff)
    ultimately show ?thesis unfolding add
      using bset_upd [OF map_of_insert_at [OF False]] c empty_container_ok(2) by simp
  qed
qed

lemma bitmap_contains_iff:
  assumes "b_ok b"
  shows "bitmap_contains b k \<longleftrightarrow> k \<in> bset b"
proof (cases "hi_of k \<in> fst ` set b")
  case True
  let ?i = "index b (hi_of k)"
  from True index_spec(2) [OF assms] have at: "?i < length b" "fst (b ! ?i) = hi_of k" by blast+
  define c where "c = snd (b ! ?i)"
  have "b ! ?i = (hi_of k, c)" using at(2) by (simp add: c_def prod_eq_iff)
  then have mem: "(hi_of k, c) \<in> set b" using at(1) by (metis nth_mem)
  have "distinct (map fst b)" using assms by (simp add: b_ok_def strict_sorted_iff)
  with mem have "map_of b (hi_of k) = Some c" by simp
  moreover from this assms have "c_ok c" by (rule b_ok_map_of [rotated])
  ultimately show ?thesis
    using at by (simp add: bitmap_contains_def Let_def bset_def container_contains_iff flip: c_def)
next
  case False
  then have "map_of b (hi_of k) = None" by (simp add: map_of_eq_None_iff)
  with False index_spec(2) [OF assms, of "hi_of k"] show ?thesis
    by (auto simp: bitmap_contains_def Let_def bset_def)
qed

text \<open>Intersection and union, read through \<open>map_of\<close>.\<close>

lemma bitmap_and_keys: "h \<in> fst ` set (bitmap_and b e) \<Longrightarrow> h \<in> fst ` set b \<and> h \<in> fst ` set e"
  by (induction b e rule: bitmap_and.induct) (auto simp: newBitmap_def split: if_splits)

lemma b_ok_above: "b_ok ((k, c) # b) \<Longrightarrow> h \<le> k \<Longrightarrow> map_of b h = None"
  by (rule map_of_below) (auto simp: b_ok_Cons intro: le_less_trans)

lemma b_ok_ConsI: "c_ok c \<Longrightarrow> b_ok b \<Longrightarrow> (\<And>h. h \<in> fst ` set b \<Longrightarrow> k < h) \<Longrightarrow> b_ok ((k, c) # b)"
  by (simp add: b_ok_Cons)

lemma b_ok_ConsD: "b_ok ((k, c) # b) \<Longrightarrow> c_ok c \<and> b_ok b \<and> (\<forall>h \<in> fst ` set b. k < h)"
  by (simp add: b_ok_Cons)

text \<open>The set of low ids that a bitmap holds under a key.\<close>

definition under :: "bitmap \<Rightarrow> 16 word \<Rightarrow> 16 word set" where
  "under b h = (case map_of b h of Some c \<Rightarrow> cset c | None \<Rightarrow> {})"

lemma under_simps: "under [] h = {}" "under ((k, c) # b) h = (if h = k then cset c else under b h)"
  by (simp_all add: under_def)

lemma under_above: "b_ok ((k, c) # b) \<Longrightarrow> h \<le> k \<Longrightarrow> under b h = {}"
  by (simp add: under_def b_ok_above)

lemma bitmap_and_ok:
  "b_ok b \<Longrightarrow> b_ok e \<Longrightarrow> b_ok (bitmap_and b e) \<and> (\<forall>h. under (bitmap_and b e) h = under b h \<inter> under e h)"
proof (induction b e rule: bitmap_and.induct)
  case (1 k c b l d e)
  note b = b_ok_ConsD [OF "1.prems"(1)] and e = b_ok_ConsD [OF "1.prems"(2)]
  consider "k < l" | "l < k" | "k = l" by (metis linorder_neqE)
  then show ?case
  proof cases
    case 1
    with under_above [OF "1.prems"(2), of k] "1.IH"(1) "1.prems"(2) b show ?thesis by (auto simp: under_simps)
  next
    case 2
    with under_above [OF "1.prems"(1), of l] "1.IH"(2) "1.prems"(1) e show ?thesis by (auto simp: under_simps)
  next
    case 3
    obtain x ok where x: "container_and c d = (x, ok)" by (cases "container_and c d")
    from b e container_and_ok [OF _ _ x] have xok: "c_ok x" "cset x = cset c \<inter> cset d" "ok \<longleftrightarrow> cset x \<noteq> {}" by auto
    have ih: "b_ok (bitmap_and b e)" "under (bitmap_and b e) h = under b h \<inter> under e h" for h
      using "1.IH"(3,4) 3 x b e by (cases ok; simp)+
    show ?thesis
    proof (cases ok)
      case True
      then have eq: "bitmap_and ((k, c) # b) ((l, d) # e) = (k, x) # bitmap_and b e" using 3 x by simp
      have "b_ok ((k, x) # bitmap_and b e)"
        using xok(1) ih(1) by (rule b_ok_ConsI) (use bitmap_and_keys b in blast)
      with eq ih(2) xok(2) 3 show ?thesis by (simp add: under_simps)
    next
      case False
      then have "bitmap_and ((k, c) # b) ((l, d) # e) = bitmap_and b e" using 3 x by simp
      with ih xok 3 False under_above [OF "1.prems"(1), of k] show ?thesis by (auto simp: under_simps)
    qed
  qed
qed (auto simp: newBitmap_def under_simps)

lemma bitmap_or_keys: "h \<in> fst ` set (bitmap_or b e) \<Longrightarrow> h \<in> fst ` set b \<or> h \<in> fst ` set e"
  by (induction b e rule: bitmap_or.induct) (auto simp: newBitmap_def split: if_splits)

lemma bitmap_or_ok:
  "b_ok b \<Longrightarrow> b_ok e \<Longrightarrow> b_ok (bitmap_or b e) \<and> (\<forall>h. under (bitmap_or b e) h = under b h \<union> under e h)"
proof (induction b e rule: bitmap_or.induct)
  case (1 k c b l d e)
  note b = b_ok_ConsD [OF "1.prems"(1)] and e = b_ok_ConsD [OF "1.prems"(2)]
  consider "k < l" | "l < k" | "k = l" by (metis linorder_neqE)
  then show ?case
  proof cases
    case 1
    have ih: "b_ok (bitmap_or b ((l, d) # e))" "under (bitmap_or b ((l, d) # e)) h = under b h \<union> under ((l, d) # e) h" for h
      using "1.IH"(1) [OF 1] b "1.prems"(2) by auto
    have "k < h" if "h \<in> fst ` set (bitmap_or b ((l, d) # e))" for h
      using bitmap_or_keys [OF that] b e 1 by (auto intro: less_trans)
    with b ih(1) have "b_ok ((k, c) # bitmap_or b ((l, d) # e))" by (intro b_ok_ConsI) auto
    with 1 ih(2) b under_above [OF "1.prems"(2), of k] show ?thesis by (auto simp: under_simps clone_eq)
  next
    case 2
    have ih: "b_ok (bitmap_or ((k, c) # b) e)" "under (bitmap_or ((k, c) # b) e) h = under ((k, c) # b) h \<union> under e h" for h
      using "1.IH"(2) 2 e "1.prems"(1) by auto
    have "l < h" if "h \<in> fst ` set (bitmap_or ((k, c) # b) e)" for h
      using bitmap_or_keys [OF that] b e 2 by (auto intro: less_trans)
    with e ih(1) have "b_ok ((l, d) # bitmap_or ((k, c) # b) e)" by (intro b_ok_ConsI) auto
    with 2 ih(2) e under_above [OF "1.prems"(1), of l] show ?thesis by (auto simp: under_simps clone_eq)
  next
    case 3
    have ih: "b_ok (bitmap_or b e)" "under (bitmap_or b e) h = under b h \<union> under e h" for h
      using "1.IH"(3) 3 b e by auto
    have "k < h" if "h \<in> fst ` set (bitmap_or b e)" for h
      using bitmap_or_keys [OF that] b e 3 by auto
    with b e ih(1) container_or_ok [of c d] have "b_ok ((k, container_or c d) # bitmap_or b e)"
      by (intro b_ok_ConsI) auto
    with 3 ih(2) b e container_or_ok [of c d] show ?thesis by (simp add: under_simps)
  qed
next
  case (2 k c b)
  note b = b_ok_ConsD [OF "2.prems"(1)]
  from b "2.IH" have ih: "b_ok (bitmap_or b [])" "under (bitmap_or b []) h = under b h" for h by (auto simp: under_simps)
  have "k < h" if "h \<in> fst ` set (bitmap_or b [])" for h using bitmap_or_keys [OF that] b by auto
  with b ih(1) have "b_ok ((k, c) # bitmap_or b [])" by (intro b_ok_ConsI) auto
  with b ih(2) show ?case by (simp add: under_simps clone_eq)
next
  case (3 l d e)
  note e = b_ok_ConsD [OF "3.prems"(2)]
  from e "3.IH" have ih: "b_ok (bitmap_or [] e)" "under (bitmap_or [] e) h = under e h" for h by (auto simp: under_simps)
  have "l < h" if "h \<in> fst ` set (bitmap_or [] e)" for h using bitmap_or_keys [OF that] e by auto
  with e ih(1) have "b_ok ((l, d) # bitmap_or [] e)" by (intro b_ok_ConsI) auto
  with e ih(2) show ?case by (simp add: under_simps clone_eq)
qed (simp add: newBitmap_def under_simps)

lemma bset_alt: "k \<in> bset b \<longleftrightarrow> lo_of k \<in> under b (hi_of k)"
  by (auto simp: bset_def under_def split: option.splits)

lemma bset_and: "b_ok b \<Longrightarrow> b_ok e \<Longrightarrow> bset (bitmap_and b e) = bset b \<inter> bset e"
  using bitmap_and_ok [of b e] by (auto simp: bset_alt set_eq_iff)

lemma bset_or: "b_ok b \<Longrightarrow> b_ok e \<Longrightarrow> bset (bitmap_or b e) = bset b \<union> bset e"
  using bitmap_or_ok [of b e] by (auto simp: bset_alt set_eq_iff)

text \<open>The ids in order.\<close>

lemma toSorted_Cons:
  "b_ok ((h, c) # b) \<Longrightarrow> toSorted ((h, c) # b) = map (join h) (lows c) @ toSorted b"
  by (simp add: toSorted_def bitmap_each_def container_each_eq b_ok_Cons)

lemma bset_Cons:
  "b_ok ((h, c) # b) \<Longrightarrow> bset ((h, c) # b) = join h ` cset c \<union> bset b"
proof (intro set_eqI)
  fix k
  assume ok: "b_ok ((h, c) # b)"
  have "k \<in> join h ` cset c \<longleftrightarrow> hi_of k = h \<and> lo_of k \<in> cset c"
    by (metis hi_of_join imageE image_eqI join_halves lo_of_join)
  with under_above [OF ok, of "hi_of k"] show "k \<in> bset ((h, c) # b) \<longleftrightarrow> k \<in> join h ` cset c \<union> bset b"
    by (auto simp: bset_alt under_simps)
qed

lemma toSorted_ok:
  "b_ok b \<Longrightarrow> sorted_wrt (<) (toSorted b) \<and> set (toSorted b) = bset b \<and> length (toSorted b) = bitmap_len b"
proof (induction b)
  case (Cons e b)
  obtain h c where e: "e = (h, c)" by (cases e)
  with Cons.prems have ok: "b_ok ((h, c) # b)" "c_ok c" "b_ok b" by (auto simp: b_ok_Cons)
  note ih = Cons.IH [OF ok(3)] and l = lows_ok [OF ok(2)]
  have "h < hi_of k" if "k \<in> bset b" for k
    using that under_above [OF ok(1), of "hi_of k"] by (auto simp: bset_alt not_le [symmetric])
  then have "join h lo < k" if "k \<in> bset b" for k lo
    using join_less [of h "hi_of k" lo "lo_of k"] that by simp
  with ih have cross: "\<forall>x \<in> set (map (join h) (lows c)). \<forall>y \<in> set (toSorted b). x < y" by auto
  have "sorted_wrt (<) (map (join h) (lows c))"
    using l by (auto simp: sorted_wrt_map intro: sorted_wrt_mono_rel [of _ "(<)"] join_less)
  with ih cross l ok(2) show ?case
    unfolding e toSorted_Cons [OF ok(1)] bset_Cons [OF ok(1)]
    by (auto simp: sorted_wrt_append bitmap_len_def c_ok_def)
qed (auto simp: toSorted_def bitmap_each_def bset_def bitmap_len_def)

section \<open>The interface\<close>

text \<open>What the attribute index and the planner rely on: the operations compute on the sets.\<close>

locale id_set =
  fixes abs :: "'s \<Rightarrow> 'i set" and ok :: "'s \<Rightarrow> bool" and none :: 's
    and add :: "'i \<Rightarrow> 's \<Rightarrow> 's" and inter :: "'s \<Rightarrow> 's \<Rightarrow> 's" and union :: "'s \<Rightarrow> 's \<Rightarrow> 's"
    and elems :: "'s \<Rightarrow> 'i list"
  assumes none: "ok none" "abs none = {}"
    and add: "ok s \<Longrightarrow> ok (add i s)" "ok s \<Longrightarrow> abs (add i s) = insert i (abs s)"
    and inter: "ok s \<Longrightarrow> ok t \<Longrightarrow> ok (inter s t)" "ok s \<Longrightarrow> ok t \<Longrightarrow> abs (inter s t) = abs s \<inter> abs t"
    and union: "ok s \<Longrightarrow> ok t \<Longrightarrow> ok (union s t)" "ok s \<Longrightarrow> ok t \<Longrightarrow> abs (union s t) = abs s \<union> abs t"
    and elems: "ok s \<Longrightarrow> set (elems s) = abs s"
begin

lemma fold_add: "ok s \<Longrightarrow> ok (fold add is s) \<and> abs (fold add is s) = set is \<union> abs s"
  by (induction "is" arbitrary: s) (auto simp: add)

lemma of_list: "ok (fold add is none)" "abs (fold add is none) = set is"
  using fold_add [OF none(1)] none(2) by auto

lemma round_trip: "ok s \<Longrightarrow> abs (fold add (elems s) none) = abs s"
  by (simp add: of_list elems)

lemma fold_union: "ok s \<Longrightarrow> (\<And>t. t \<in> set ts \<Longrightarrow> ok t) \<Longrightarrow>
    ok (fold (\<lambda>t s. union s t) ts s) \<and> abs (fold (\<lambda>t s. union s t) ts s) = abs s \<union> (\<Union>t \<in> set ts. abs t)"
  by (induction ts arbitrary: s) (auto simp: union)

end

interpretation ids: id_set bset b_ok newBitmap bitmap_add bitmap_and bitmap_or toSorted
  by unfold_locales
    (use bitmap_and_ok bitmap_or_ok in \<open>auto simp: newBitmap_def bset_def [of "[]"] bitmap_add_ok bset_and bset_or toSorted_ok\<close>)

text \<open>
  C27. The bitmap is a set: on well-formed bitmaps every operation keeps the representation (keys and
  arrays strictly sorted, the cached counts exact, no array above the threshold) and computes
  membership, insertion, intersection, union, cardinality and the sorted list of the ids of the set.
\<close>

theorem bitmap_is_a_set:
  assumes "b_ok b" "b_ok e"
  shows "bitmap_contains b k = (k \<in> bset b) \<and>
    b_ok (bitmap_add k b) \<and> bset (bitmap_add k b) = insert k (bset b) \<and>
    b_ok (bitmap_and b e) \<and> bset (bitmap_and b e) = bset b \<inter> bset e \<and>
    b_ok (bitmap_or b e) \<and> bset (bitmap_or b e) = bset b \<union> bset e \<and>
    bitmap_len b = card (bset b) \<and> toSorted b = sorted_list_of_set (bset b)"
proof -
  note s = toSorted_ok [OF assms(1)]
  then have "distinct (toSorted b)" "sorted (toSorted b)" by (auto simp: strict_sorted_iff)
  with s have "toSorted b = sorted_list_of_set (bset b)" "bitmap_len b = card (bset b)"
    by (metis sorted_list_of_set.idem_if_sorted_distinct, metis distinct_card)
  with assms show ?thesis by (simp add: bitmap_contains_iff bitmap_add_ok ids.inter ids.union)
qed

definition demo_ids :: "32 word list" where
  "demo_ids = [70000, 3, 131071, 3]"

lemma from_sorted: "b_ok (bitmapFromSorted xs)" "bset (bitmapFromSorted xs) = set xs"
  using ids.of_list [of xs] by (simp_all add: bitmapFromSorted_def)

theorem bitmap_is_a_set_witness:
  "bset (bitmap_and (bitmapFromSorted demo_ids) (bitmapFromSorted [3, 4])) = {3} \<and>
   bitmap_len (bitmapFromSorted demo_ids) = 3 \<and> bitmap_contains (bitmapFromSorted demo_ids) 131071"
  using bitmap_is_a_set [OF from_sorted(1) [of demo_ids] from_sorted(1) [of "[3, 4]"], of 131071]
  by (simp add: from_sorted demo_ids_def card_insert_if)

text \<open>
  The stored form of a bitmap, its sorted id list, loses nothing: decoding a list gives the set of
  its ids whatever its order and repetitions, encoding that gives the list sorted without repetitions,
  and so decoding what was encoded gives the same set.
\<close>

theorem bitmap_round_trip:
  "toSorted (bitmapFromSorted xs) = sorted_list_of_set (set xs) \<and>
   bset (bitmapFromSorted (toSorted (bitmapFromSorted xs))) = bset (bitmapFromSorted xs)"
proof -
  note s = toSorted_ok [OF from_sorted(1) [of xs]]
  then have "distinct (toSorted (bitmapFromSorted xs))" "sorted (toSorted (bitmapFromSorted xs))"
    by (auto simp: strict_sorted_iff)
  with s show ?thesis
    by (metis from_sorted(2) sorted_list_of_set.idem_if_sorted_distinct)
qed

end
