(* ===== verification/BM25.thy ===== *)
theory BM25
  imports Types
begin

text \<open>
  Full-text indexing and scoring (\<open>bm25.go\<close>).  The tables of the package \<open>unicode\<close> and the function
  \<open>math.Log\<close>, whose last bit depends on the platform, are parameters.  Everything else is written out:
  UTF-8, the analyzer, the inverted index, and the scores with the rounding of every operation.
\<close>

section \<open>The analyzer\<close>

record unicode =
  uLower :: "nat \<Rightarrow> nat"
  uLetter :: "nat \<Rightarrow> bool"
  uDigit :: "nat \<Rightarrow> bool"

abbreviation byte :: "char \<Rightarrow> nat" where
  "byte c \<equiv> of_char c"

text \<open>Runes of valid UTF-8, and back.\<close>

fun decode_runes :: "string \<Rightarrow> nat list" where
  "decode_runes [] = []"
| "decode_runes (a # s) =
     (if byte a < 128 then byte a # decode_runes s
      else if byte a < 224 then (case s of
          b # s \<Rightarrow> ((byte a - 192) * 64 + (byte b - 128)) # decode_runes s
        | _ \<Rightarrow> [])
      else if byte a < 240 then (case s of
          b # c # s \<Rightarrow> ((byte a - 224) * 4096 + (byte b - 128) * 64 + (byte c - 128)) # decode_runes s
        | _ \<Rightarrow> [])
      else (case s of
          b # c # d # s \<Rightarrow> ((byte a - 240) * 262144 + (byte b - 128) * 4096 + (byte c - 128) * 64 +
              (byte d - 128)) # decode_runes s
        | _ \<Rightarrow> []))"

definition encode_rune :: "nat \<Rightarrow> string" where
  "encode_rune r =
     (if r < 128 then [char_of r]
      else if r < 2048 then [char_of (192 + r div 64), char_of (128 + r mod 64)]
      else if r < 65536 then [char_of (224 + r div 4096), char_of (128 + r div 64 mod 64), char_of (128 + r mod 64)]
      else [char_of (240 + r div 262144), char_of (128 + r div 4096 mod 64), char_of (128 + r div 64 mod 64),
            char_of (128 + r mod 64)])"

definition encode_runes :: "nat list \<Rightarrow> string" where
  "encode_runes rs = concat (map encode_rune rs)"

definition ToLower :: "unicode \<Rightarrow> string \<Rightarrow> string" where
  "ToLower uc s = encode_runes (map (uLower uc) (decode_runes s))"

text \<open>\<open>strings.FieldsFunc\<close>: the maximal runs of runes that are not separators.\<close>

fun fields :: "(nat \<Rightarrow> bool) \<Rightarrow> nat list \<Rightarrow> nat list \<Rightarrow> nat list list" where
  "fields sep cur [] = (if cur = [] then [] else [cur])"
| "fields sep cur (r # rs) =
     (if sep r then (if cur = [] then fields sep [] rs else cur # fields sep [] rs)
      else fields sep (cur @ [r]) rs)"

definition FieldsFunc :: "string \<Rightarrow> (nat \<Rightarrow> bool) \<Rightarrow> string list" where
  "FieldsFunc s sep = map encode_runes (fields sep [] (decode_runes s))"

definition isAlphanumeric :: "unicode \<Rightarrow> nat \<Rightarrow> bool" where
  "isAlphanumeric uc r \<longleftrightarrow> uLetter uc r \<or> uDigit uc r"

definition Tokenize :: "unicode \<Rightarrow> string \<Rightarrow> string list" where
  "Tokenize uc text = FieldsFunc (ToLower uc text) (\<lambda>r. \<not> isAlphanumeric uc r)"

section \<open>The index\<close>

definition bm25K1 :: rat where "bm25K1 = 12 / 10"
definition bm25B :: rat where "bm25B = 75 / 100"

text \<open>\<open>tf[term]++\<close> over the terms of a document.\<close>

definition count_terms :: "string list \<Rightarrow> (string, nat) gomap" where
  "count_terms terms = fold (\<lambda>t tf. AList.update t (case map_of tf t of None \<Rightarrow> 1 | Some n \<Rightarrow> n + 1) tf) terms []"

definition append_posting :: "string \<Rightarrow> Posting \<Rightarrow> (string, Posting list) gomap \<Rightarrow> (string, Posting list) gomap" where
  "append_posting t p idx = AList.update t ((case map_of idx t of None \<Rightarrow> [] | Some ps \<Rightarrow> ps) @ [p]) idx"

definition index_doc :: "unicode \<Rightarrow> string \<times> string \<Rightarrow> BM25File \<times> nat \<Rightarrow> BM25File \<times> nat" where
  "index_doc uc doc acc = (case (doc, acc) of ((i, text), (idx, totalLen)) \<Rightarrow>
     (let terms = Tokenize uc text in
      (idx\<lparr>bDocLen := AList.update i (length terms) (bDocLen idx),
           bIndex := fold (\<lambda>(t, freq). append_posting t \<lparr>pID = i, pTF = freq\<rparr>) (count_terms terms) (bIndex idx)\<rparr>,
       totalLen + length terms)))"

definition posting_before :: "Posting \<Rightarrow> Posting \<Rightarrow> bool" where
  "posting_before p q \<longleftrightarrow> pID p < pID q"

definition BuildBM25 :: "unicode \<Rightarrow> (string, string) gomap \<Rightarrow> BM25File" where
  "BuildBM25 uc docs =
     (case fold (index_doc uc) docs (\<lparr>bN = length docs, bAvgDL = Fin 0, bDocLen = [], bIndex = []\<rparr>, 0) of
       (idx, totalLen) \<Rightarrow>
         (let idx = (if bN idx > 0
               then idx\<lparr>bAvgDL := f_div (of_int64 (int totalLen)) (of_int64 (int (bN idx)))\<rparr> else idx)
          in idx\<lparr>bIndex := map (\<lambda>(t, ps). (t, sort_by posting_before ps)) (bIndex idx)\<rparr>))"

section \<open>The scores\<close>

definition bm25IDF :: "(flt \<Rightarrow> flt) \<Rightarrow> nat \<Rightarrow> nat \<Rightarrow> flt" where
  "bm25IDF mlog n df = mlog (f_add (Fin 1)
     (f_div (f_add (f_sub (of_int64 (int n)) (of_int64 (int df))) (Fin (1 / 2)))
            (f_add (of_int64 (int df)) (Fin (1 / 2)))))"

definition bm25TermScore :: "flt \<Rightarrow> nat \<Rightarrow> nat \<Rightarrow> flt \<Rightarrow> flt" where
  "bm25TermScore idf tf docLen avgDL =
     (let lenRatio = (if flt_lt (Fin 0) avgDL then f_div (of_int64 (int docLen)) avgDL else Fin 0);
          norm = f_mul (fround F64 bm25K1) (f_add (fround F64 (1 - bm25B)) (f_mul (fround F64 bm25B) lenRatio))
      in f_div (f_mul idf (f_mul (of_int64 (int tf)) (fround F64 (bm25K1 + 1))))
               (f_add (of_int64 (int tf)) norm))"

definition doc_len :: "BM25File \<Rightarrow> string \<Rightarrow> nat" where
  "doc_len idx i = (case map_of (bDocLen idx) i of None \<Rightarrow> 0 | Some n \<Rightarrow> n)"

definition add_score :: "string \<Rightarrow> flt \<Rightarrow> (string, flt) gomap \<Rightarrow> (string, flt) gomap" where
  "add_score i x scores = AList.update i (f_add (case map_of scores i of None \<Rightarrow> Fin 0 | Some s \<Rightarrow> s) x) scores"

definition score_term :: "(flt \<Rightarrow> flt) \<Rightarrow> BM25File \<Rightarrow> string \<Rightarrow> (string, flt) gomap \<Rightarrow> (string, flt) gomap" where
  "score_term mlog idx term scores = (case map_of (bIndex idx) term of
     None \<Rightarrow> scores
   | Some postings \<Rightarrow> (let idf = bm25IDF mlog (bN idx) (length postings) in
       fold (\<lambda>p. add_score (pID p) (bm25TermScore idf (pTF p) (doc_len idx (pID p)) (bAvgDL idx))) postings scores))"

definition Score :: "(flt \<Rightarrow> flt) \<Rightarrow> BM25File \<Rightarrow> string list \<Rightarrow> (string, flt) gomap" where
  "Score mlog idx queryTerms = fold (score_term mlog idx) queryTerms []"

definition score_doc_term :: "(flt \<Rightarrow> flt) \<Rightarrow> BM25File \<Rightarrow> (string, nat) gomap \<Rightarrow> nat \<Rightarrow> string \<Rightarrow> flt \<Rightarrow> flt" where
  "score_doc_term mlog idx tf docLen term score = (case map_of tf term of
     None \<Rightarrow> score
   | Some freq \<Rightarrow> f_add score (bm25TermScore
       (bm25IDF mlog (bN idx) (case map_of (bIndex idx) term of None \<Rightarrow> 0 | Some ps \<Rightarrow> length ps))
       freq docLen (bAvgDL idx)))"

definition ScoreDoc :: "unicode \<Rightarrow> (flt \<Rightarrow> flt) \<Rightarrow> BM25File \<Rightarrow> string \<Rightarrow> string list \<Rightarrow> flt" where
  "ScoreDoc uc mlog idx docText queryTerms =
     (let tokens = Tokenize uc docText in
      fold (score_doc_term mlog idx (count_terms tokens) (length tokens)) queryTerms (Fin 0))"

section \<open>What the index holds\<close>

lemma count_terms_gen:
  "wf_map tf \<Longrightarrow> wf_map (fold (\<lambda>t tf. AList.update t (case map_of tf t of None \<Rightarrow> 1 | Some n \<Rightarrow> n + 1) tf) terms tf) \<and>
   map_of (fold (\<lambda>t tf. AList.update t (case map_of tf t of None \<Rightarrow> 1 | Some n \<Rightarrow> n + (1::nat)) tf) terms tf) t =
     (if t \<in> set terms then Some (count_list terms t + (case map_of tf t of None \<Rightarrow> 0 | Some n \<Rightarrow> n)) else map_of tf t)"
  by (induction terms arbitrary: tf) (auto split: option.splits)

lemma count_terms_spec:
  "wf_map (count_terms terms)"
  "map_of (count_terms terms) t = (if t \<in> set terms then Some (count_list terms t) else None)"
  using count_terms_gen [of "[]" terms t] by (simp_all add: count_terms_def)

text \<open>The postings of a term over the documents, in their order.\<close>

definition postings :: "unicode \<Rightarrow> (string, string) gomap \<Rightarrow> string \<Rightarrow> Posting list" where
  "postings uc docs t = map (\<lambda>(i, text). \<lparr>pID = i, pTF = count_list (Tokenize uc text) t\<rparr>)
     (filter (\<lambda>(i, text). t \<in> set (Tokenize uc text)) docs)"

definition list_or_none :: "'a list \<Rightarrow> 'a list option" where
  "list_or_none xs = (if xs = [] then None else Some xs)"

lemma append_postings:
  "wf_map tf \<Longrightarrow>
   map_of (fold (\<lambda>(t, freq). append_posting t \<lparr>pID = i, pTF = freq\<rparr>) tf idx) t =
     (case map_of tf t of
        None \<Rightarrow> map_of idx t
      | Some n \<Rightarrow> Some ((case map_of idx t of None \<Rightarrow> [] | Some ps \<Rightarrow> ps) @ [\<lparr>pID = i, pTF = n\<rparr>]))"
proof (induction tf arbitrary: idx)
  case (Cons e tf)
  then show ?case by (cases e) (auto simp: wf_map_Cons append_posting_def split: option.splits)
qed simp

lemma index_docs:
  "map_of (bIndex idx) t = list_or_none ps \<Longrightarrow>
   map_of (bIndex (fst (fold (index_doc uc) docs (idx, n)))) t = list_or_none (ps @ postings uc docs t)"
proof (induction docs arbitrary: idx n ps)
  case (Cons d docs)
  obtain i body where d: "d = (i, body)" by (cases d)
  obtain idx' n' where s: "index_doc uc d (idx, n) = (idx', n')" by (cases "index_doc uc d (idx, n)")
  have "map_of (bIndex idx') t = list_or_none (ps @ postings uc [d] t)"
    using s d Cons.prems append_postings [OF count_terms_spec(1)]
    by (auto simp: index_doc_def Let_def count_terms_spec postings_def list_or_none_def)
  from Cons.IH [OF this] s d show ?case by (simp add: postings_def)
qed (simp add: postings_def)

lemma index_docs_rest:
  "bN (fst (fold (index_doc uc) docs (idx, n))) = bN idx \<and>
   map_of (bDocLen (fst (fold (index_doc uc) docs (idx, n)))) i =
     (case map_of (rev docs) i of Some text \<Rightarrow> Some (length (Tokenize uc text)) | None \<Rightarrow> map_of (bDocLen idx) i)"
proof (induction docs arbitrary: idx n)
  case (Cons d docs)
  obtain j body where d: "d = (j, body)" by (cases d)
  obtain idx' n' where s: "index_doc uc d (idx, n) = (idx', n')" by (cases "index_doc uc d (idx, n)")
  then have "bN idx' = bN idx" "bDocLen idx' = AList.update j (length (Tokenize uc body)) (bDocLen idx)"
    by (auto simp: index_doc_def Let_def d)
  with Cons.IH [of idx' n'] s d show ?case by (auto simp: map_of_append map_add_def split: option.splits)
qed simp

lemma map_of_rev: "wf_map m \<Longrightarrow> map_of (rev m) = map_of m"
proof (rule ext)
  fix k
  assume "wf_map m"
  then have "wf_map (rev m)" by (simp add: wf_map_def flip: rev_map)
  with \<open>wf_map m\<close> show "map_of (rev m) k = map_of m k"
    by (metis (no_types) option.exhaust set_rev wf_map_in_set_iff)
qed

lemma find_SomeD: "find P xs = Some x \<Longrightarrow> P x \<and> x \<in> set xs"
  by (induction xs) (auto split: if_splits)

lemma postings_distinct: "wf_map docs \<Longrightarrow> distinct (map pID (postings uc docs t))"
  using wf_map_filter [of docs "\<lambda>(i, text). t \<in> set (Tokenize uc text)"]
  by (simp add: wf_map_def postings_def comp_def case_prod_beta)

lemma postings_mem:
  assumes "wf_map docs"
  shows "p \<in> set (postings uc docs t) \<longleftrightarrow> (\<exists>text. map_of docs (pID p) = Some text \<and> t \<in> set (Tokenize uc text) \<and>
      pTF p = count_list (Tokenize uc text) t)"
  by (cases p) (auto simp: postings_def image_iff Bex_def wf_map_in_set_iff [OF assms])

interpretation posting_order: slice_order posting_before "\<lambda>_. True"
  by unfold_locales (auto simp: posting_before_def)

lemma BuildBM25_spec:
  assumes "wf_map docs"
  shows "bN (BuildBM25 uc docs) = length docs"
    "map_of (bDocLen (BuildBM25 uc docs)) i = map_option (\<lambda>text. length (Tokenize uc text)) (map_of docs i)"
    "map_of (bIndex (BuildBM25 uc docs)) t = list_or_none (sort_by posting_before (postings uc docs t))"
proof -
  let ?z = "\<lparr>bN = length docs, bAvgDL = Fin 0, bDocLen = [], bIndex = []\<rparr>"
  obtain idx n where f: "fold (index_doc uc) docs (?z, 0) = (idx, n)" by (cases "fold (index_doc uc) docs (?z, 0)")
  from index_docs_rest [of uc docs ?z 0 i] f map_of_rev [OF assms]
  have 1: "bN idx = length docs" "map_of (bDocLen idx) i = map_option (\<lambda>text. length (Tokenize uc text)) (map_of docs i)"
    by (auto split: option.splits)
  have "map_of (bIndex ?z) t = list_or_none []" by (simp add: list_or_none_def)
  from index_docs [OF this, of uc docs 0] f have 2: "map_of (bIndex idx) t = list_or_none (postings uc docs t)" by simp
  have 3: "sort_by posting_before ps = [] \<longleftrightarrow> ps = []" for ps by (metis length_0_conv length_sort_by)
  from f 1 show "bN (BuildBM25 uc docs) = length docs"
    "map_of (bDocLen (BuildBM25 uc docs)) i = map_option (\<lambda>text. length (Tokenize uc text)) (map_of docs i)"
    by (simp_all add: BuildBM25_def Let_def)
  from f 2 show "map_of (bIndex (BuildBM25 uc docs)) t = list_or_none (sort_by posting_before (postings uc docs t))"
    by (simp add: BuildBM25_def Let_def map_of_map list_or_none_def 3)
qed

text \<open>
  What the inverted index holds: for every term exactly one posting for each document that contains
  it, with the number of its occurrences, strictly sorted by document id; no entry for a term that
  occurs nowhere; for every document its length in terms; and the number of documents.
\<close>

theorem BuildBM25_inverted_index:
  assumes "wf_map docs"
  shows "bN (BuildBM25 uc docs) = length docs \<and>
    (\<forall>i. map_of (bDocLen (BuildBM25 uc docs)) i = map_option (\<lambda>text. length (Tokenize uc text)) (map_of docs i)) \<and>
    (\<forall>t. case map_of (bIndex (BuildBM25 uc docs)) t of
       None \<Rightarrow> (\<forall>i text. map_of docs i = Some text \<longrightarrow> t \<notin> set (Tokenize uc text))
     | Some ps \<Rightarrow> sorted_wrt posting_before ps \<and> (\<forall>p. p \<in> set ps \<longleftrightarrow>
         (\<exists>text. map_of docs (pID p) = Some text \<and> t \<in> set (Tokenize uc text) \<and>
            pTF p = count_list (Tokenize uc text) t)))"
proof (intro conjI allI)
  fix t
  let ?ps = "sort_by posting_before (postings uc docs t)"
  have mem: "p \<in> set ?ps \<longleftrightarrow> (\<exists>text. map_of docs (pID p) = Some text \<and> t \<in> set (Tokenize uc text) \<and>
      pTF p = count_list (Tokenize uc text) t)" for p by (simp add: postings_mem [OF assms])
  have "sorted_wrt (\<lambda>a b. \<not> posting_before b a) ?ps" using posting_order.sorted_sort_by by (simp add: list_all_iff)
  then have "sorted (map pID ?ps)" by (simp add: sorted_wrt_map posting_before_def not_less)
  moreover have "distinct (map pID ?ps)" using postings_distinct [OF assms] by simp
  ultimately have "sorted_wrt (<) (map pID ?ps)" by (simp add: strict_sorted_iff del: distinct_map_sort_by)
  then have sorted: "sorted_wrt posting_before ?ps" by (simp add: sorted_wrt_map posting_before_def [abs_def])
  show "case map_of (bIndex (BuildBM25 uc docs)) t of
       None \<Rightarrow> (\<forall>i text. map_of docs i = Some text \<longrightarrow> t \<notin> set (Tokenize uc text))
     | Some ps \<Rightarrow> sorted_wrt posting_before ps \<and> (\<forall>p. p \<in> set ps \<longleftrightarrow>
         (\<exists>text. map_of docs (pID p) = Some text \<and> t \<in> set (Tokenize uc text) \<and>
            pTF p = count_list (Tokenize uc text) t))"
  proof (cases "?ps = []")
    case True
    have "t \<notin> set (Tokenize uc body)" if "map_of docs i = Some body" for i body
      using mem [of "\<lparr>pID = i, pTF = count_list (Tokenize uc body) t\<rparr>"] True that by auto
    with True show ?thesis by (simp add: BuildBM25_spec [OF assms] list_or_none_def)
  next
    case False
    with mem sorted show ?thesis by (simp add: BuildBM25_spec(3) [OF assms] list_or_none_def)
  qed
qed (simp_all add: BuildBM25_spec [OF assms])

section \<open>A document scores the same inside and outside the index\<close>

lemma fold_add_score:
  "distinct (map pID ps) \<Longrightarrow> map_of (fold (\<lambda>p. add_score (pID p) (g p)) ps sc) i =
     (case find (\<lambda>p. pID p = i) ps of
        None \<Rightarrow> map_of sc i
      | Some p \<Rightarrow> Some (f_add (case map_of sc i of None \<Rightarrow> Fin 0 | Some s \<Rightarrow> s) (g p)))"
proof (induction ps arbitrary: sc)
  case (Cons p ps)
  show ?case
  proof (cases "pID p = i")
    case True
    have "pID x \<noteq> i" if "x \<in> set ps" for x using Cons.prems True imageI [OF that, of pID] by auto
    then have "find (\<lambda>p. pID p = i) ps = None" by (simp add: find_None_iff)
    with Cons True show ?thesis by (simp add: add_score_def)
  next
    case False
    with Cons show ?thesis by (simp add: add_score_def split: option.split)
  qed
qed simp

lemma find_posting:
  assumes "wf_map docs"
  shows "distinct (map pID (sort_by posting_before (postings uc docs t)))"
    "find (\<lambda>p. pID p = i) (sort_by posting_before (postings uc docs t)) =
       (case map_of docs i of
          None \<Rightarrow> None
        | Some text \<Rightarrow> if t \<in> set (Tokenize uc text) then Some \<lparr>pID = i, pTF = count_list (Tokenize uc text) t\<rparr> else None)"
proof -
  let ?ps = "sort_by posting_before (postings uc docs t)"
  show d: "distinct (map pID ?ps)" using postings_distinct [OF assms] by simp
  have mem: "p \<in> set ?ps \<longleftrightarrow> (\<exists>text. map_of docs (pID p) = Some text \<and> t \<in> set (Tokenize uc text) \<and>
      pTF p = count_list (Tokenize uc text) t)" for p by (simp add: postings_mem [OF assms])
  show "find (\<lambda>p. pID p = i) ?ps = (case map_of docs i of
          None \<Rightarrow> None
        | Some text \<Rightarrow> if t \<in> set (Tokenize uc text) then Some \<lparr>pID = i, pTF = count_list (Tokenize uc text) t\<rparr> else None)"
  proof (cases "find (\<lambda>p. pID p = i) ?ps")
    case None
    then have none: "p \<in> set ?ps \<Longrightarrow> pID p \<noteq> i" for p by (auto simp: find_None_iff)
    have "t \<notin> set (Tokenize uc body)" if "map_of docs i = Some body" for body
      using none [of "\<lparr>pID = i, pTF = count_list (Tokenize uc body) t\<rparr>"] mem that by auto
    with None show ?thesis by (auto split: option.splits)
  next
    case (Some p)
    then have "p \<in> set ?ps" "pID p = i" by (auto dest: find_SomeD simp del: set_sort_by)
    with mem Some show ?thesis by (cases p) auto
  qed
qed

text \<open>What a query term contributes to a document that contains it.\<close>

definition contribution :: "unicode \<Rightarrow> (flt \<Rightarrow> flt) \<Rightarrow> BM25File \<Rightarrow> string \<Rightarrow> string \<Rightarrow> flt" where
  "contribution uc mlog idx text t = bm25TermScore
     (bm25IDF mlog (bN idx) (case map_of (bIndex idx) t of None \<Rightarrow> 0 | Some ps \<Rightarrow> length ps))
     (count_list (Tokenize uc text) t) (length (Tokenize uc text)) (bAvgDL idx)"

lemma score_term_at:
  assumes "wf_map docs"
  shows "map_of (score_term mlog (BuildBM25 uc docs) t sc) i =
    (case map_of docs i of
       None \<Rightarrow> map_of sc i
     | Some text \<Rightarrow>
         if t \<in> set (Tokenize uc text)
         then Some (f_add (case map_of sc i of None \<Rightarrow> Fin 0 | Some s \<Rightarrow> s) (contribution uc mlog (BuildBM25 uc docs) text t))
         else map_of sc i)"
proof (cases "sort_by posting_before (postings uc docs t) = []")
  case True
  then have "map_of (bIndex (BuildBM25 uc docs)) t = None" by (simp add: BuildBM25_spec(3) [OF assms] list_or_none_def)
  moreover have "case map_of docs i of None \<Rightarrow> True | Some text \<Rightarrow> t \<notin> set (Tokenize uc text)"
    using find_posting(2) [OF assms, of i uc t] unfolding True by (auto split: option.splits if_splits)
  ultimately show ?thesis by (auto simp: score_term_def split: option.splits)
next
  case False
  then have idx: "map_of (bIndex (BuildBM25 uc docs)) t = Some (sort_by posting_before (postings uc docs t))"
    by (simp add: BuildBM25_spec(3) [OF assms] list_or_none_def)
  have "doc_len (BuildBM25 uc docs) i = length (Tokenize uc body)" if "map_of docs i = Some body" for body
    using that by (simp add: doc_len_def BuildBM25_spec(2) [OF assms])
  then show ?thesis
    by (auto simp: score_term_def idx Let_def fold_add_score [OF find_posting(1) [OF assms]] find_posting(2) [OF assms]
        contribution_def split: option.splits)
qed

lemma score_doc_term_eq:
  "score_doc_term mlog idx (count_terms (Tokenize uc text)) (length (Tokenize uc text)) t s =
     (if t \<in> set (Tokenize uc text) then f_add s (contribution uc mlog idx text t) else s)"
  by (simp add: score_doc_term_def count_terms_spec(2) contribution_def)

text \<open>
  C28. The two scorers agree to the last bit: a document of the index scores through the inverted index
  (\<open>Score\<close>) exactly what \<open>ScoreDoc\<close> computes from its text, which is how the unindexed tail is scored, so
  the two are comparable; it is absent exactly if it contains no query term; and only documents of the
  index are scored.
\<close>

theorem Score_agrees_with_ScoreDoc:
  assumes "wf_map docs"
  shows "case map_of docs i of
      None \<Rightarrow> map_of (Score mlog (BuildBM25 uc docs) q) i = None
    | Some text \<Rightarrow> map_of (Score mlog (BuildBM25 uc docs) q) i =
        (if \<exists>t \<in> set q. t \<in> set (Tokenize uc text) then Some (ScoreDoc uc mlog (BuildBM25 uc docs) text q) else None)"
proof (cases "map_of docs i")
  case None
  have "map_of (fold (score_term mlog (BuildBM25 uc docs)) q sc) i = map_of sc i" for sc
    by (induction q arbitrary: sc) (simp_all add: score_term_at [OF assms] None)
  with None show ?thesis by (simp add: Score_def)
next
  case (Some body)
  let ?idx = "BuildBM25 uc docs" and ?in = "\<lambda>t. t \<in> set (Tokenize uc body)"
  define f where "f = score_doc_term mlog ?idx (count_terms (Tokenize uc body)) (length (Tokenize uc body))"
  have f: "f t s = (if ?in t then f_add s (contribution uc mlog ?idx body t) else s)" for t s
    by (simp add: f_def score_doc_term_eq)
  have none: "\<not> (\<exists>t \<in> set q. ?in t) \<Longrightarrow> fold f q x = x" for q x
    by (induction q arbitrary: x) (simp_all add: f)
  have "map_of (fold (score_term mlog ?idx) q sc) i =
      (if \<exists>t \<in> set q. ?in t then Some (fold f q (case map_of sc i of None \<Rightarrow> Fin 0 | Some s \<Rightarrow> s))
       else map_of sc i)" for sc
  proof (induction q arbitrary: sc)
    case (Cons t q)
    show ?case
      using Cons.IH [of "score_term mlog ?idx t sc"] none [of q]
        f [of t "case map_of sc i of None \<Rightarrow> Fin 0 | Some s \<Rightarrow> s"]
      by (cases "\<exists>t \<in> set q. ?in t") (simp_all add: score_term_at [OF assms] Some)
  qed simp
  with Some show ?thesis by (simp add: Score_def ScoreDoc_def Let_def f_def)
qed

section \<open>Witnesses\<close>

definition ascii :: unicode where
  "ascii = \<lparr>uLower = \<lambda>r. if 65 \<le> r \<and> r \<le> 90 then r + 32 else r,
     uLetter = \<lambda>r. 65 \<le> r \<and> r \<le> 90 \<or> 97 \<le> r \<and> r \<le> 122, uDigit = \<lambda>r. 48 \<le> r \<and> r \<le> 57\<rparr>"

definition demo_texts :: "(string, string) gomap" where
  "demo_texts = [(''d2'', ''A fox, a dog''), (''d1'', ''Quick fox'')]"

lemma demo_texts_wf: "wf_map demo_texts"
  by (simp add: demo_texts_def wf_map_def)

theorem BuildBM25_inverted_index_witness:
  "\<exists>ps. map_of (bIndex (BuildBM25 ascii demo_texts)) ''fox'' = Some ps \<and> sorted_wrt posting_before ps \<and>
    bN (BuildBM25 ascii demo_texts) = 2"
proof -
  have "map_of (bIndex (BuildBM25 ascii demo_texts)) ''fox'' \<noteq> None"
    "bN (BuildBM25 ascii demo_texts) = 2" by code_simp+
  moreover have "sorted_wrt posting_before ps" if "map_of (bIndex (BuildBM25 ascii demo_texts)) ''fox'' = Some ps" for ps
    using BuildBM25_inverted_index [OF demo_texts_wf, of ascii] that by (auto split: option.splits dest: spec [of _ "''fox''"])
  ultimately show ?thesis by blast
qed

theorem Score_agrees_with_ScoreDoc_witness:
  "map_of (Score (\<lambda>x. x) (BuildBM25 ascii demo_texts) [''fox'']) ''d1'' =
     Some (ScoreDoc ascii (\<lambda>x. x) (BuildBM25 ascii demo_texts) ''Quick fox'' [''fox''])"
proof -
  have "map_of demo_texts ''d1'' = Some ''Quick fox''" "''fox'' \<in> set (Tokenize ascii ''Quick fox'')" by code_simp+
  with Score_agrees_with_ScoreDoc [OF demo_texts_wf, where i = "''d1''" and mlog = "\<lambda>x. x" and uc = ascii and q = "[''fox'']"] show ?thesis by simp
qed

end
