(* ===== verification/Vector.thy ===== *)
theory Vector
  imports GoRand GoBits
begin

text \<open>
  Distances, k-means and the sign-bit codes of \<open>vector.go\<close>.  A \<open>float32\<close> is the \<open>flt\<close> value it
  stands for, so the conversion to \<open>float64\<close> is the identity and the conversion back rounds; every
  operation rounds where the code's does, in the code's order.  Two vectors are walked in step, which
  is what indexing does for the equal lengths that the code demands.
\<close>

type_synonym vec = "flt list"

section \<open>Distances\<close>

definition MetricCosine :: string where "MetricCosine = ''cosine''"

definition cosine_sums :: "vec \<Rightarrow> vec \<Rightarrow> flt \<times> flt \<times> flt" where
  "cosine_sums a b = fold (\<lambda>(x, y) (dot, na, nb).
     (f_add dot (f_mul x y), f_add na (f_mul x x), f_add nb (f_mul y y))) (zip a b) (Fin 0, Fin 0, Fin 0)"

definition CosineDistance :: "vec \<Rightarrow> vec \<Rightarrow> flt" where
  "CosineDistance a b = (case cosine_sums a b of (dot, na, nb) \<Rightarrow>
     if flt_eq na (Fin 0) \<or> flt_eq nb (Fin 0) then Fin 1
     else (let sim = f_div dot (f_mul (f_sqrt na) (f_sqrt nb));
               sim = (if flt_lt (Fin 1) sim then Fin 1 else if flt_lt sim (Fin (- 1)) then Fin (- 1) else sim)
           in f_sub (Fin 1) sim))"

definition square_sum :: "vec \<Rightarrow> vec \<Rightarrow> flt" where
  "square_sum a b = fold (\<lambda>(x, y) s. let d = f_sub x y in f_add s (f_mul d d)) (zip a b) (Fin 0)"

definition EuclideanDistance :: "vec \<Rightarrow> vec \<Rightarrow> flt" where
  "EuclideanDistance a b = f_sqrt (square_sum a b)"

definition Distance :: "string \<Rightarrow> vec \<Rightarrow> vec \<Rightarrow> flt" where
  "Distance metric a b = (if metric = MetricCosine then CosineDistance a b else EuclideanDistance a b)"

definition Normalize :: "vec \<Rightarrow> vec" where
  "Normalize v = (let n = fold (\<lambda>x n. f_add n (f_mul x x)) v (Fin 0) in
     if flt_eq n (Fin 0) then v
     else (let inv = f_div (Fin 1) (f_sqrt n) in map (\<lambda>x. to_fmt F32 (f_mul x inv)) v))"

section \<open>K-means\<close>

definition ChooseK :: "int \<Rightarrow> int" where
  "ChooseK n = (if n \<le> 0 then 1
     else (let k = trunc_int (flt_round (f_sqrt (of_int64 n))) in if k < 1 then 1 else k))"

definition nearest_state :: "string \<Rightarrow> vec list \<Rightarrow> vec \<Rightarrow> nat \<times> flt" where
  "nearest_state metric centroids p = fold (\<lambda>(c, centroid) (best, bestDist).
     let d = Distance metric p centroid in if flt_lt d bestDist then (c, d) else (best, bestDist))
     (enumerate 0 centroids) (0, Inf False)"

definition nearest :: "string \<Rightarrow> vec list \<Rightarrow> vec \<Rightarrow> nat" where
  "nearest metric centroids p = fst (nearest_state metric centroids p)"

lemma nearest_state_simps [simp]:
  "nearest_state metric [] p = (0, Inf False)"
  "nearest_state metric (xs @ [x]) p = (case nearest_state metric xs p of (best, bestDist) \<Rightarrow>
     if flt_lt (Distance metric p x) bestDist then (length xs, Distance metric p x) else (best, bestDist))"
  by (simp_all add: nearest_state_def enumerate_append_eq Let_def split: prod.splits)

fun assign_loop :: "string \<Rightarrow> vec list \<Rightarrow> nat \<Rightarrow> vec list \<Rightarrow> nat list \<times> bool \<Rightarrow> nat list \<times> bool" where
  "assign_loop metric centroids i [] acc = acc"
| "assign_loop metric centroids i (p # ps) (assign, changed) =
     (let best = nearest metric centroids p in
      assign_loop metric centroids (Suc i) ps
        (if assign ! i \<noteq> best then (assign[i := best], True) else (assign, changed)))"

definition assignPoints :: "vec list \<Rightarrow> vec list \<Rightarrow> string \<Rightarrow> nat list \<Rightarrow> nat list \<times> bool" where
  "assignPoints points centroids metric assign = assign_loop metric centroids 0 points (assign, False)"

definition zeros :: "nat \<Rightarrow> vec" where
  "zeros dimn = replicate dimn (Fin 0)"

definition add_into :: "vec \<Rightarrow> vec \<Rightarrow> vec" where
  "add_into acc p = map2 f_add acc p"

definition recomputeCentroids :: "vec list \<Rightarrow> nat list \<Rightarrow> vec list \<Rightarrow> nat \<Rightarrow> vec list" where
  "recomputeCentroids points assign centroids dimn =
     (let (accs, counts) = fold (\<lambda>(p, c) (accs, counts).
            (accs[c := add_into (accs ! c) p], counts[c := counts ! c + 1])) (zip points assign)
            (replicate (length centroids) (zeros dimn), replicate (length centroids) 0)
      in map (\<lambda>c. if counts ! c = (0 :: nat) then centroids ! c
           else map (\<lambda>s. to_fmt F32 (f_div s (of_int64 (int (counts ! c))))) (accs ! c)) [0..<length centroids])"

text \<open>\<open>farthest\<close> is the loop over the points in \<open>reseedEmpty\<close>; \<open>None\<close> stands for \<open>far = -1\<close>.\<close>

definition farthest ::
    "vec list \<Rightarrow> nat list \<Rightarrow> vec list \<Rightarrow> string \<Rightarrow> int list \<Rightarrow> nat option" where
  "farthest points assign centroids metric counts =
     fst (fold (\<lambda>(i, p) (far, farDist).
       if counts ! (assign ! i) \<le> 1 then (far, farDist)
       else (let d = Distance metric p (centroids ! (assign ! i)) in
             if flt_lt farDist d then (Some i, d) else (far, farDist)))
       (enumerate 0 points) (None, Fin (- 1)))"

definition reseed_one :: "vec list \<Rightarrow> string \<Rightarrow> nat \<Rightarrow>
    nat list \<times> vec list \<times> int list \<times> rng \<Rightarrow> nat list \<times> vec list \<times> int list \<times> rng" where
  "reseed_one points metric c st = (case st of (assign, centroids, counts, g) \<Rightarrow>
     if counts ! c > 0 then st
     else (let (far, g) = (case farthest points assign centroids metric counts of
               Some i \<Rightarrow> (i, g) | None \<Rightarrow> Intn (length points) g);
               centroids = centroids[c := points ! far];
               counts = counts[assign ! far := counts ! (assign ! far) - 1];
               assign = assign[far := c];
               counts = counts[c := counts ! c + 1]
           in (assign, centroids, counts, g)))"

definition count_assigned :: "nat list \<Rightarrow> nat \<Rightarrow> int list" where
  "count_assigned assign k = fold (\<lambda>c counts. counts[c := counts ! c + 1]) assign (replicate k 0)"

definition reseedEmpty :: "vec list \<Rightarrow> nat list \<Rightarrow> vec list \<Rightarrow> string \<Rightarrow> rng \<Rightarrow> nat list \<times> vec list \<times> rng" where
  "reseedEmpty points assign centroids metric g =
     (case fold (reseed_one points metric) [0..<length centroids]
        (assign, centroids, count_assigned assign (length centroids), g) of
      (assign, centroids, counts, g) \<Rightarrow> (assign, centroids, g))"

fun kmeans_loop :: "nat \<Rightarrow> nat \<Rightarrow> vec list \<Rightarrow> string \<Rightarrow> nat \<Rightarrow> vec list \<times> nat list \<times> rng \<Rightarrow> vec list \<times> nat list \<times> rng" where
  "kmeans_loop 0 iter points metric dimn st = st"
| "kmeans_loop (Suc n) iter points metric dimn (centroids, assign, g) =
     (let (assign, changed) = assignPoints points centroids metric assign;
          centroids = recomputeCentroids points assign centroids dimn;
          (assign, centroids, g) = reseedEmpty points assign centroids metric g
      in if \<not> changed \<and> iter > 0 then (centroids, assign, g)
         else kmeans_loop n (Suc iter) points metric dimn (centroids, assign, g))"

definition kMeans :: "vec list \<Rightarrow> int \<Rightarrow> string \<Rightarrow> int \<Rightarrow> rng \<Rightarrow> vec list \<times> nat list \<times> rng" where
  "kMeans points k metric iters g =
     (let n = length points in
      if n = 0 then ([], [], g)
      else (let k = (if k < 1 then 1 else k);
                k = nat (if k > int n then int n else k);
                iters = (if iters < 1 then 1 else iters)
            in kmeans_loop (nat iters) 0 points metric (length (points ! 0)) (take k points, replicate n 0, g)))"

definition KMeans :: "(int \<Rightarrow> rng) \<Rightarrow> vec list \<Rightarrow> int \<Rightarrow> string \<Rightarrow> int \<Rightarrow> vec list \<times> nat list" where
  "KMeans source points k metric iters =
     (case kMeans points k metric iters (source 1) of (centroids, assign, g) \<Rightarrow> (centroids, assign))"

section \<open>Sign-bit codes\<close>

definition ResidualCode :: "vec \<Rightarrow> vec \<Rightarrow> 64 word list" where
  "ResidualCode v centroid =
     pack_bits (\<lambda>i. flt_le (Fin 0) (fsub F32 (v ! i) (centroid ! i))) (length v)"

definition Hamming :: "64 word list \<Rightarrow> 64 word list \<Rightarrow> nat" where
  "Hamming a b = fold (\<lambda>(x, y) d. d + OnesCount64 (x XOR y)) (zip a b) 0"

definition Agreement :: "64 word list \<Rightarrow> 64 word list \<Rightarrow> int \<Rightarrow> int" where
  "Agreement a b dimn = dimn - int (Hamming a b)"

section \<open>Distance is symmetric\<close>

lemma zip_swap: "zip b a = map prod.swap (zip a b)"
  by (induction a b rule: list_induct2') auto

lemma square_sum_commute: "square_sum a b = square_sum b a"
proof -
  have "fold (\<lambda>(x, y) s. let d = f_sub x y in f_add s (f_mul d d)) xs z =
      fold (\<lambda>(x, y) s. let d = f_sub x y in f_add s (f_mul d d)) (map prod.swap xs) z" for xs z
    by (induction xs arbitrary: z) (auto simp: Let_def fsub_square_commute [of F64])
  then show ?thesis unfolding square_sum_def zip_swap [of b a] .
qed

lemma cosine_sums_swap:
  "cosine_sums b a = (case cosine_sums a b of (dot, na, nb) \<Rightarrow> (dot, nb, na))"
proof -
  have "fold (\<lambda>(x, y) (dot, na, nb). (f_add dot (f_mul x y), f_add na (f_mul x x), f_add nb (f_mul y y)))
      (map prod.swap xs) (z, u, v) =
    (case fold (\<lambda>(x, y) (dot, na, nb). (f_add dot (f_mul x y), f_add na (f_mul x x), f_add nb (f_mul y y))) xs (z, v, u)
      of (dot, na, nb) \<Rightarrow> (dot, nb, na))" for xs z u v
    by (induction xs arbitrary: z u v) (auto simp: fmul_commute)
  then show ?thesis unfolding cosine_sums_def zip_swap [of b a] .
qed

text \<open>
  Distance is symmetric to the last bit, for both metrics and all inputs, NaN and infinities
  included, although every operation rounds.
\<close>

theorem Distance_symmetric: "Distance metric a b = Distance metric b a"
proof -
  obtain x y z where s: "cosine_sums a b = (x, y, z)" by (cases "cosine_sums a b")
  then have "cosine_sums b a = (x, z, y)" by (simp add: cosine_sums_swap [of b a])
  with s have "CosineDistance a b = CosineDistance b a"
    by (simp add: CosineDistance_def fmul_commute [of F64 "f_sqrt y"] disj_commute)
  moreover have "EuclideanDistance a b = EuclideanDistance b a"
    by (simp add: EuclideanDistance_def square_sum_commute)
  ultimately show ?thesis by (simp add: Distance_def)
qed

section \<open>The nearest centroid\<close>

lemma nearest_loop:
  assumes "\<And>c. c < length xs \<Longrightarrow> Distance metric p (xs ! c) \<noteq> NaN" "nearest_state metric xs p = (best, bestDist)"
  shows "(\<forall>c < length xs. \<not> flt_lt (Distance metric p (xs ! c)) bestDist) \<and>
     (bestDist = Inf False \<and> best = 0 \<or>
      best < length xs \<and> bestDist = Distance metric p (xs ! best) \<and>
      (\<forall>c < best. flt_lt bestDist (Distance metric p (xs ! c))))"
  using assms
proof (induction xs arbitrary: best bestDist rule: rev_induct)
  case (snoc x xs)
  obtain b bd where r: "nearest_state metric xs p = (b, bd)" by fastforce
  have nan: "Distance metric p (xs ! c) \<noteq> NaN" if "c < length xs" for c
    using snoc.prems(1) [of c] that by (simp add: nth_append)
  from snoc.IH nan r have ih: "\<forall>c < length xs. \<not> flt_lt (Distance metric p (xs ! c)) bd"
    "bd = Inf False \<and> b = 0 \<or> b < length xs \<and> bd = Distance metric p (xs ! b) \<and>
      (\<forall>c < b. flt_lt bd (Distance metric p (xs ! c)))" by blast+
  let ?d = "Distance metric p x"
  show ?case
  proof (cases "flt_lt ?d bd")
    case True
    have "flt_lt ?d (Distance metric p (xs ! c))" if "c < length xs" for c
      using flt_lt_cotrans [OF nan [OF that] True] ih(1) that by blast
    moreover from this have "\<not> flt_lt (Distance metric p (xs ! c)) ?d" if "c < length xs" for c
      using that flt_lt_asym by blast
    ultimately show ?thesis using True r snoc.prems(2)
      by (simp add: nth_append less_Suc_eq)
  next
    case False
    with ih r snoc.prems(2) show ?thesis by (auto simp: nth_append less_Suc_eq)
  qed
qed simp

lemma nearest_less:
  assumes "centroids \<noteq> []"
  shows "nearest metric centroids p < length centroids"
proof -
  have "fst (nearest_state metric xs p) < max 1 (length xs)" for xs
  proof (induction xs rule: rev_induct)
    case (snoc x xs)
    then show ?case by (cases "nearest_state metric xs p") auto
  qed simp
  from this [of centroids] assms show ?thesis by (cases centroids) (simp_all add: nearest_def)
qed

lemma assign_loop_spec:
  "i + length ps \<le> length assign \<Longrightarrow>
   fst (assign_loop metric centroids i ps (assign, ch)) =
     take i assign @ map (nearest metric centroids) ps @ drop (i + length ps) assign"
proof (induction ps arbitrary: i assign ch)
  case (Cons p ps)
  let ?b = "nearest metric centroids p"
  have "fst (assign_loop metric centroids (Suc i) ps (assign[i := ?b], ch')) =
      take (Suc i) (assign[i := ?b]) @ map (nearest metric centroids) ps @ drop (Suc i + length ps) assign" for ch'
    using Cons.IH [of "Suc i" "assign[i := ?b]"] Cons.prems by simp
  moreover have "take (Suc i) (assign[i := ?b]) = take i assign @ [?b]"
    using Cons.prems by (simp add: take_Suc_conv_app_nth)
  moreover have "assign ! i = ?b \<Longrightarrow> assign[i := ?b] = assign" by (metis list_update_id)
  ultimately show ?case by (simp add: Let_def) metis
qed simp

lemma assignPoints_eq:
  "length assign = length points \<Longrightarrow> fst (assignPoints points centroids metric assign) = map (nearest metric centroids) points"
  by (simp add: assignPoints_def assign_loop_spec)

text \<open>
  Assignment is to the nearest centroid: every point is assigned the first of the centroids at the
  least distance (the first centroid of all if every distance is infinite), as long as no distance is NaN.
\<close>

theorem assignPoints_nearest:
  assumes "length assign = length points" "centroids \<noteq> []"
    and "\<And>p c. p \<in> set points \<Longrightarrow> c \<in> set centroids \<Longrightarrow> Distance metric p c \<noteq> NaN"
  shows "\<forall>i < length points. \<forall>c < length centroids.
    (let best = fst (assignPoints points centroids metric assign) ! i; p = points ! i in
     best < length centroids \<and> \<not> flt_lt (Distance metric p (centroids ! c)) (Distance metric p (centroids ! best)) \<and>
     (c < best \<longrightarrow> flt_lt (Distance metric p (centroids ! best)) (Distance metric p (centroids ! c))))"
proof (intro allI impI)
  fix i c
  assume i: "i < length points" and c: "c < length centroids"
  let ?p = "points ! i" and ?b = "nearest metric centroids (points ! i)"
  obtain d where r: "nearest_state metric centroids ?p = (?b, d)" by (metis nearest_def prod.collapse)
  have nan: "Distance metric ?p (centroids ! c) \<noteq> NaN" if "c < length centroids" for c
    using i that by (intro assms(3)) simp_all
  note n = nearest_loop [of centroids metric ?p, OF nan r]
  have less: "?b < length centroids" using assms(2) by (rule nearest_less)
  have "d = Distance metric ?p (centroids ! ?b) \<or> d = Inf False \<and> ?b = 0" using n by blast
  moreover have inf: "\<not> flt_lt x (Inf False) \<Longrightarrow> x \<noteq> NaN \<Longrightarrow> x = Inf False" for x by (cases x) auto
  ultimately have "d = Distance metric ?p (centroids ! ?b)" using n nan [OF less] less by metis
  with n c less show "let best = fst (assignPoints points centroids metric assign) ! i; p = points ! i in
     best < length centroids \<and> \<not> flt_lt (Distance metric p (centroids ! c)) (Distance metric p (centroids ! best)) \<and>
     (c < best \<longrightarrow> flt_lt (Distance metric p (centroids ! best)) (Distance metric p (centroids ! c)))"
    using i by (auto simp: assignPoints_eq [OF assms(1)] Let_def)
qed

section \<open>The shape of a clustering\<close>

lemma recomputeCentroids_length [simp]: "length (recomputeCentroids points assign centroids dimn) = length centroids"
  by (simp add: recomputeCentroids_def split: prod.split)

text \<open>\<open>shaped\<close>: as many assignments as points, all in range.\<close>

definition shaped :: "nat \<Rightarrow> nat \<Rightarrow> nat list \<Rightarrow> vec list \<Rightarrow> bool" where
  "shaped n k assign centroids \<longleftrightarrow> length assign = n \<and> length centroids = k \<and> (\<forall>a \<in> set assign. a < k)"

text \<open>\<open>counted\<close>: the counts are the numbers of points per cluster.\<close>

definition counted :: "nat \<Rightarrow> nat list \<Rightarrow> int list \<Rightarrow> bool" where
  "counted k assign counts \<longleftrightarrow> length counts = k \<and> (\<forall>c < k. counts ! c = int (count_list assign c))"

lemma count_list_append: "count_list (xs @ ys) c = count_list xs c + count_list ys c"
  by (induction xs) auto

lemma count_list_update:
  "i < length xs \<Longrightarrow> int (count_list (xs[i := a]) c) =
     int (count_list xs c) - (if xs ! i = c then 1 else 0) + (if a = c then 1 else 0)"
proof (induction xs arbitrary: i)
  case (Cons x xs)
  show ?case using Cons.IH [of "i - 1"] Cons.prems by (cases i) auto
qed simp

lemma count_assigned_counted:
  assumes "\<forall>a \<in> set assign. a < k"
  shows "counted k assign (count_assigned assign k)"
proof -
  have "length counts = k \<Longrightarrow> length (fold (\<lambda>c counts. counts[c := counts ! c + 1]) assign counts) = k \<and>
    (\<forall>c < k. fold (\<lambda>c counts. counts[c := counts ! c + 1]) assign counts ! c = counts ! c + int (count_list assign c))"
    for counts :: "int list"
    using assms by (induction assign arbitrary: counts) (auto simp: nth_list_update)
  from this [of "replicate k 0"] show ?thesis by (simp add: counted_def count_assigned_def)
qed

lemma farthest_range:
  assumes "farthest points assign centroids metric counts = Some i"
  shows "i < length points \<and> 1 < counts ! (assign ! i)"
proof -
  let ?f = "\<lambda>(i, p) (far, farDist). if counts ! (assign ! i) \<le> 1 then (far, farDist)
       else (let d = Distance metric p (centroids ! (assign ! i)) in
             if flt_lt farDist d then (Some i, d) else (far, farDist))"
  have "case fst (fold ?f (enumerate 0 xs) (None, Fin (- 1))) of None \<Rightarrow> True | Some i \<Rightarrow> i < length xs \<and> 1 < counts ! (assign ! i)" for xs
  proof (induction xs rule: rev_induct)
    case (snoc x xs)
    obtain far fd where "fold ?f (enumerate 0 xs) (None, Fin (- 1)) = (far, fd)" by fastforce
    with snoc show ?case by (auto simp: enumerate_append_eq Let_def split: option.splits)
  qed simp
  from this [of points] assms show ?thesis by (simp add: farthest_def)
qed

lemma reseed_one_far:
  assumes "\<not> counts ! c > 0" "length points = n" "0 < n"
    and "reseed_one points metric c (assign, centroids, counts, g) = (assign', centroids', counts', g')"
  shows "\<exists>far < n. assign' = assign[far := c] \<and> centroids' = centroids[c := points ! far] \<and>
    counts' = (counts[assign ! far := counts ! (assign ! far) - 1])
       [c := counts[assign ! far := counts ! (assign ! far) - 1] ! c + 1]"
proof -
  obtain far g1 where far: "(case farthest points assign centroids metric counts of
      Some i \<Rightarrow> (i, g) | None \<Rightarrow> Intn (length points) g) = (far, g1)" by fastforce
  have "far < n"
    using far farthest_range [of points assign centroids metric counts] Intn_range [of "length points" g] assms(2,3)
    by (auto split: option.splits)
  with far assms(1,4) show ?thesis by (auto simp: reseed_one_def Let_def)
qed

lemma reseed_one_shaped:
  assumes "shaped n k assign centroids" "counted k assign counts" "length points = n" "0 < n" "c < k"
    and "reseed_one points metric c (assign, centroids, counts, g) = (assign', centroids', counts', g')"
  shows "shaped n k assign' centroids' \<and> counted k assign' counts'"
proof (cases "counts ! c > 0")
  case True
  with assms show ?thesis by (simp add: reseed_one_def)
next
  case False
  with reseed_one_far [OF _ assms(3,4,6)] obtain far where "far < n" and r: "assign' = assign[far := c]"
    "centroids' = centroids[c := points ! far]"
    "counts' = (counts[assign ! far := counts ! (assign ! far) - 1])
       [c := counts[assign ! far := counts ! (assign ! far) - 1] ! c + 1]"
    by blast
  with assms(1) have f: "far < length assign" "assign ! far < k" by (auto simp: shaped_def)
  have "shaped n k assign' centroids'"
    using assms(1,5) r set_update_subset_insert [of assign far c] by (auto simp: shaped_def)
  moreover have "counted k assign' counts'"
    using assms(2,5) f r by (auto simp: counted_def nth_list_update count_list_update)
  ultimately show ?thesis ..
qed

lemma reseed_fold_shaped:
  assumes "length points = n" "0 < n"
  shows "shaped n k assign centroids \<Longrightarrow> counted k assign counts \<Longrightarrow> \<forall>c \<in> set cs. c < k \<Longrightarrow>
    fold (reseed_one points metric) cs (assign, centroids, counts, g) = (assign', centroids', counts', g') \<Longrightarrow>
    shaped n k assign' centroids' \<and> counted k assign' counts'"
proof (induction cs arbitrary: assign centroids counts g)
  case (Cons c cs)
  obtain a1 ce1 co1 g1 where r: "reseed_one points metric c (assign, centroids, counts, g) = (a1, ce1, co1, g1)"
    by (metis prod_cases4)
  from reseed_one_shaped [OF Cons.prems(1,2) assms _ r] Cons.prems(3)
  have s: "shaped n k a1 ce1" "counted k a1 co1" by auto
  have "fold (reseed_one points metric) cs (a1, ce1, co1, g1) = (assign', centroids', counts', g')"
    using Cons.prems(4) r by simp
  from Cons.IH [OF s _ this] Cons.prems(3) show ?case by simp
qed auto

lemma reseedEmpty_shaped:
  assumes "shaped n k assign centroids" "length points = n" "0 < n"
    and "reseedEmpty points assign centroids metric g = (assign', centroids', g')"
  shows "shaped n k assign' centroids'"
proof -
  obtain counts' where f: "fold (reseed_one points metric) [0..<length centroids]
      (assign, centroids, count_assigned assign (length centroids), g) = (assign', centroids', counts', g')"
    using assms(4) by (auto simp: reseedEmpty_def split: prod.splits)
  have "counted k assign (count_assigned assign (length centroids))"
    using assms(1) count_assigned_counted by (auto simp: shaped_def)
  from reseed_fold_shaped [OF assms(2,3,1) this _ f] assms(1) show ?thesis by (auto simp: shaped_def)
qed

lemma kmeans_loop_reseeded:
  assumes "length points = n" "0 < n" "0 < k"
  shows "length assign = n \<Longrightarrow> length centroids = k \<Longrightarrow> 0 < iters \<Longrightarrow>
    kmeans_loop iters it points metric dimn (centroids, assign, g) = (centroids', assign', g') \<Longrightarrow>
    \<exists>a ce g0. shaped n k a ce \<and> reseedEmpty points a ce metric g0 = (assign', centroids', g')"
proof (induction iters arbitrary: it centroids assign g)
  case (Suc m)
  obtain a1 ch where a: "assignPoints points centroids metric assign = (a1, ch)" by fastforce
  have "a1 = map (nearest metric centroids) points"
    using assignPoints_eq [of assign points centroids metric] a Suc.prems(1) assms(1) by simp
  moreover have "nearest metric centroids p < k" for p
    using nearest_less [of centroids metric p] Suc.prems(2) assms(3) by (cases centroids) auto
  ultimately have s1: "shaped n k a1 (recomputeCentroids points a1 centroids dimn)"
    using Suc.prems(2) assms(1) by (auto simp: shaped_def)
  obtain a2 ce2 g2 where r: "reseedEmpty points a1 (recomputeCentroids points a1 centroids dimn) metric g = (a2, ce2, g2)"
    by (metis prod_cases3)
  from reseedEmpty_shaped [OF s1 assms(1,2) r] have s2: "shaped n k a2 ce2" .
  show ?case
  proof (cases "(\<not> ch \<and> 0 < it) \<or> m = 0")
    case True
    with Suc.prems(4) a r have "assign' = a2" "centroids' = ce2" "g' = g2" by (auto simp: Let_def split: if_splits)
    with s1 r show ?thesis by blast
  next
    case False
    with Suc.prems(4) a r have "kmeans_loop m (Suc it) points metric dimn (ce2, a2, g2) = (centroids', assign', g')"
      by (simp add: Let_def split: if_splits)
    from Suc.IH [OF _ _ _ this] s2 False show ?thesis by (simp add: shaped_def)
  qed
qed simp

lemma kMeans_reseeded:
  assumes "points \<noteq> []" "kMeans points k metric iters g = (centroids, assign, g')"
  shows "\<exists>a ce g0. shaped (length points) (nat (min (max k 1) (int (length points)))) a ce \<and>
    reseedEmpty points a ce metric g0 = (assign, centroids, g')"
proof -
  let ?k = "nat (min (max k 1) (int (length points)))"
  have n: "0 < length points" using assms(1) by simp
  have k: "0 < ?k" "?k \<le> length points" using n by auto
  have eq: "nat (if (if k < 1 then 1 else k) > int (length points) then int (length points) else (if k < 1 then 1 else k)) = ?k"
  proof -
    have "1 \<le> int (length points)" using n by linarith
    then show ?thesis by (auto simp: min_def max_def)
  qed
  from assms(2) n have "kmeans_loop (nat (if iters < 1 then 1 else iters)) 0 points metric (length (points ! 0))
      (take ?k points, replicate (length points) 0, g) = (centroids, assign, g')"
    unfolding kMeans_def Let_def eq by simp
  from kmeans_loop_reseeded [OF refl n k(1) _ _ _ this] k(2) show ?thesis by simp
qed

lemma kMeans_shaped:
  assumes "points \<noteq> []" "kMeans points k metric iters g = (centroids, assign, g')"
  shows "shaped (length points) (nat (min (max k 1) (int (length points)))) assign centroids"
  using kMeans_reseeded [OF assms] reseedEmpty_shaped assms(1) by (metis length_greater_0_conv)

text \<open>
  The shape of a clustering, for any input and any draws: the number of centroids is \<open>k\<close> clamped to
  between one and the number of points, every point is assigned, and to one of these clusters.
\<close>

theorem KMeans_shape:
  assumes "points \<noteq> []" "KMeans source points k metric iters = (centroids, assign)"
  shows "int (length centroids) = min (max k 1) (int (length points)) \<and> length assign = length points \<and>
    (\<forall>a \<in> set assign. a < length centroids)"
proof -
  obtain g' where "kMeans points k metric iters (source 1) = (centroids, assign, g')"
    using assms(2) by (auto simp: KMeans_def split: prod.splits)
  from kMeans_shaped [OF assms(1) this] show ?thesis by (auto simp: shaped_def)
qed

section \<open>No cluster stays empty\<close>

lemma farthest_None:
  assumes "farthest points assign centroids metric counts = None"
    and "\<And>i. i < length points \<Longrightarrow> flt_lt (Fin (- 1)) (Distance metric (points ! i) (centroids ! (assign ! i)))"
  shows "i < length points \<Longrightarrow> counts ! (assign ! i) \<le> 1"
proof -
  let ?f = "\<lambda>(i, p) (far, farDist). if counts ! (assign ! i) \<le> 1 then (far, farDist)
       else (let d = Distance metric p (centroids ! (assign ! i)) in
             if flt_lt farDist d then (Some i, d) else (far, farDist))"
  have "(\<And>i. i < length xs \<Longrightarrow> flt_lt (Fin (- 1)) (Distance metric (xs ! i) (centroids ! (assign ! i)))) \<Longrightarrow>
    fst (fold ?f (enumerate 0 xs) (None, Fin (- 1))) = None \<longrightarrow>
    snd (fold ?f (enumerate 0 xs) (None, Fin (- 1))) = Fin (- 1) \<and> (\<forall>i < length xs. counts ! (assign ! i) \<le> 1)" for xs
  proof (induction xs rule: rev_induct)
    case (snoc x xs)
    obtain far fd where r: "fold ?f (enumerate 0 xs) (None, Fin (- 1)) = (far, fd)" by fastforce
    have "flt_lt (Fin (- 1)) (Distance metric x (centroids ! (assign ! length xs)))"
      using snoc.prems [of "length xs"] by simp
    moreover have "far = None \<longrightarrow> fd = Fin (- 1) \<and> (\<forall>i < length xs. counts ! (assign ! i) \<le> 1)"
    proof -
      have "flt_lt (Fin (- 1)) (Distance metric (xs ! i) (centroids ! (assign ! i)))" if "i < length xs" for i
        using snoc.prems [of i] that by (simp add: nth_append)
      with snoc.IH r show ?thesis by simp
    qed
    ultimately show ?case using r by (auto simp: enumerate_append_eq Let_def less_Suc_eq)
  qed simp
  from this [of points] assms show "i < length points \<Longrightarrow> counts ! (assign ! i) \<le> 1" by (simp add: farthest_def)
qed

lemma sum_count_list: fixes xs :: "nat list" shows "\<forall>a \<in> set xs. a < k \<Longrightarrow> (\<Sum>c < k. count_list xs c) = length xs"
proof (induction xs)
  case (Cons x xs)
  then have "x < k" "(\<Sum>c < k. count_list xs c) = length xs" by auto
  moreover have "(\<Sum>c < k. count_list (x # xs) c) = (\<Sum>c < k. count_list xs c) + (\<Sum>c < k. if x = c then 1 else 0)"
  proof -
    have "count_list (x # xs) c = count_list xs c + (if x = c then 1 else 0)" for c by simp
    then show ?thesis by (simp only: sum.distrib)
  qed
  moreover have "(\<Sum>c < k. if x = c then 1 else 0 :: nat) = 1" by (subst sum.delta') (use \<open>x < k\<close> in auto)
  ultimately show ?case by simp
qed simp

text \<open>If a cluster is empty and there are enough points, some cluster has two.\<close>

lemma spare_cluster:
  assumes "shaped n k assign centroids" "k \<le> n" "c < k" "count_list assign c = 0"
  shows "\<exists>i < n. 1 < count_list assign (assign ! i)"
proof (rule ccontr)
  assume no: "\<not> ?thesis"
  have le: "count_list assign b \<le> (if b = c then 0 else 1)" for b
  proof (cases "b \<in> set assign")
    case True
    then obtain i where "i < n" "assign ! i = b" using assms(1) by (auto simp: shaped_def in_set_conv_nth)
    with no have "\<not> 1 < count_list assign b" by blast
    with assms(4) show ?thesis by auto
  next
    case False
    then show ?thesis by (simp add: count_list_0_iff)
  qed
  have "length assign = n" "\<forall>a \<in> set assign. a < k" using assms(1) by (auto simp: shaped_def)
  then have "n = (\<Sum>b < k. count_list assign b)" using sum_count_list [of assign k] by simp
  also have "\<dots> \<le> (\<Sum>b < k. if b = c then 0 else 1)" by (rule sum_mono) (rule le)
  also have "\<dots> = (\<Sum>b \<in> {..<k} - {c}. 1)" by (rule sum.mono_neutral_cong_right) auto
  also have "\<dots> < k" using assms(3) by simp
  finally show False using assms(2) by simp
qed

lemma reseed_one_fills:
  assumes "shaped n k assign centroids" "counted k assign counts" "length points = n" "k \<le> n" "c < k"
    and "reseed_one points metric c (assign, centroids, counts, g) = (assign', centroids', counts', g')"
    and "\<And>i. i < n \<Longrightarrow> flt_lt (Fin (- 1)) (Distance metric (points ! i) (centroids ! (assign ! i)))"
  shows "0 < counts' ! c \<and> (\<forall>b < k. 0 < counts ! b \<longrightarrow> 0 < counts' ! b) \<and>
    set centroids' \<subseteq> set centroids \<union> set points"
proof (cases "counts ! c > 0")
  case True
  with assms show ?thesis by (auto simp: reseed_one_def)
next
  case False
  with assms(2,5) have "count_list assign c = 0" by (auto simp: counted_def)
  from spare_cluster [OF assms(1,4,5) this] obtain i where i: "i < n" "1 < count_list assign (assign ! i)" by blast
  with assms(1) have "assign ! i < k" by (auto simp: shaped_def)
  with i assms(2) have "1 < counts ! (assign ! i)" by (auto simp: counted_def)
  with farthest_None [of points assign centroids metric counts i] assms(3,7) i(1) obtain far
    where far: "farthest points assign centroids metric counts = Some far"
    by (cases "farthest points assign centroids metric counts") fastforce+
  from farthest_range [OF far] assms(1,3) have f: "far < length assign" "1 < counts ! (assign ! far)" "assign ! far < k"
    by (auto simp: shaped_def)
  have ne: "assign ! far \<noteq> c" using f(2) False by auto
  from False far assms(6) have r: "centroids' = centroids[c := points ! far]"
    "counts' = (counts[assign ! far := counts ! (assign ! far) - 1])
       [c := counts[assign ! far := counts ! (assign ! far) - 1] ! c + 1]"
    by (auto simp: reseed_one_def Let_def)
  have len: "length counts = k" using assms(2) by (simp add: counted_def)
  have "0 \<le> counts ! c" using assms(2,5) by (simp add: counted_def)
  then have "0 < counts' ! c" "\<forall>b < k. 0 < counts ! b \<longrightarrow> 0 < counts' ! b"
    using r(2) len f ne assms(5) by (auto simp: nth_list_update)
  moreover have "set centroids' \<subseteq> set centroids \<union> set points"
    using r(1) set_update_subset_insert [of centroids c "points ! far"] f(1) assms(1,3) by (auto simp: shaped_def)
  ultimately show ?thesis by blast
qed

lemma reseed_fold_fills:
  assumes "length points = n" "0 < n" "k \<le> n"
    and "\<And>p q. p \<in> set points \<Longrightarrow> q \<in> set points \<union> Q \<Longrightarrow> flt_lt (Fin (- 1)) (Distance metric p q)"
  shows "shaped n k assign centroids \<Longrightarrow> counted k assign counts \<Longrightarrow> \<forall>c \<in> set cs. c < k \<Longrightarrow>
    set centroids \<subseteq> set points \<union> Q \<Longrightarrow>
    fold (reseed_one points metric) cs (assign, centroids, counts, g) = (assign', centroids', counts', g') \<Longrightarrow>
    (\<forall>c \<in> set cs. 0 < counts' ! c) \<and> (\<forall>b < k. 0 < counts ! b \<longrightarrow> 0 < counts' ! b)"
proof (induction cs arbitrary: assign centroids counts g)
  case (Cons c cs)
  obtain a1 ce1 co1 g1 where r: "reseed_one points metric c (assign, centroids, counts, g) = (a1, ce1, co1, g1)"
    by (metis prod_cases4)
  have c: "c < k" using Cons.prems(3) by simp
  from reseed_one_shaped [OF Cons.prems(1,2) assms(1,2) c r] have s: "shaped n k a1 ce1" "counted k a1 co1" by auto
  have d: "flt_lt (Fin (- 1)) (Distance metric (points ! i) (centroids ! (assign ! i)))" if "i < n" for i
  proof -
    have "assign ! i < length centroids" using Cons.prems(1) that by (auto simp: shaped_def)
    then have "centroids ! (assign ! i) \<in> set points \<union> Q" using Cons.prems(4) nth_mem by blast
    moreover have "points ! i \<in> set points" using that assms(1) by simp
    ultimately show ?thesis by (intro assms(4))
  qed
  note f = reseed_one_fills [OF Cons.prems(1,2) assms(1,3) c r d]
  have "fold (reseed_one points metric) cs (a1, ce1, co1, g1) = (assign', centroids', counts', g')"
    using Cons.prems(5) r by simp
  moreover have "set ce1 \<subseteq> set points \<union> Q" using f Cons.prems(4) by blast
  moreover have "\<forall>c \<in> set cs. c < k" using Cons.prems(3) by simp
  ultimately have "(\<forall>c \<in> set cs. 0 < counts' ! c) \<and> (\<forall>b < k. 0 < co1 ! b \<longrightarrow> 0 < counts' ! b)"
    using Cons.IH [OF s] by blast
  with f c show ?case by auto
qed simp

text \<open>
  Reseeding leaves no cluster empty: with at least as many points as clusters and distances that
  are numbers, every cluster has a point afterwards, and the clustering keeps its shape.  (A distance
  of \<open>-1\<close> or less does not exist; the condition only excludes NaN.)
\<close>

theorem reseedEmpty_fills_every_cluster:
  assumes "shaped n k assign centroids" "length points = n" "0 < n" "k \<le> n"
    and "\<And>p q. p \<in> set points \<Longrightarrow> q \<in> set points \<union> set centroids \<Longrightarrow> flt_lt (Fin (- 1)) (Distance metric p q)"
    and "reseedEmpty points assign centroids metric g = (assign', centroids', g')"
  shows "shaped n k assign' centroids' \<and> (\<forall>c < k. c \<in> set assign')"
proof -
  obtain counts' where f: "fold (reseed_one points metric) [0..<length centroids]
      (assign, centroids, count_assigned assign (length centroids), g) = (assign', centroids', counts', g')"
    using assms(6) by (auto simp: reseedEmpty_def split: prod.splits)
  have k: "length centroids = k" using assms(1) by (simp add: shaped_def)
  have co: "counted k assign (count_assigned assign (length centroids))"
    using assms(1) count_assigned_counted by (auto simp: shaped_def)
  have cs: "\<forall>c \<in> set [0..<length centroids]. c < k" using k by simp
  from reseed_fold_shaped [OF assms(2,3,1) co cs f] have s: "shaped n k assign' centroids'" "counted k assign' counts'" by auto
  from reseed_fold_fills [OF assms(2-4) assms(5) assms(1) co cs _ f] have "\<forall>c < k. 0 < counts' ! c" using k by auto
  with s(2) have "c \<in> set assign'" if "c < k" for c
    using that count_list_0_iff [of assign' c] by (fastforce simp: counted_def)
  with s(1) show ?thesis by blast
qed

section \<open>Agreement of codes\<close>

lemma Hamming_sum: "Hamming a b = sum_list (map OnesCount64 (map2 (XOR) a b))"
proof -
  have "fold (\<lambda>(x, y) d. d + OnesCount64 (x XOR y)) xs z = z + sum_list (map OnesCount64 (map (\<lambda>(x, y). x XOR y) xs))" for xs z
    by (induction xs arbitrary: z) auto
  then show ?thesis by (simp add: Hamming_def)
qed

lemma Hamming_pack_bits: "Hamming (pack_bits f n) (pack_bits g n) = card {i. i < n \<and> f i \<noteq> g i}"
proof -
  let ?ws = "map2 (XOR) (pack_bits f n) (pack_bits g n)"
  have len: "length ?ws = words_for n" using pack_bits_spec [of f n] pack_bits_spec [of g n] by simp
  have bit: "bit (?ws ! (i div 64)) (i mod 64) \<longleftrightarrow> i < n \<and> f i \<noteq> g i" if "i < 64 * words_for n" for i
  proof -
    have "i div 64 < words_for n" using that by (simp add: less_mult_imp_div_less mult.commute)
    with pack_bits_spec [of f n] pack_bits_spec [of g n] show ?thesis by (auto simp: bit_xor_iff)
  qed
  have "i < 64 * words_for n" if "i < n" for i
    using words_for_bound [OF that] by (simp add: div_less_iff_less_mult mult.commute)
  with bit have "{i. i < n \<and> f i \<noteq> g i} = set (filter (\<lambda>i. bit (?ws ! (i div 64)) (i mod 64)) [0..<64 * length ?ws])"
    unfolding len by auto
  then show ?thesis unfolding Hamming_sum ones_total
    by (simp only: distinct_card distinct_filter distinct_upt)
qed

text \<open>
  The agreement of two residual codes is the number of dimensions in which the residuals have the
  same sign; the padding of the last word never counts.
\<close>

theorem Agreement_counts_signs:
  assumes "length v = n" "length w = n"
  shows "Agreement (ResidualCode v c) (ResidualCode w e) (int n) =
    int (card {i. i < n \<and> (flt_le (Fin 0) (fsub F32 (v ! i) (c ! i)) \<longleftrightarrow> flt_le (Fin 0) (fsub F32 (w ! i) (e ! i)))})"
    (is "_ = int (card {i. i < n \<and> (?f i \<longleftrightarrow> ?g i)})")
proof -
  have "card {i. i < n \<and> (?f i \<longleftrightarrow> ?g i)} + card {i. i < n \<and> ?f i \<noteq> ?g i} =
      card ({i. i < n \<and> (?f i \<longleftrightarrow> ?g i)} \<union> {i. i < n \<and> ?f i \<noteq> ?g i})"
    by (rule card_Un_disjoint [symmetric]) auto
  also have "{i. i < n \<and> (?f i \<longleftrightarrow> ?g i)} \<union> {i. i < n \<and> ?f i \<noteq> ?g i} = {..<n}" by auto
  finally show ?thesis using assms by (simp add: Agreement_def ResidualCode_def Hamming_pack_bits)
qed

section \<open>Witnesses\<close>

definition demo_points :: "vec list" where
  "demo_points = [[Fin 0, Fin 1], [Fin 0, Fin 2], [Fin 5, Fin 0]]"

definition no_draws :: rng where
  "no_draws = \<lparr>gInts = [], gNorms = [], gFloats = []\<rparr>"

theorem assignPoints_nearest_witness:
  "fst (assignPoints demo_points (take 2 demo_points) ''euclidean'' [0, 0, 0]) ! 2 = 0 \<and>
   \<not> flt_lt (Distance ''euclidean'' (demo_points ! 2) (demo_points ! 1))
     (Distance ''euclidean'' (demo_points ! 2) (take 2 demo_points ! 0))"
proof -
  have b: "fst (assignPoints demo_points (take 2 demo_points) ''euclidean'' [0, 0, 0]) ! 2 = 0" by code_simp
  have "list_all (\<lambda>p. list_all (\<lambda>c. Distance ''euclidean'' p c \<noteq> NaN) (take 2 demo_points)) demo_points" by code_simp
  then have "\<And>p c. p \<in> set demo_points \<Longrightarrow> c \<in> set (take 2 demo_points) \<Longrightarrow> Distance ''euclidean'' p c \<noteq> NaN"
    by (simp add: list_all_iff)
  from assignPoints_nearest [of "[0, 0, 0]" demo_points "take 2 demo_points", OF _ _ this, rule_format, of 2 1] b
  show ?thesis by (simp add: Let_def demo_points_def)
qed

theorem KMeans_shape_witness:
  "\<exists>centroids assign. KMeans (\<lambda>_. no_draws) demo_points 9 ''euclidean'' 5 = (centroids, assign) \<and>
    length centroids = 3 \<and> length assign = 3"
proof -
  obtain centroids assign where k: "KMeans (\<lambda>_. no_draws) demo_points 9 ''euclidean'' 5 = (centroids, assign)" by fastforce
  have "demo_points \<noteq> []" "length demo_points = 3" by (simp_all add: demo_points_def)
  with KMeans_shape [OF _ k] k show ?thesis by auto
qed

theorem reseedEmpty_fills_every_cluster_witness:
  "\<exists>assign' centroids' g'. reseedEmpty demo_points [0, 0, 0] (take 2 demo_points) ''euclidean'' no_draws =
    (assign', centroids', g') \<and> 1 \<in> set assign'"
proof -
  obtain assign' centroids' g' where r: "reseedEmpty demo_points [0, 0, 0] (take 2 demo_points) ''euclidean'' no_draws =
    (assign', centroids', g')" by (metis prod_cases3)
  have "list_all (\<lambda>p. list_all (\<lambda>c. flt_lt (Fin (- 1)) (Distance ''euclidean'' p c)) demo_points) demo_points" by code_simp
  moreover have "set demo_points \<union> set (take 2 demo_points) = set demo_points" by (auto dest: in_set_takeD)
  ultimately have d: "\<And>p q. p \<in> set demo_points \<Longrightarrow> q \<in> set demo_points \<union> set (take 2 demo_points) \<Longrightarrow>
      flt_lt (Fin (- 1)) (Distance ''euclidean'' p q)" by (simp add: list_all_iff)
  have "shaped 3 2 [0, 0, 0] (take 2 demo_points)" "length demo_points = 3" by (simp_all add: shaped_def demo_points_def)
  from reseedEmpty_fills_every_cluster [OF this _ _ d r] have "1 \<in> set assign'" by simp
  with r show ?thesis by blast
qed

theorem Agreement_counts_signs_witness:
  "Agreement (ResidualCode [Fin 1, Fin (- 1)] [Fin 0, Fin 0]) (ResidualCode [Fin 2, Fin 3] [Fin 0, Fin 0]) 2 =
     int (card {i. i < 2 \<and> (flt_le (Fin 0) (fsub F32 ([Fin 1, Fin (- 1)] ! i) ([Fin 0, Fin 0] ! i)) \<longleftrightarrow>
       flt_le (Fin 0) (fsub F32 ([Fin 2, Fin 3] ! i) ([Fin 0, Fin 0] ! i)))})"
  using Agreement_counts_signs [of "[Fin 1, Fin (- 1)]" 2 "[Fin 2, Fin 3]" "[Fin 0, Fin 0]" "[Fin 0, Fin 0]"] by simp

end
