(* ===== verification/CentroidTree.thy ===== *)
theory CentroidTree
  imports GoTime Types Vector
begin

text \<open>
  The hierarchical centroid tree of \<open>vector.go\<close>: balanced splits of the flat centroids down to leaves
  that name one flat cluster each, and the beam descent that routes a query through it.  Termination
  of both, the shape of the tree, and the agreement of a wide beam with the flat scan.
\<close>

section \<open>Building\<close>

record treeItem =
  tiPoint :: vec
  tiCluster :: nat

definition kmeansIters :: int where "kmeansIters = 25"

definition IsLeaf :: "CentroidNode \<Rightarrow> bool" where
  "IsLeaf n \<longleftrightarrow> nChildren n = []"

definition meanVec :: "vec list \<Rightarrow> vec" where
  "meanVec points = (if points = [] then []
     else (let total = fold (\<lambda>p acc. add_into acc p) points (zeros (length (points ! 0)));
               inv = f_div (Fin 1) (of_int64 (int (length points)))
           in map (\<lambda>s. to_fmt F32 (f_mul s inv)) total))"

definition newLeaf :: "treeItem list \<Rightarrow> CentroidNode" where
  "newLeaf items = CentroidNode (meanVec (map tiPoint items)) []
     (fold (\<lambda>it cluster. if tiCluster it < cluster then tiCluster it else cluster) items (tiCluster (items ! 0)))"

definition splitBuckets :: "nat \<Rightarrow> nat list \<Rightarrow> treeItem list \<Rightarrow> treeItem list list" where
  "splitBuckets k assign items =
     map (\<lambda>c. map snd (filter (\<lambda>(a, it). a = c) (zip assign items))) [0..<k]"

definition nonEmpty :: "treeItem list list \<Rightarrow> nat" where
  "nonEmpty buckets = length (filter (\<lambda>b. b \<noteq> []) buckets)"

definition maxlen :: "(vec \<times> treeItem list) list \<Rightarrow> nat" where
  "maxlen bs = foldr (\<lambda>b. max (length (snd b))) bs 0"

lemma maxlen_simps [simp]:
  "maxlen [] = 0" "maxlen (b # bs) = max (length (snd b)) (maxlen bs)"
  by (simp_all add: maxlen_def)

lemma maxlen_less: "maxlen bs < n \<longleftrightarrow> 0 < n \<and> (\<forall>b \<in> set bs. length (snd b) < n)"
  by (induction bs) auto

lemma split_strict:
  assumes "1 < nonEmpty (splitBuckets k assign items)" "b \<in> set (splitBuckets k assign items)"
  shows "length b < length items"
proof -
  from assms(2) obtain c where c: "c < k" "b = map snd (filter (\<lambda>(a, it). a = c) (zip assign items))"
    by (auto simp: splitBuckets_def)
  have "length b \<le> length (zip assign items)" unfolding c(2) length_map by (rule length_filter_le)
  moreover have "length b \<noteq> length (zip assign items)"
  proof
    assume "length b = length (zip assign items)"
    then have all: "\<forall>x \<in> set (zip assign items). fst x = c"
      using c(2) length_filter_less [of _ "zip assign items" "\<lambda>(a, it). a = c"] by fastforce
    have "filter (\<lambda>b. b \<noteq> []) (splitBuckets k assign items) =
        map (\<lambda>d. map snd (filter (\<lambda>(a, it). a = d) (zip assign items)))
          (filter (\<lambda>d. map snd (filter (\<lambda>(a, it). a = d) (zip assign items)) \<noteq> []) [0..<k])"
      by (simp add: splitBuckets_def filter_map o_def)
    moreover have "filter (\<lambda>d. map snd (filter (\<lambda>(a, it). a = d) (zip assign items)) \<noteq> []) [0..<k] =
        filter (\<lambda>d. d = c \<and> filter (\<lambda>(a, it). a = d) (zip assign items) \<noteq> []) [0..<k]"
      using all by (intro filter_cong) (auto simp: filter_empty_conv)
    moreover have "length (filter (\<lambda>d. d = c \<and> Q d) [0..<k]) \<le> 1" for Q
      by (induction k) auto
    from this [of "\<lambda>d. filter (\<lambda>(a, it). a = d) (zip assign items) \<noteq> []"]
    have "length (filter (\<lambda>d. d = c \<and> filter (\<lambda>(a, it). a = d) (zip assign items) \<noteq> []) [0..<k]) \<le> 1" .
    ultimately show False using assms(1) by (simp add: nonEmpty_def)
  qed
  ultimately show ?thesis by (simp add: min_def split: if_splits)
qed

lemma split_maxlen:
  assumes "1 < nonEmpty (splitBuckets k assign items)"
  shows "maxlen (zip centroids (splitBuckets k assign items)) < length items"
proof -
  have "splitBuckets k assign items \<noteq> []" using assms by (auto simp: nonEmpty_def)
  then obtain b where "b \<in> set (splitBuckets k assign items)" using last_in_set by blast
  then have "0 < length items" using split_strict [OF assms] by fastforce
  with split_strict [OF assms] show ?thesis by (auto simp: maxlen_less dest: set_zip_rightD)
qed

definition setCentroid :: "vec \<Rightarrow> CentroidNode \<Rightarrow> CentroidNode" where
  "setCentroid c n = CentroidNode c (nChildren n) (nLeafCluster n)"

function buildCentroidTree :: "int \<Rightarrow> nat \<Rightarrow> string \<Rightarrow> treeItem list \<Rightarrow> rng \<Rightarrow> CentroidNode \<times> rng"
  and build_children :: "int \<Rightarrow> nat \<Rightarrow> string \<Rightarrow> (vec \<times> treeItem list) list \<Rightarrow> rng \<Rightarrow> CentroidNode list \<times> rng"
where
  "buildCentroidTree fanout capacity metric items g =
     (if length items \<le> capacity \<or> length items \<le> 1 then (newLeaf items, g)
      else (let points = map tiPoint items;
                k = (if fanout > int (length points) then int (length points) else fanout);
                (centroids, assign, g) = kMeans points k metric kmeansIters g;
                buckets = splitBuckets (length centroids) assign items
            in if nonEmpty buckets \<le> 1 then (newLeaf items, g)
               else (case build_children fanout capacity metric (zip centroids buckets) g of
                 (children, g) \<Rightarrow> (CentroidNode (meanVec points) children 0, g))))"
| "build_children fanout capacity metric [] g = ([], g)"
| "build_children fanout capacity metric (cb # bs) g =
     (if snd cb = [] then build_children fanout capacity metric bs g
      else (case buildCentroidTree fanout capacity metric (snd cb) g of (child, g) \<Rightarrow>
        (case build_children fanout capacity metric bs g of (children, g) \<Rightarrow>
          (setCentroid (fst cb) child # children, g))))"
  by pat_completeness auto
termination
  by (relation "inv_image (less_than <*lex*> less_than <*lex*> less_than)
    (\<lambda>x. case x of Inl (_, _, _, items, _) \<Rightarrow> (length items, 0, 0)
      | Inr (_, _, _, bs, _) \<Rightarrow> (maxlen bs, 1, length bs))")
    (auto simp: not_le split_maxlen)

definition BuildTree :: "(int \<Rightarrow> rng) \<Rightarrow> vec list \<Rightarrow> int \<Rightarrow> nat \<Rightarrow> string \<Rightarrow> CentroidNode option" where
  "BuildTree source centroids fanout capacity metric =
     (if centroids = [] then None
      else (let items = map (\<lambda>(i, c). \<lparr>tiPoint = c, tiCluster = i\<rparr>) (enumerate 0 centroids);
                (root, g) = buildCentroidTree fanout capacity metric items (source 1)
            in if IsLeaf root then None else Some root))"

section \<open>Descending\<close>

text \<open>The comparator of every distance ranking: the distance first, an integer key on a tie.\<close>

definition dist_before :: "flt \<times> int \<Rightarrow> flt \<times> int \<Rightarrow> bool" where
  "dist_before a b = (if \<not> flt_eq (fst a) (fst b) then flt_lt (fst a) (fst b) else snd a < snd b)"

definition leafKey :: "CentroidNode \<Rightarrow> int" where
  "leafKey n = (if IsLeaf n then int (nLeafCluster n) else 1073741824)"

definition scored :: "string \<Rightarrow> vec \<Rightarrow> CentroidNode \<Rightarrow> flt \<times> CentroidNode" where
  "scored metric query n = (Distance metric query (nCentroid n), n)"

definition level_cands :: "string \<Rightarrow> vec \<Rightarrow> CentroidNode list \<Rightarrow> (flt \<times> CentroidNode) list" where
  "level_cands metric query frontier = concat (map (\<lambda>n.
     if IsLeaf n then [scored metric query n] else map (scored metric query) (nChildren n)) frontier)"

definition level_before :: "flt \<times> CentroidNode \<Rightarrow> flt \<times> CentroidNode \<Rightarrow> bool" where
  "level_before a b = dist_before (fst a, leafKey (snd a)) (fst b, leafKey (snd b))"

definition leaf_before :: "flt \<times> CentroidNode \<Rightarrow> flt \<times> CentroidNode \<Rightarrow> bool" where
  "leaf_before a b = dist_before (fst a, int (nLeafCluster (snd a))) (fst b, int (nLeafCluster (snd b)))"

definition keep_beam :: "string \<Rightarrow> vec \<Rightarrow> nat \<Rightarrow> CentroidNode list \<Rightarrow> CentroidNode list" where
  "keep_beam metric query beamWidth frontier =
     map snd (take beamWidth (sort_by level_before (level_cands metric query frontier)))"

lemma size_children:
  assumes "\<not> IsLeaf n"
  shows "sum_list (map size (nChildren n)) < size n"
  using assms by (cases n) (simp add: size_list_conv_sum_list less_Suc_eq_le sum_list_mono)

lemma level_cands_size:
  "sum_list (map (\<lambda>x. size (snd x)) (level_cands metric query frontier)) \<le> sum_list (map size frontier)"
  "\<exists>n \<in> set frontier. \<not> IsLeaf n \<Longrightarrow>
    sum_list (map (\<lambda>x. size (snd x)) (level_cands metric query frontier)) < sum_list (map size frontier)"
proof -
  have step: "sum_list (map (\<lambda>x. size (snd x)) (level_cands metric query [n])) \<le> size n"
    "\<not> IsLeaf n \<Longrightarrow> sum_list (map (\<lambda>x. size (snd x)) (level_cands metric query [n])) < size n" for n
    using size_children [of n] by (auto simp: level_cands_def scored_def o_def intro: less_imp_le)
  have cons: "level_cands metric query (n # ns) = level_cands metric query [n] @ level_cands metric query ns" for n ns
    by (simp add: level_cands_def)
  show le: "sum_list (map (\<lambda>x. size (snd x)) (level_cands metric query frontier)) \<le> sum_list (map size frontier)" for frontier
  proof (induction frontier)
    case (Cons n ns)
    then show ?case using step(1) [of n] by (simp add: cons [of n ns])
  qed (simp add: level_cands_def)
  show "\<exists>n \<in> set frontier. \<not> IsLeaf n \<Longrightarrow>
    sum_list (map (\<lambda>x. size (snd x)) (level_cands metric query frontier)) < sum_list (map size frontier)"
  proof (induction frontier)
    case (Cons n ns)
    show ?case
    proof (cases "IsLeaf n")
      case True
      with Cons step(1) [of n] show ?thesis by (simp add: cons [of n ns])
    next
      case False
      with step(2) [of n] le [of ns] show ?thesis by (simp add: cons [of n ns])
    qed
  qed simp
qed

lemma sum_list_take: "sum_list (take k xs) \<le> sum_list (xs :: nat list)"
  by (metis append_take_drop_id le_add1 sum_list.append)

lemma keep_beam_size:
  assumes "\<exists>n \<in> set frontier. \<not> IsLeaf n"
  shows "sum_list (map size (keep_beam metric query beamWidth frontier)) < sum_list (map size frontier)"
proof -
  let ?cs = "level_cands metric query frontier"
  have "sum_list (map size (keep_beam metric query beamWidth frontier)) =
      sum_list (take beamWidth (map (\<lambda>x. size (snd x)) (sort_by level_before ?cs)))"
    by (simp add: keep_beam_def take_map o_def)
  also have "\<dots> \<le> sum_list (map (\<lambda>x. size (snd x)) (sort_by level_before ?cs))" by (rule sum_list_take)
  also have "\<dots> = sum_list (map (\<lambda>x. size (snd x)) ?cs)" unfolding sum_mset_sum_list [symmetric] mset_map mset_sort_by ..
  also have "\<dots> < sum_list (map size frontier)" by (rule level_cands_size(2) [OF assms])
  finally show ?thesis .
qed

function beam_loop :: "string \<Rightarrow> vec \<Rightarrow> nat \<Rightarrow> CentroidNode list \<Rightarrow> nat \<Rightarrow> CentroidNode list \<times> nat" where
  "beam_loop metric query beamWidth frontier fanout =
     (if list_all IsLeaf frontier then (frontier, fanout)
      else beam_loop metric query beamWidth (keep_beam metric query beamWidth frontier)
        (fanout + length (level_cands metric query frontier)))"
  by pat_completeness auto
termination
  by (relation "measure (\<lambda>(metric, query, beamWidth, frontier, fanout). sum_list (map size frontier))")
    (auto simp: list_all_iff keep_beam_size)

definition rankLeaves :: "string \<Rightarrow> vec \<Rightarrow> CentroidNode list \<Rightarrow> nat list" where
  "rankLeaves metric query frontier =
     rev (fold (\<lambda>s clusters. if nLeafCluster (snd s) \<in> set clusters then clusters else nLeafCluster (snd s) # clusters)
       (sort_by leaf_before (map (scored metric query) frontier)) [])"

definition BeamDescend :: "CentroidNode option \<Rightarrow> vec \<Rightarrow> string \<Rightarrow> int \<Rightarrow> nat list \<times> nat" where
  "BeamDescend tree query metric beamWidth = (case tree of None \<Rightarrow> ([], 0)
   | Some r \<Rightarrow> (let beamWidth = (if beamWidth < 1 then 1 else beamWidth);
         (frontier, fanout) = beam_loop metric query (nat beamWidth) [r] 0
       in (rankLeaves metric query frontier, fanout + length frontier)))"

text \<open>The flat scan of \<open>query.go\<close>.\<close>

definition nearestClusters :: "string \<Rightarrow> vec \<Rightarrow> vec list \<Rightarrow> nat \<Rightarrow> nat list" where
  "nearestClusters metric query centroids nProbe =
     (let cds = sort_by (\<lambda>a b. dist_before (fst a, int (snd a)) (fst b, int (snd b)))
            (map (\<lambda>(i, c). (Distance metric query c, i)) (enumerate 0 centroids))
      in map snd (take nProbe cds))"

definition treeBeamFactor :: int where "treeBeamFactor = 4"

definition probeClusters :: "CentroidsFile \<Rightarrow> string \<Rightarrow> vec \<Rightarrow> int \<Rightarrow> nat list \<times> nat" where
  "probeClusters cf metric query nProbe = (case cfTree cf of
     Some t \<Rightarrow>
       (let beam = wrap64 (nProbe * treeBeamFactor);
            beam = (if beam < nProbe then nProbe else beam);
            beam = (if beam > int (length (cfCentroids cf)) then int (length (cfCentroids cf)) else beam);
            (leaves, fo) = BeamDescend (Some t) query metric beam;
            leaves = (if nProbe < int (length leaves) then take (nat nProbe) leaves else leaves)
        in (leaves, fo))
   | None \<Rightarrow> (nearestClusters metric query (cfCentroids cf) (nat nProbe), length (cfCentroids cf)))"

section \<open>The shape of the tree\<close>

fun leaf_nodes :: "CentroidNode \<Rightarrow> CentroidNode list" where
  "leaf_nodes (CentroidNode c ch l) = (if ch = [] then [CentroidNode c ch l] else concat (map leaf_nodes ch))"

abbreviation leaf_ids :: "CentroidNode \<Rightarrow> nat list" where
  "leaf_ids t \<equiv> map nLeafCluster (leaf_nodes t)"

fun well_split :: "int \<Rightarrow> CentroidNode \<Rightarrow> bool" where
  "well_split f (CentroidNode c ch l) \<longleftrightarrow>
     ch = [] \<or> 2 \<le> length ch \<and> int (length ch) \<le> f \<and> (\<forall>x \<in> set ch. well_split f x)"

lemma leaf_nodes_leaf: "IsLeaf n \<Longrightarrow> leaf_nodes n = [n]"
  by (cases n) (simp add: IsLeaf_def)

lemma leaf_nodes_inner: "\<not> IsLeaf n \<Longrightarrow> leaf_nodes n = concat (map leaf_nodes (nChildren n))"
  by (cases n) (simp add: IsLeaf_def)

lemma setCentroid_simps [simp]:
  "leaf_ids (setCentroid c n) = leaf_ids n" "well_split f (setCentroid c n) = well_split f n"
  by (cases n; simp add: setCentroid_def)+

text \<open>Splitting: no item is lost, and with two items and two centroids no split fails.\<close>

lemma buckets_mset:
  assumes "length assign = length items" "\<forall>a \<in> set assign. a < (k :: nat)"
  shows "mset (concat (map (\<lambda>c. map snd (filter (\<lambda>(a, it). a = c) (zip assign items))) [0..<k])) = mset items"
proof -
  have "mset (filter (\<lambda>(a, it). a < k) xs) + mset (filter (\<lambda>(a, it). a = k) xs) =
      mset (filter (\<lambda>(a, it). a < Suc k) xs)" for k and xs :: "(nat \<times> 'a) list"
    by (induction xs) auto
  then have "mset (concat (map (\<lambda>c. filter (\<lambda>(a, it). a = c) xs) [0..<k])) = mset (filter (\<lambda>(a, it). a < k) xs)"
    for xs :: "(nat \<times> 'a) list"
    by (induction k) simp_all
  from this [of "zip assign items"]
  have "mset (concat (map (\<lambda>c. filter (\<lambda>(a, it). a = c) (zip assign items)) [0..<k])) =
    mset (filter (\<lambda>(a, it). a < k) (zip assign items))" .
  moreover have "filter (\<lambda>(a, it). a < k) (zip assign items) = zip assign items"
    using assms(2) by (auto simp: filter_id_conv dest: set_zip_leftD)
  ultimately have "mset (map snd (concat (map (\<lambda>c. filter (\<lambda>(a, it). a = c) (zip assign items)) [0..<k]))) =
      mset (map snd (zip assign items))" by (simp only: mset_map)
  then show ?thesis using assms(1) by (simp add: map_concat o_def)
qed

lemma splitBuckets_mset:
  "length assign = length items \<Longrightarrow> \<forall>a \<in> set assign. a < k \<Longrightarrow> mset (concat (splitBuckets k assign items)) = mset items"
  unfolding splitBuckets_def by (rule buckets_mset)

lemma reseed_fold_two:
  assumes "length points = n" "2 \<le> n"
  shows "shaped n k assign centroids \<Longrightarrow> counted k assign counts \<Longrightarrow> \<forall>c \<in> set cs. c < k \<Longrightarrow>
    (\<exists>i < n. \<exists>j < n. assign ! i \<noteq> assign ! j) \<or> (\<forall>c \<in> D. c \<in> set assign) \<Longrightarrow>
    fold (reseed_one points metric) cs (assign, centroids, counts, g) = (assign', centroids', counts', g') \<Longrightarrow>
    (\<exists>i < n. \<exists>j < n. assign' ! i \<noteq> assign' ! j) \<or> (\<forall>c \<in> D \<union> set cs. c \<in> set assign')"
proof (induction cs arbitrary: assign centroids counts g D)
  case (Cons c cs)
  obtain a1 ce1 co1 g1 where r: "reseed_one points metric c (assign, centroids, counts, g) = (a1, ce1, co1, g1)"
    by (metis prod_cases4)
  have c: "c < k" using Cons.prems(3) by simp
  have n: "0 < n" using assms(2) by simp
  from reseed_one_shaped [OF Cons.prems(1,2) assms(1) n c r] have s: "shaped n k a1 ce1" "counted k a1 co1" by auto
  have "(\<exists>i < n. \<exists>j < n. a1 ! i \<noteq> a1 ! j) \<or> (\<forall>b \<in> insert c D. b \<in> set a1)"
  proof (cases "counts ! c > 0")
    case True
    then have "a1 = assign" using r by (simp add: reseed_one_def)
    moreover have "c \<in> set assign" using True Cons.prems(2) c count_list_0_iff [of assign c] by (auto simp: counted_def)
    ultimately show ?thesis using Cons.prems(4) by auto
  next
    case False
    then have new: "c \<notin> set assign" using Cons.prems(2) c by (auto simp: counted_def count_list_0_iff)
    from reseed_one_far [OF False assms(1) n r] obtain far where far: "far < n" "a1 = assign[far := c]" by blast
    define j where "j = (if far = 0 then 1 else 0 :: nat)"
    have j: "j < n" "j \<noteq> far" using assms(2) by (auto simp: j_def)
    have len: "length assign = n" using Cons.prems(1) by (simp add: shaped_def)
    with j have "assign ! j \<noteq> c" using new nth_mem [of j assign] by auto
    with far j len have "a1 ! far \<noteq> a1 ! j" by simp
    with far(1) j show ?thesis by blast
  qed
  from Cons.IH [OF s _ this] Cons.prems(3,5) r show ?case by auto
qed simp

lemma kMeans_two:
  assumes "2 \<le> length points" "2 \<le> k" "kMeans points k metric iters g = (centroids, assign, g')"
  shows "\<exists>i < length points. \<exists>j < length points. assign ! i \<noteq> assign ! j"
proof -
  let ?n = "length points" and ?k = "nat (min (max k 1) (int (length points)))"
  have ne: "points \<noteq> []" using assms(1) by auto
  from kMeans_reseeded [OF this assms(3)] obtain a ce g0
    where s: "shaped ?n ?k a ce" and r: "reseedEmpty points a ce metric g0 = (assign, centroids, g')" by blast
  obtain counts' where f: "fold (reseed_one points metric) [0..<length ce]
      (a, ce, count_assigned a (length ce), g0) = (assign, centroids, counts', g')"
    using r by (auto simp: reseedEmpty_def split: prod.splits)
  have k: "length ce = ?k" "2 \<le> ?k" using s assms(1,2) by (auto simp: shaped_def)
  have co: "counted ?k a (count_assigned a (length ce))"
    using s count_assigned_counted by (auto simp: shaped_def)
  from reseed_fold_two [OF refl assms(1) s co _ _ f, of "{}"] k(1)
  have "(\<exists>i < ?n. \<exists>j < ?n. assign ! i \<noteq> assign ! j) \<or> (\<forall>c < ?k. c \<in> set assign)" by auto
  then show ?thesis
  proof
    assume all: "\<forall>c < ?k. c \<in> set assign"
    have len: "length assign = ?n" using kMeans_shaped [OF ne assms(3)] by (simp add: shaped_def)
    have "0 < ?k" "1 < ?k" using k(2) by linarith+
    with all have "0 \<in> set assign" "1 \<in> set assign" by blast+
    then obtain i j where "i < length assign" "assign ! i = 0" "j < length assign" "assign ! j = 1"
      by (auto simp: in_set_conv_nth)
    with len show ?thesis by force
  qed
qed

lemma nonEmpty_two:
  assumes "length assign = length items" "\<forall>a \<in> set assign. a < k"
    and "i < length items" "j < length items" "assign ! i \<noteq> assign ! j"
  shows "2 \<le> nonEmpty (splitBuckets k assign items)"
proof -
  let ?S = "\<lambda>c. filter (\<lambda>(a, it). a = c) (zip assign items) \<noteq> []"
  have "?S (assign ! i)" if "i < length items" for i
    using that assms(1) by (force simp: filter_empty_conv set_zip)
  with assms have "{assign ! i, assign ! j} \<subseteq> set (filter ?S [0..<k])" by auto
  then have "card {assign ! i, assign ! j} \<le> card (set (filter ?S [0..<k]))" by (intro card_mono) auto
  also have "\<dots> = length (filter ?S [0..<k])" by (rule distinct_card) simp
  also have "\<dots> = nonEmpty (splitBuckets k assign items)"
    by (simp add: nonEmpty_def splitBuckets_def filter_map o_def)
  finally show ?thesis using assms(5) by simp
qed

lemma nonEmpty_filter:
  "length cs = length bs \<Longrightarrow> length (filter (\<lambda>cb. snd cb \<noteq> []) (zip cs bs)) = nonEmpty bs"
  unfolding nonEmpty_def by (induction cs bs rule: list_induct2) auto

lemma newLeaf_single:
  assumes "length items = 1"
  shows "leaf_ids (newLeaf items) = map tiCluster items" "well_split f (newLeaf items)"
  using assms by (auto simp: newLeaf_def length_Suc_conv)

text \<open>The whole recursion: with leaves of one item and a fan-out of two or more, no item is lost.\<close>

declare buildCentroidTree.simps [simp del]

lemma buildCentroidTree_split:
  assumes "\<not> (length items \<le> capacity \<or> length items \<le> 1)"
    and "kMeans (map tiPoint items) (min fanout (int (length items))) metric kmeansIters g = (centroids, assign, g1)"
    and "\<not> nonEmpty (splitBuckets (length centroids) assign items) \<le> 1"
    and "build_children fanout capacity metric (zip centroids (splitBuckets (length centroids) assign items)) g1 = (children, g2)"
  shows "buildCentroidTree fanout capacity metric items g = (CentroidNode (meanVec (map tiPoint items)) children 0, g2)"
proof -
  have k: "(if int (length (map tiPoint items)) < fanout then int (length (map tiPoint items)) else fanout) =
    min fanout (int (length items))" by simp
  show ?thesis using assms unfolding buildCentroidTree.simps [of fanout capacity metric items] Let_def k by simp
qed

lemma buildCentroidTree_partitions:
  "capacity \<le> 1 \<Longrightarrow> 2 \<le> fanout \<Longrightarrow> items \<noteq> [] \<Longrightarrow>
     buildCentroidTree fanout capacity metric items g = (t, g') \<Longrightarrow>
     mset (leaf_ids t) = mset (map tiCluster items) \<and> well_split fanout t \<and> (1 < length items \<longrightarrow> \<not> IsLeaf t)"
  "capacity \<le> 1 \<Longrightarrow> 2 \<le> fanout \<Longrightarrow> build_children fanout capacity metric bs g = (ts, g') \<Longrightarrow>
     mset (concat (map leaf_ids ts)) = mset (map tiCluster (concat (map snd bs))) \<and>
     (\<forall>t \<in> set ts. well_split fanout t) \<and> length ts = length (filter (\<lambda>cb. snd cb \<noteq> []) bs)"
proof (induction fanout capacity metric items g and fanout capacity metric bs g arbitrary: t g' and ts g'
    rule: buildCentroidTree_build_children.induct)
  case (1 fanout capacity metric items g)
  show ?case
  proof (cases "length items \<le> 1")
    case True
    then have "length items = 1" using 1(4) by (cases items) auto
    with 1(5) newLeaf_single [OF this] show ?thesis
      by (simp add: buildCentroidTree.simps [of fanout capacity metric items])
  next
    case False
    let ?points = "map tiPoint items"
    define k where "k = min fanout (int (length items))"
    have kp: "k = (if fanout > int (length ?points) then int (length ?points) else fanout)" by (simp add: k_def)
    obtain centroids assign g1 where km: "kMeans ?points k metric kmeansIters g = (centroids, assign, g1)"
      by (metis prod_cases3)
    let ?bs = "splitBuckets (length centroids) assign items"
    have k: "2 \<le> k" "k \<le> fanout" "k \<le> int (length items)" using 1(3) False by (auto simp: k_def)
    have s: "shaped (length items) (nat k) assign centroids"
      using kMeans_shaped [OF _ km] False k by (cases items) (auto simp: min_def max_def)
    obtain i j where ij: "i < length items" "j < length items" "assign ! i \<noteq> assign ! j"
      using kMeans_two [OF _ k(1) km] False by auto
    have two: "2 \<le> nonEmpty ?bs" using nonEmpty_two [OF _ _ ij] s by (simp add: shaped_def)
    obtain children g2 where ch: "build_children fanout capacity metric (zip centroids ?bs) g1 = (children, g2)" by fastforce
    have "\<not> (length items \<le> capacity \<or> length items \<le> 1)" using False 1(2) by simp
    note split = buildCentroidTree_split [OF this km [unfolded k_def] _ ch]
    have t: "t = CentroidNode (meanVec ?points) children 0" using split two 1(5) by simp
    have lb: "length ?bs = length centroids" by (simp add: splitBuckets_def)
    have "\<not> (length items \<le> capacity \<or> length items \<le> 1)" using False 1(2) by simp
    note ih = 1(1) [OF this refl kp km [symmetric] refl refl refl _ 1(2,3) ch, simplified]
    have ch': "mset (concat (map leaf_ids children)) = mset (map tiCluster (concat ?bs))"
      "\<forall>t \<in> set children. well_split fanout t" "length children = nonEmpty ?bs"
      using ih two lb by (simp_all add: nonEmpty_filter flip: map_map)
    have "mset (map tiCluster (concat ?bs)) = mset (map tiCluster items)"
      unfolding mset_map by (subst splitBuckets_mset) (use s in \<open>auto simp: shaped_def\<close>)
    moreover have "int (nonEmpty ?bs) \<le> fanout"
    proof -
      have "nonEmpty ?bs \<le> length centroids" unfolding nonEmpty_def using length_filter_le lb by metis
      with s k show ?thesis by (simp add: shaped_def)
    qed
    moreover have "children \<noteq> []" using ch'(3) two by auto
    then have "leaf_ids t = concat (map leaf_ids children)" "\<not> IsLeaf t"
      by (simp_all add: t map_concat o_def IsLeaf_def)
    ultimately show ?thesis using ch' t two by simp
  qed
next
  case (3 fanout capacity metric cb bs g)
  show ?case
  proof (cases "snd cb = []")
    case True
    with 3 show ?thesis by simp
  next
    case False
    obtain t g1 where t: "buildCentroidTree fanout capacity metric (snd cb) g = (t, g1)" by fastforce
    obtain ts' g2 where ts: "build_children fanout capacity metric bs g1 = (ts', g2)" by fastforce
    from False 3(6) t ts have r: "ts = setCentroid (fst cb) t # ts'" by auto
    from 3(2) [OF False 3(4,5) False t] 3(3) [OF False t [symmetric] 3(4,5) ts] False r
    show ?thesis by simp
  qed
qed simp

text \<open>
  C35. The tree is an alternate router over exactly the flat clusters: with leaves of at most one item
  and a fan-out of two or more, as the indexer calls it, \<open>BuildTree\<close> on two or more centroids always
  returns a tree, its leaves name every flat cluster exactly once, and every inner node has between
  two and \<open>fanout\<close> children.  The recursion ends for all inputs, and no k-means split ever fails,
  whatever the vectors hold (NaN included) and whatever the generator draws.
\<close>

theorem BuildTree_leaves_are_the_clusters:
  assumes "2 \<le> length centroids" "2 \<le> fanout" "capacity \<le> 1"
  shows "\<exists>t. BuildTree source centroids fanout capacity metric = Some t \<and>
    mset (leaf_ids t) = mset [0..<length centroids] \<and> well_split fanout t"
proof -
  let ?items = "map (\<lambda>(i, c). \<lparr>tiPoint = c, tiCluster = i\<rparr>) (enumerate 0 centroids)"
  obtain t g where t: "buildCentroidTree fanout capacity metric ?items (source 1) = (t, g)" by fastforce
  have ne: "?items \<noteq> []" using assms(1) by (auto simp: enumerate_eq_zip)
  have ids: "map tiCluster ?items = [0..<length centroids]"
    by (simp add: enumerate_eq_zip o_def case_prod_beta map_fst_zip flip: fst_def)
  note p = buildCentroidTree_partitions(1) [OF assms(3,2) ne t]
  then have "mset (leaf_ids t) = mset [0..<length centroids]" unfolding ids by blast
  moreover have "BuildTree source centroids fanout capacity metric = Some t"
    using p assms(1) t by (auto simp: BuildTree_def)
  ultimately show ?thesis using p by blast
qed

section \<open>A wide beam finds every leaf\<close>

interpretation dist_order: slice_order dist_before "\<lambda>a. fst a \<noteq> NaN"
proof
  fix x y z :: "flt \<times> int"
  assume nan: "fst x \<noteq> NaN" "fst y \<noteq> NaN"
  show "dist_before x y \<Longrightarrow> \<not> dist_before y x"
    using flt_lt_asym by (auto simp: dist_before_def flt_eq_sym split: if_splits)
  assume "fst z \<noteq> NaN" "dist_before x z"
  then show "dist_before x y \<or> dist_before y z"
    using nan by (auto simp: dist_before_def flt_eq_iff split: if_splits dest: flt_lt_cotrans flt_lt_trans)
qed

lemma map_insort_by: "map f (insort_by (\<lambda>a b. lt (f a) (f b)) x xs) = insort_by lt (f x) (map f xs)"
  by (induction xs) auto

lemma map_sort_by: "map f (sort_by (\<lambda>a b. lt (f a) (f b)) xs) = sort_by lt (map f xs)"
  by (induction xs) (auto simp: map_insort_by)

lemma leaf_nodes_ne: "1 \<le> length (leaf_nodes n)"
proof (induction n rule: leaf_nodes.induct)
  case (1 c ch l)
  show ?case
  proof (cases ch)
    case (Cons n ns)
    with 1 [of n] show ?thesis by simp
  qed simp
qed

lemma leaf_nodes_are_leaves: "x \<in> set (leaf_nodes n) \<Longrightarrow> IsLeaf x"
  by (induction n rule: leaf_nodes.induct) (auto simp: IsLeaf_def split: if_splits)

definition frontier_leaves :: "CentroidNode list \<Rightarrow> CentroidNode list" where
  "frontier_leaves ns = concat (map leaf_nodes ns)"

lemma frontier_leaves_simps [simp]:
  "frontier_leaves [] = []" "frontier_leaves (n # ns) = leaf_nodes n @ frontier_leaves ns"
  "frontier_leaves (ms @ ns) = frontier_leaves ms @ frontier_leaves ns"
  by (simp_all add: frontier_leaves_def)

lemma frontier_leaves_length: "length ns \<le> length (frontier_leaves ns)"
proof (induction ns)
  case (Cons n ns)
  then show ?case using leaf_nodes_ne [of n] by simp
qed simp

lemma frontier_leaves_mset: "mset ms = mset ns \<Longrightarrow> mset (frontier_leaves ms) = mset (frontier_leaves ns)"
proof -
  have "mset (frontier_leaves ns) = \<Sum>\<^sub># (image_mset (mset \<circ> leaf_nodes) (mset ns))" for ns
    by (induction ns) auto
  then show "mset ms = mset ns \<Longrightarrow> ?thesis" by simp
qed

lemma level_cands_leaves: "frontier_leaves (map snd (level_cands metric query ns)) = frontier_leaves ns"
proof (induction ns)
  case (Cons n ns)
  have "frontier_leaves (map snd (level_cands metric query [n])) = leaf_nodes n"
    by (cases "IsLeaf n") (simp_all add: level_cands_def scored_def o_def leaf_nodes_inner frontier_leaves_def)
  moreover have "level_cands metric query (n # ns) = level_cands metric query [n] @ level_cands metric query ns"
    by (simp add: level_cands_def)
  ultimately show ?case using Cons by simp
qed (simp add: level_cands_def)

lemma keep_beam_wide:
  assumes "length (frontier_leaves ns) \<le> beamWidth"
  shows "mset (frontier_leaves (keep_beam metric query beamWidth ns)) = mset (frontier_leaves ns)"
proof -
  let ?cs = "level_cands metric query ns"
  have "length ?cs \<le> beamWidth"
    using frontier_leaves_length [of "map snd ?cs"] level_cands_leaves [of metric query ns] assms by simp
  then have "mset (keep_beam metric query beamWidth ns) = mset (map snd ?cs)"
    by (simp add: keep_beam_def)
  from frontier_leaves_mset [OF this] show ?thesis by (simp add: level_cands_leaves)
qed

declare beam_loop.simps [simp del]

lemma beam_loop_wide:
  "length (frontier_leaves ns) \<le> beamWidth \<Longrightarrow>
   mset (fst (beam_loop metric query beamWidth ns fo)) = mset (frontier_leaves ns)"
proof (induction metric query beamWidth ns fo rule: beam_loop.induct)
  case (1 metric query beamWidth ns fo)
  show ?case
  proof (cases "list_all IsLeaf ns")
    case True
    then have "frontier_leaves ns = ns" by (induction ns) (auto simp: leaf_nodes_leaf)
    with True show ?thesis by (simp add: beam_loop.simps [of _ _ _ ns])
  next
    case False
    note k = keep_beam_wide [OF 1(2), of metric query]
    from 1(1) [OF False] k 1(2) have "mset (fst (beam_loop metric query beamWidth
        (keep_beam metric query beamWidth ns) (fo + length (level_cands metric query ns)))) = mset (frontier_leaves ns)"
      by (metis mset_eq_length)
    with False show ?thesis by (simp add: beam_loop.simps [of _ _ _ ns])
  qed
qed

section \<open>The tree probe against the flat probe\<close>

lemma dedupe_distinct:
  "distinct (map f xs) \<Longrightarrow> f ` set xs \<inter> set acc = {} \<Longrightarrow>
   fold (\<lambda>s cs. if f s \<in> set cs then cs else f s # cs) xs acc = rev (map f xs) @ acc"
proof (induction xs arbitrary: acc)
  case (Cons x xs)
  from Cons.IH [of "f x # acc"] Cons.prems show ?case by auto
qed simp

lemma leaf_before_pair:
  "leaf_before = (\<lambda>a b. dist_before (fst a, int (nLeafCluster (snd a))) (fst b, int (nLeafCluster (snd b))))"
  by (simp add: leaf_before_def fun_eq_iff)

lemma rankLeaves_distinct:
  assumes "distinct (map nLeafCluster ns)"
  shows "rankLeaves metric query ns = map (nat \<circ> snd)
    (sort_by dist_before (map (\<lambda>n. (Distance metric query (nCentroid n), int (nLeafCluster n))) ns))"
proof -
  let ?xs = "map (scored metric query) ns" and ?pair = "\<lambda>s. (fst s, int (nLeafCluster (snd s)))"
  have "map (\<lambda>s. nLeafCluster (snd s)) ?xs = map nLeafCluster ns" by (simp add: scored_def)
  then have "distinct (map (\<lambda>s. nLeafCluster (snd s)) (sort_by leaf_before ?xs))"
    using assms by (simp only: distinct_map_sort_by)
  then have "rankLeaves metric query ns = map (\<lambda>s. nLeafCluster (snd s)) (sort_by leaf_before ?xs)"
    by (simp add: rankLeaves_def dedupe_distinct)
  also have "\<dots> = map (nat \<circ> snd) (map ?pair (sort_by leaf_before ?xs))" by simp
  also have "map ?pair (sort_by leaf_before ?xs) = sort_by dist_before (map ?pair ?xs)"
    unfolding leaf_before_pair by (rule map_sort_by)
  finally show ?thesis by (simp add: scored_def o_def)
qed

lemma nearestClusters_pairs:
  "nearestClusters metric query centroids k = take k (map (nat \<circ> snd)
     (sort_by dist_before (map (\<lambda>i. (Distance metric query (centroids ! i), int i)) [0..<length centroids])))"
proof -
  let ?xs = "map (\<lambda>(i, c). (Distance metric query c, i)) (enumerate 0 centroids)"
  let ?pair = "\<lambda>a :: flt \<times> nat. (fst a, int (snd a))"
  have "map snd (sort_by (\<lambda>a b. dist_before (?pair a) (?pair b)) ?xs) =
      map (nat \<circ> snd) (map ?pair (sort_by (\<lambda>a b. dist_before (?pair a) (?pair b)) ?xs))" by simp
  also have "map ?pair (sort_by (\<lambda>a b. dist_before (?pair a) (?pair b)) ?xs) = sort_by dist_before (map ?pair ?xs)"
    by (rule map_sort_by)
  also have "map ?pair ?xs = map (\<lambda>i. (Distance metric query (centroids ! i), int i)) [0..<length centroids]"
    by (rule nth_equalityI) (simp_all add: nth_enumerate_eq)
  finally have "map snd (sort_by (\<lambda>a b. dist_before (?pair a) (?pair b)) ?xs) = map (nat \<circ> snd)
     (sort_by dist_before (map (\<lambda>i. (Distance metric query (centroids ! i), int i)) [0..<length centroids]))" .
  then show ?thesis by (simp only: nearestClusters_def Let_def take_map [symmetric])
qed

lemma sort_dist_unique:
  assumes "mset is = mset js" "\<forall>i \<in> set is. fst (g i) \<noteq> NaN" "\<And>i. snd (g i) = int i"
  shows "sort_by dist_before (map g is) = sort_by dist_before (map g js)"
proof (rule dist_order.sort_by_unique)
  show "list_all (\<lambda>a. fst a \<noteq> NaN) (map g js)"
    using assms(2) mset_eq_setD [OF assms(1)] by (auto simp: list_all_iff)
  show "dist_before x y \<or> dist_before y x" if xy: "x \<in> set (map g js)" "y \<in> set (map g js)" "x \<noteq> y" for x y
  proof -
    have "snd x \<noteq> snd y" using xy assms(3) by auto
    moreover have "fst x \<noteq> NaN" "fst y \<noteq> NaN" using xy assms(2) mset_eq_setD [OF assms(1)] by auto
    ultimately show ?thesis by (auto simp: dist_before_def flt_eq_iff)
  qed
  show "mset (sort_by dist_before (map g is)) = mset (map g js)" using assms(1) by simp
  show "sorted_wrt (\<lambda>a b. \<not> dist_before b a) (sort_by dist_before (map g is))"
    using assms(2) by (intro dist_order.sorted_sort_by) (auto simp: list_all_iff)
qed

lemma BeamDescend_wide:
  assumes "int (length (leaf_nodes t)) \<le> beam" "mset (leaf_ids t) = mset [0..<length centroids]"
    and "\<forall>n \<in> set (leaf_nodes t). nCentroid n = centroids ! nLeafCluster n"
    and "\<forall>c \<in> set centroids. Distance metric query c \<noteq> NaN"
  shows "fst (BeamDescend (Some t) query metric beam) = nearestClusters metric query centroids (length centroids)"
proof -
  let ?g = "\<lambda>i. (Distance metric query (centroids ! i), int i)"
  define ns where "ns = fst (beam_loop metric query (nat beam) [t] 0)"
  have pos: "1 \<le> beam" using leaf_nodes_ne [of t] assms(1) by linarith
  have ns: "mset ns = mset (leaf_nodes t)"
    using beam_loop_wide [of "[t]" "nat beam" metric query 0] assms(1) pos by (simp add: ns_def)
  then have ids: "mset (map nLeafCluster ns) = mset [0..<length centroids]" using assms(2) by simp
  then have "distinct (map nLeafCluster ns)" by (metis distinct_upt mset_eq_imp_distinct_iff)
  moreover have "map (\<lambda>n. (Distance metric query (nCentroid n), int (nLeafCluster n))) ns = map ?g (map nLeafCluster ns)"
    using assms(3) mset_eq_setD [OF ns] by simp
  ultimately have "rankLeaves metric query ns = map (nat \<circ> snd) (sort_by dist_before (map ?g (map nLeafCluster ns)))"
    by (simp only: rankLeaves_distinct)
  also have "sort_by dist_before (map ?g (map nLeafCluster ns)) = sort_by dist_before (map ?g [0..<length centroids])"
  proof (rule sort_dist_unique [OF ids])
    show "\<forall>i \<in> set (map nLeafCluster ns). fst (?g i) \<noteq> NaN" using mset_eq_setD [OF ids] assms(4) by auto
  qed simp
  finally have "rankLeaves metric query ns = nearestClusters metric query centroids (length centroids)"
    by (simp add: nearestClusters_pairs)
  with pos show ?thesis by (simp add: BeamDescend_def ns_def Let_def case_prod_beta)
qed


section \<open>Witnesses\<close>

theorem BuildTree_leaves_are_the_clusters_witness:
  "\<exists>t. BuildTree (\<lambda>_. no_draws) demo_points 8 1 ''euclidean'' = Some t \<and>
    mset (leaf_ids t) = mset [0..<length demo_points] \<and> well_split 8 t"
  by (rule BuildTree_leaves_are_the_clusters) (simp_all add: demo_points_def)

definition demo_tree :: CentroidNode where
  "demo_tree = CentroidNode [Fin 0, Fin 1]
     (map (\<lambda>(i, c). CentroidNode c [] i) (enumerate 0 demo_points)) 0"

definition demo_centroids :: CentroidsFile where
  "demo_centroids = \<lparr>cfMetric = ''euclidean'', cfDimension = 2, cfK = 3, cfCentroids = demo_points,
     cfSizes = [1, 1, 1], cfRotation = None, cfTree = Some demo_tree\<rparr>"


end
