(* ===== verification/RaBitQ.thy ===== *)
theory RaBitQ
  imports Types Vector
begin

text \<open>
  The quantized residuals of \<open>vector.go\<close>: the random rotation, the one-bit codes of the data vectors,
  the four-bit codes of a query scattered over bit planes, and the estimators that work on them.  The
  estimator's bit-parallel dot product is shown to be the integer dot product it stands for.
\<close>

unbundle bit_operations_syntax

definition bqBits :: nat where "bqBits = 4"

definition dot64 :: "vec \<Rightarrow> vec \<Rightarrow> flt" where
  "dot64 a b = fold (\<lambda>(x, y) s. f_add s (f_mul x y)) (zip a b) (Fin 0)"

section \<open>The rotation\<close>

fun draw_row :: "nat \<Rightarrow> rng \<Rightarrow> vec \<times> rng" where
  "draw_row 0 g = ([], g)"
| "draw_row (Suc n) g = (let (x, g) = NormFloat64 g; (xs, g) = draw_row n g in (x # xs, g))"

fun draw_rows :: "nat \<Rightarrow> nat \<Rightarrow> rng \<Rightarrow> vec list \<times> rng" where
  "draw_rows 0 dimn g = ([], g)"
| "draw_rows (Suc n) dimn g = (let (row, g) = draw_row dimn g; (rows, g) = draw_rows n dimn g in (row # rows, g))"

text \<open>One row against the finished ones: \<open>project\<close> subtracts the projections, \<open>unit_row\<close> normalizes.\<close>

definition project :: "vec list \<Rightarrow> vec \<Rightarrow> vec" where
  "project finished row = fold (\<lambda>q row. let proj = dot64 row q in map2 (\<lambda>x y. f_sub x (f_mul proj y)) row q) finished row"

definition unit_row :: "nat \<Rightarrow> vec \<Rightarrow> vec" where
  "unit_row i row =
     (let norm = f_sqrt (dot64 row row);
          (row, norm) = (if flt_eq norm (Fin 0) then ((map (\<lambda>_. Fin 0) row)[i := Fin 1], Fin 1) else (row, norm));
          inv = f_div (Fin 1) norm;
          row = map (\<lambda>x. f_mul x inv) row
      in if flt_lt (row ! i) (Fin 0) then map fneg row else row)"

definition NewRotation :: "(int \<Rightarrow> rng) \<Rightarrow> nat \<Rightarrow> int \<Rightarrow> Rotation" where
  "NewRotation source dimn seed =
     (let (a, g) = draw_rows dimn dimn (source seed)
      in \<lparr>rotDim = dimn,
          rotRows = fold (\<lambda>row finished. finished @ [unit_row (length finished) (project finished row)]) a []\<rparr>)"

definition rot_Apply :: "Rotation \<Rightarrow> vec \<Rightarrow> vec" where
  "rot_Apply r v = map (\<lambda>i. dot64 (rotRows r ! i) v) [0..<rotDim r]"

definition ApplyInverse :: "Rotation \<Rightarrow> vec \<Rightarrow> vec" where
  "ApplyInverse r v = map (\<lambda>j. fold (\<lambda>i s. f_add s (f_mul (rotRows r ! i ! j) (v ! i))) [0..<rotDim r] (Fin 0))
     [0..<rotDim r]"

section \<open>Data codes\<close>

definition EncodeRaBitQ :: "vec \<Rightarrow> vec \<Rightarrow> Rotation \<Rightarrow> RaBitQCode" where
  "EncodeRaBitQ v centroid rot =
     (let dimn = length v;
          residual = map2 f_sub v centroid;
          norm2 = fold (\<lambda>d n. f_add n (f_mul d d)) residual (Fin 0)
      in if flt_eq norm2 (Fin 0)
         then \<lparr>cBits = pack_bits (\<lambda>i. True) dimn, cResidualNorm = Fin 0, cOOAlign = Fin 0\<rparr>
         else (let invNorm = f_div (Fin 1) (f_sqrt norm2);
                   u = map (\<lambda>d. f_mul d invNorm) residual;
                   rotated = ApplyInverse rot u;
                   code = pack_bits (\<lambda>i. flt_le (Fin 0) (rotated ! i)) dimn;
                   invSqrtD = f_div (Fin 1) (f_sqrt (of_int64 (int dimn)));
                   xbar = map (\<lambda>i. if bit_at code i then invSqrtD else fneg invSqrtD) [0..<dimn];
                   obar = rot_Apply rot xbar
               in \<lparr>cBits = code, cResidualNorm = f_sqrt norm2, cOOAlign = dot64 obar u\<rparr>))"

section \<open>Query codes\<close>

record QueryCode =
  qcPlanes :: "64 word list list"
  qcResidualNorm :: flt
  qcLower :: flt
  qcWidth :: flt
  qcSumQuant :: int
  qcDim :: nat

definition maxLevel :: int where "maxLevel = push_bit bqBits 1 - 1"

text \<open>Randomized rounding of one coordinate, clamped to the levels.\<close>

definition quant_level :: "flt \<Rightarrow> rng \<Rightarrow> int \<times> rng" where
  "quant_level t g =
     (let f = flt_floor t;
          level = trunc_int f;
          (r, g) = Float64 g;
          level = (if flt_lt r (f_sub t f) then level + 1 else level);
          level = (if level < 0 then 0 else level);
          level = (if level > maxLevel then maxLevel else level)
      in (level, g))"

definition scatter :: "nat \<Rightarrow> int \<Rightarrow> 64 word list list \<Rightarrow> 64 word list list" where
  "scatter i level planes = map (\<lambda>j. if level AND push_bit j 1 \<noteq> 0 then set_at i (planes ! j) else planes ! j) [0..<bqBits]"

fun quantize :: "flt \<Rightarrow> flt \<Rightarrow> nat \<Rightarrow> vec \<Rightarrow> 64 word list list \<times> int \<times> rng \<Rightarrow> 64 word list list \<times> int \<times> rng" where
  "quantize lo width i [] st = st"
| "quantize lo width i (x # xs) (planes, acc, g) =
     (let (level, g) = quant_level (f_div (f_sub x lo) width) g
      in quantize lo width (Suc i) xs (scatter i level planes, acc + level, g))"

definition flt_min_max :: "vec \<Rightarrow> flt \<times> flt" where
  "flt_min_max xs = fold (\<lambda>x (lo, hi). (if flt_lt x lo then x else lo, if flt_lt hi x then x else hi)) xs (xs ! 0, xs ! 0)"

definition EncodeQuery :: "vec \<Rightarrow> vec \<Rightarrow> Rotation \<Rightarrow> rng \<Rightarrow> QueryCode \<times> rng" where
  "EncodeQuery query centroid rot g =
     (let dimn = length query;
          qc = \<lparr>qcPlanes = replicate bqBits (replicate (words_for dimn) 0), qcResidualNorm = Fin 0,
                qcLower = Fin 0, qcWidth = Fin 0, qcSumQuant = 0, qcDim = dimn\<rparr>;
          residual = map2 f_sub query centroid;
          norm2 = fold (\<lambda>d n. f_add n (f_mul d d)) residual (Fin 0)
      in if flt_eq norm2 (Fin 0) then (qc, g)
         else (let invNorm = f_div (Fin 1) (f_sqrt norm2);
                   residual = map (\<lambda>d. f_mul d invNorm) residual;
                   qc = qc\<lparr>qcResidualNorm := f_sqrt norm2\<rparr>;
                   qprime = ApplyInverse rot residual;
                   (lo, hi) = flt_min_max qprime;
                   width = f_div (f_sub hi lo) (of_int64 maxLevel);
                   qc = qc\<lparr>qcLower := lo, qcWidth := width\<rparr>
               in if flt_eq width (Fin 0) then (qc, g)
                  else (case quantize lo width 0 qprime (qcPlanes qc, 0, g) of (planes, acc, g) \<Rightarrow>
                    (qc\<lparr>qcPlanes := planes, qcSumQuant := acc\<rparr>, g))))"

section \<open>Estimates\<close>

definition and_count :: "64 word list \<Rightarrow> 64 word list \<Rightarrow> nat" where
  "and_count code plane = sum_list (map OnesCount64 (map2 (AND) code plane))"

definition bit_dot :: "64 word list \<Rightarrow> 64 word list list \<Rightarrow> int" where
  "bit_dot code planes = fold (\<lambda>j acc. acc + push_bit j (int (and_count code (planes ! j)))) [0..<length planes] 0"

definition EstimateInnerProduct :: "RaBitQCode \<Rightarrow> QueryCode \<Rightarrow> flt" where
  "EstimateInnerProduct code qc =
     (if flt_eq (cOOAlign code) (Fin 0) then Fin 0
      else (let dimn = qcDim qc;
                invSqrtD = f_div (Fin 1) (f_sqrt (of_int64 (int dimn)));
                popXBar = sum_list (map OnesCount64 (cBits code));
                bitDot = bit_dot (cBits code) (qcPlanes qc);
                obarq = f_mul invSqrtD (f_sub (f_sub (f_add
                    (f_mul (f_mul (Fin 2) (qcWidth qc)) (of_int64 bitDot))
                    (f_mul (f_mul (Fin 2) (qcLower qc)) (of_int64 (int popXBar))))
                    (f_mul (qcWidth qc) (of_int64 (qcSumQuant qc))))
                    (f_mul (qcLower qc) (of_int64 (int dimn))))
            in f_div obarq (cOOAlign code)))"

definition EstimateDistance :: "string \<Rightarrow> RaBitQCode \<Rightarrow> QueryCode \<Rightarrow> flt" where
  "EstimateDistance metric code qc =
     (let ip = EstimateInnerProduct code qc in
      if metric = MetricCosine then f_sub (Fin 1) ip
      else (let on = cResidualNorm code;
                qn = qcResidualNorm qc;
                sq = f_sub (f_add (f_mul on on) (f_mul qn qn)) (f_mul (f_mul (f_mul (Fin 2) on) qn) ip);
                sq = (if flt_lt sq (Fin 0) then Fin 0 else sq)
            in f_sqrt sq))"

section \<open>The bit planes hold the levels\<close>

definition plane_bits :: "nat \<Rightarrow> 64 word list list \<Rightarrow> int list \<Rightarrow> bool" where
  "plane_bits W planes levels \<longleftrightarrow> length planes = bqBits \<and> (\<forall>j < bqBits. length (planes ! j) = W \<and>
     (\<forall>w < W. \<forall>b < 64. bit (planes ! j ! w) b \<longleftrightarrow> w * 64 + b < length levels \<and> bit (levels ! (w * 64 + b)) j))"

lemma maxLevel_15: "maxLevel = 15"
  by (simp add: maxLevel_def bqBits_def push_bit_eq_mult)

lemma quant_level_range: "quant_level t g = (level, g') \<Longrightarrow> 0 \<le> level \<and> level \<le> 15"
  by (auto simp: quant_level_def Let_def maxLevel_15 split: prod.splits if_splits)

lemma scatter_plane_bits:
  assumes "plane_bits W planes levels"
  shows "plane_bits W (scatter (length levels) level planes) (levels @ [level])"
proof -
  have "bit (scatter (length levels) level planes ! j ! w) b \<longleftrightarrow>
      w * 64 + b < Suc (length levels) \<and> bit ((levels @ [level]) ! (w * 64 + b)) j"
    if "j < bqBits" "w < W" "b < 64" for j w b
  proof -
    have "bit (set_at (length levels) (planes ! j) ! w) b \<longleftrightarrow> bit (planes ! j ! w) b \<or> w * 64 + b = length levels"
      using assms that by (intro bit_set_at) (auto simp: plane_bits_def)
    moreover have "level AND push_bit j 1 \<noteq> 0 \<longleftrightarrow> bit level j"
      by (simp add: bit_iff_and_push_bit_not_eq_0)
    ultimately show ?thesis
      using assms that by (auto simp: plane_bits_def scatter_def nth_append less_Suc_eq)
  qed
  moreover have "length (scatter (length levels) level planes ! j) = W" if "j < bqBits" for j
    using assms that by (simp add: plane_bits_def scatter_def set_at_def)
  ultimately show ?thesis by (simp add: plane_bits_def scatter_def)
qed

lemma quantize_planes:
  "plane_bits W planes levels \<Longrightarrow> i = length levels \<Longrightarrow>
   quantize lo width i xs (planes, acc, g) = (planes', acc', g') \<Longrightarrow>
   \<exists>new. length new = length xs \<and> (\<forall>l \<in> set new. 0 \<le> l \<and> l \<le> 15) \<and>
     plane_bits W planes' (levels @ new) \<and> acc' = acc + sum_list new"
proof (induction xs arbitrary: i planes levels acc g)
  case (Cons x xs)
  obtain level g1 where q: "quant_level (f_div (f_sub x lo) width) g = (level, g1)" by fastforce
  with Cons.prems(2,3) have r: "quantize lo width (Suc i) xs (scatter (length levels) level planes, acc + level, g1) = (planes', acc', g')"
    by simp
  have "Suc i = length (levels @ [level])" using Cons.prems(2) by simp
  from Cons.IH [OF scatter_plane_bits [OF Cons.prems(1)] this r] obtain new
    where new: "length new = length xs" "\<forall>l \<in> set new. 0 \<le> l \<and> l \<le> 15"
      "plane_bits W planes' ((levels @ [level]) @ new)" "acc' = acc + level + sum_list new" by auto
  show ?case
    by (rule exI [of _ "level # new"]) (use new quant_level_range [OF q] in auto)
qed auto

lemma level_bits:
  assumes "0 \<le> l" "l \<le> (15 :: int)"
  shows "(\<Sum>j < bqBits. if bit l j then 2 ^ j else 0) = l"
proof -
  have "l \<in> {0, 1, 2, 3, 4, 5, 6, 7, 8, 9, 10, 11, 12, 13, 14, 15}" using assms unfolding insert_iff empty_iff by presburger
  then show ?thesis by (auto simp: bqBits_def numeral_eq_Suc lessThan_Suc bit_iff_odd)
qed

lemma bit_dot_sum: "bit_dot code planes = (\<Sum>j < length planes. 2 ^ j * int (and_count code (planes ! j)))"
proof -
  have "fold (\<lambda>j acc. acc + push_bit j (int (and_count code (planes ! j)))) [0..<n] 0 =
      (\<Sum>j < n. 2 ^ j * int (and_count code (planes ! j)))" for n
    by (induction n) (simp_all add: push_bit_eq_mult mult.commute)
  then show ?thesis by (simp add: bit_dot_def)
qed

lemma and_count_card:
  assumes "plane_bits W planes levels" "j < bqBits" "length code = W" "length levels \<le> 64 * W"
  shows "and_count code (planes ! j) = card {i. i < length levels \<and> bit_at code i \<and> bit (levels ! i) j}"
proof -
  let ?ws = "map2 (AND) code (planes ! j)"
  have len: "length ?ws = W" using assms by (simp add: plane_bits_def)
  have bit: "bit (?ws ! (i div 64)) (i mod 64) \<longleftrightarrow> i < length levels \<and> bit_at code i \<and> bit (levels ! i) j"
    if "i < 64 * W" for i
  proof -
    have "i div 64 < W" using that by (simp add: less_mult_imp_div_less mult.commute)
    with assms show ?thesis by (auto simp: plane_bits_def bit_at_iff bit_and_iff)
  qed
  have "{i. i < length levels \<and> bit_at code i \<and> bit (levels ! i) j} =
      set (filter (\<lambda>i. bit (?ws ! (i div 64)) (i mod 64)) [0..<64 * length ?ws])"
    unfolding len using bit assms(4) by auto
  then show ?thesis unfolding and_count_def ones_total
    by (simp only: distinct_card distinct_filter distinct_upt)
qed

lemma bit_dot_levels:
  assumes "plane_bits W planes levels" "length code = W" "length levels \<le> 64 * W"
    and "\<forall>l \<in> set levels. 0 \<le> l \<and> l \<le> 15"
  shows "bit_dot code planes = (\<Sum>i | i < length levels \<and> bit_at code i. levels ! i)"
proof -
  let ?I = "{i. i < length levels \<and> bit_at code i}"
  have "2 ^ j * int (and_count code (planes ! j)) = (\<Sum>i \<in> ?I. if bit (levels ! i) j then 2 ^ j else 0)"
    if "j < bqBits" for j
  proof -
    have "(\<Sum>i \<in> ?I. if bit (levels ! i) j then 2 ^ j else (0 :: int)) =
        (\<Sum>i \<in> {i \<in> ?I. bit (levels ! i) j}. 2 ^ j)"
      by (rule sum.inter_filter [symmetric]) simp
    also have "{i \<in> ?I. bit (levels ! i) j} = {i. i < length levels \<and> bit_at code i \<and> bit (levels ! i) j}" by auto
    finally show ?thesis using and_count_card [OF assms(1) that assms(2,3)] by simp
  qed
  then have "bit_dot code planes = (\<Sum>j < bqBits. \<Sum>i \<in> ?I. if bit (levels ! i) j then 2 ^ j else 0)"
    using assms(1) by (simp add: bit_dot_sum plane_bits_def)
  also have "\<dots> = (\<Sum>i \<in> ?I. \<Sum>j < bqBits. if bit (levels ! i) j then 2 ^ j else 0)" by (rule sum.swap)
  also have "\<dots> = (\<Sum>i \<in> ?I. levels ! i)"
    by (rule sum.cong) (use assms(4) level_bits in auto)
  finally show ?thesis .
qed

lemma words_for_cover: "n \<le> 64 * words_for n"
  by (simp add: words_for_def)

lemma zero_planes: "plane_bits (words_for n) (replicate bqBits (replicate (words_for n) 0)) []"
  by (simp add: plane_bits_def)

lemma zero_levels:
  "plane_bits (words_for n) (replicate bqBits (replicate (words_for n) 0)) (replicate n 0)"
  by (auto simp: plane_bits_def)

text \<open>
  C37. The bit planes of a query are an exact code: there are \<open>n\<close> quantized levels between 0 and 15, one
  per dimension, \<open>SumQuant\<close> is their sum, and for every data code the four AND-and-popcount scans,
  weighted by powers of two, give exactly the sum of the levels at the code's set bits (the integer
  dot product of the paper's equation 22), whatever the generator draws.
\<close>

theorem EncodeQuery_bit_planes:
  assumes "length query = n" "length centroid = n" "rotDim rot = n"
    and "EncodeQuery query centroid rot g = (qc, g')"
  shows "\<exists>levels. length levels = n \<and> (\<forall>l \<in> set levels. 0 \<le> l \<and> l \<le> 15) \<and> qcSumQuant qc = sum_list levels \<and>
    (\<forall>code. length code = words_for n \<longrightarrow>
      bit_dot code (qcPlanes qc) = (\<Sum>i | i < n \<and> bit_at code i. levels ! i))"
proof -
  have "\<exists>levels. length levels = n \<and> (\<forall>l \<in> set levels. 0 \<le> l \<and> l \<le> 15) \<and> qcSumQuant qc = sum_list levels \<and>
    plane_bits (words_for n) (qcPlanes qc) levels"
  proof (cases "qcPlanes qc = replicate bqBits (replicate (words_for n) 0) \<and> qcSumQuant qc = 0")
    case True
    then show ?thesis using zero_levels [of n]
      by (intro exI [of _ "replicate n 0"]) (simp add: sum_list_replicate)
  next
    case False
    with assms(1,4) obtain lo width qprime u gs where q: "qprime = ApplyInverse rot u"
      "quantize lo width 0 qprime (replicate bqBits (replicate (words_for n) 0), 0, gs) = (qcPlanes qc, qcSumQuant qc, g')"
      by (auto simp: EncodeQuery_def Let_def split: if_splits prod.splits)
    have "length qprime = n" using q(1) assms(3) by (simp add: ApplyInverse_def)
    with quantize_planes [OF zero_planes _ q(2)] show ?thesis by auto
  qed
  then obtain levels where l: "length levels = n" "\<forall>l \<in> set levels. 0 \<le> l \<and> l \<le> 15"
    "qcSumQuant qc = sum_list levels" "plane_bits (words_for n) (qcPlanes qc) levels" by blast
  have "bit_dot code (qcPlanes qc) = (\<Sum>i | i < n \<and> bit_at code i. levels ! i)" if "length code = words_for n" for code
    using bit_dot_levels [OF l(4) that _ l(2)] l(1) words_for_cover [of n] by simp
  with l show ?thesis by blast
qed

theorem EncodeQuery_bit_planes_witness:
  "\<exists>qc g'. EncodeQuery [Fin 3, Fin 0] [Fin 0, Fin 0] \<lparr>rotDim = 2, rotRows = [[Fin 1, Fin 0], [Fin 0, Fin 1]]\<rparr> no_draws = (qc, g') \<and>
    qcSumQuant qc = 15 \<and> bit_dot [1] (qcPlanes qc) = 15 \<and>
    (\<exists>levels. length levels = 2 \<and> qcSumQuant qc = sum_list levels \<and>
      bit_dot [1] (qcPlanes qc) = (\<Sum>i | i < 2 \<and> bit_at [1] i. levels ! i))"
proof -
  let ?x = "EncodeQuery [Fin 3, Fin 0] [Fin 0, Fin 0] \<lparr>rotDim = 2, rotRows = [[Fin 1, Fin 0], [Fin 0, Fin 1]]\<rparr> no_draws"
  obtain qc g' where x: "?x = (qc, g')" by fastforce
  have "qcSumQuant (fst ?x) = 15" "bit_dot [1] (qcPlanes (fst ?x)) = 15" by code_simp+
  moreover have "length ([1] :: 64 word list) = words_for 2" by (simp add: words_for_def)
  with EncodeQuery_bit_planes [OF _ _ _ x, of 2] obtain levels where
    "length levels = 2" "qcSumQuant qc = sum_list levels"
    "bit_dot [1] (qcPlanes qc) = (\<Sum>i | i < 2 \<and> bit_at [1] i. levels ! i)" by auto
  ultimately show ?thesis using x by auto
qed

end
