(* ===== verification/Lire.thy ===== *)
theory Lire
  imports CentroidTree
begin

text \<open>
  The incremental rebalancing of \<open>lire.go\<close>: the working set of posting lists, insertion, splitting,
  merging and reassignment.  Splitting and merging are shown to end by themselves, with every posting
  in the band, never because their guard counters ran out; and no operation loses or copies a member.
  A Go map used as a set is the list of its keys; the order in which a range visits it is a parameter.
\<close>

record lireCluster =
  lcID :: nat
  lcCentroid :: vec
  lcMembers :: "ClusterEntry list"

record lireIndex =
  liClusters :: "lireCluster list"
  liNextID :: nat
  liMetric :: string
  liDim :: nat
  liSplitCap :: int
  liMergeMin :: int
  liReassignTopN :: int

section \<open>The operations\<close>

definition clusterByID :: "nat \<Rightarrow> lireIndex \<Rightarrow> lireCluster option" where
  "clusterByID i li = find (\<lambda>c. lcID c = i) (liClusters li)"

text \<open>A write through the pointer that \<open>clusterByID\<close> returns.\<close>

fun on_first :: "nat \<Rightarrow> (lireCluster \<Rightarrow> lireCluster) \<Rightarrow> lireCluster list \<Rightarrow> lireCluster list" where
  "on_first i f [] = []"
| "on_first i f (c # cs) = (if lcID c = i then f c # cs else c # on_first i f cs)"

definition on_cluster :: "nat \<Rightarrow> (lireCluster \<Rightarrow> lireCluster) \<Rightarrow> lireIndex \<Rightarrow> lireIndex" where
  "on_cluster i f li = li\<lparr>liClusters := on_first i f (liClusters li)\<rparr>"

definition dropCluster :: "nat \<Rightarrow> lireIndex \<Rightarrow> lireIndex" where
  "dropCluster i li = li\<lparr>liClusters := filter (\<lambda>c. lcID c \<noteq> i) (liClusters li)\<rparr>"

definition nearest_step :: "string \<Rightarrow> vec \<Rightarrow> nat list \<Rightarrow> lireCluster \<Rightarrow> (nat \<times> flt) option \<Rightarrow> (nat \<times> flt) option" where
  "nearest_step metric v skip c st =
     (if lcID c \<in> set skip then st
      else (let d = Distance metric v (lcCentroid c) in
        case st of None \<Rightarrow> Some (lcID c, d)
        | Some (best, bestDist) \<Rightarrow>
            if flt_lt d bestDist \<or> flt_eq d bestDist \<and> lcID c < best then Some (lcID c, d) else st))"

definition nearestClusterID :: "vec \<Rightarrow> nat list \<Rightarrow> lireIndex \<Rightarrow> nat option" where
  "nearestClusterID v skip li = map_option fst (fold (nearest_step (liMetric li) v skip) (liClusters li) None)"

definition insertNearest :: "ClusterEntry \<Rightarrow> lireIndex \<Rightarrow> nat \<times> lireIndex" where
  "insertNearest entry li = (case nearestClusterID (eVector entry) [] li of
     None \<Rightarrow> (liNextID li, li\<lparr>liNextID := liNextID li + 1,
        liClusters := liClusters li @ [\<lparr>lcID = liNextID li, lcCentroid = eVector entry, lcMembers = [entry]\<rparr>]\<rparr>)
   | Some i \<Rightarrow> (i, on_cluster i (\<lambda>c. c\<lparr>lcMembers := lcMembers c @ [entry]\<rparr>) li))"

definition recenter :: "lireCluster \<Rightarrow> lireCluster" where
  "recenter c = (if lcMembers c = [] then c else c\<lparr>lcCentroid := meanVec (map eVector (lcMembers c))\<rparr>)"

definition totalMembers :: "lireIndex \<Rightarrow> nat" where
  "totalMembers li = fold (\<lambda>c n. n + length (lcMembers c)) (liClusters li) 0"

definition split2 :: "(int \<Rightarrow> rng) \<Rightarrow> nat \<Rightarrow> lireIndex \<Rightarrow> (nat \<times> nat \<times> lireIndex) option" where
  "split2 source victim li = (case clusterByID victim li of
     None \<Rightarrow> None
   | Some c \<Rightarrow>
       if length (lcMembers c) < 2 then None
       else (let (centroids, assign) = KMeans source (map eVector (lcMembers c)) 2 (liMetric li) kmeansIters in
         if length centroids < 2 then None
         else (let left = map snd (filter (\<lambda>(a, m). a = 0) (zip assign (lcMembers c)));
                   right = map snd (filter (\<lambda>(a, m). a \<noteq> 0) (zip assign (lcMembers c))) in
           if left = [] \<or> right = [] then None
           else (let idA = liNextID li; idB = liNextID li + 1;
                     li = dropCluster victim (li\<lparr>liNextID := liNextID li + 2\<rparr>);
                     ca = recenter \<lparr>lcID = idA, lcCentroid = centroids ! 0, lcMembers = left\<rparr>;
                     cb = recenter \<lparr>lcID = idB, lcCentroid = centroids ! 1, lcMembers = right\<rparr>
                 in Some (idA, idB, li\<lparr>liClusters := liClusters li @ [ca, cb]\<rparr>)))))"

text \<open>The loop of \<open>splitOversized\<close>; the first argument counts the splits that the guard still allows.\<close>

fun split_loop :: "nat \<Rightarrow> (int \<Rightarrow> rng) \<Rightarrow> nat list \<Rightarrow> lireIndex \<Rightarrow> nat list \<times> lireIndex" where
  "split_loop 0 source touched li = (touched, li)"
| "split_loop (Suc n) source touched li =
     (case find (\<lambda>c. int (length (lcMembers c)) > liSplitCap li) (liClusters li) of
        None \<Rightarrow> (touched, li)
      | Some c \<Rightarrow> (case split2 source (lcID c) li of
            None \<Rightarrow> (touched, li)
          | Some (a, b, li) \<Rightarrow> split_loop n source (List.insert b (List.insert a (removeAll (lcID c) touched))) li))"

definition splitOversized :: "(int \<Rightarrow> rng) \<Rightarrow> lireIndex \<Rightarrow> nat list \<times> lireIndex" where
  "splitOversized source li = split_loop (totalMembers li + 1) source [] li"

definition merge_into :: "nat \<Rightarrow> lireCluster \<Rightarrow> lireIndex \<Rightarrow> lireIndex" where
  "merge_into target src li = dropCluster (lcID src)
     (on_cluster target (\<lambda>c. recenter (c\<lparr>lcMembers := lcMembers c @ lcMembers src\<rparr>)) li)"

fun merge_loop :: "nat \<Rightarrow> nat list \<Rightarrow> lireIndex \<Rightarrow> nat list \<times> lireIndex" where
  "merge_loop 0 touched li = (touched, li)"
| "merge_loop (Suc n) touched li =
     (if length (liClusters li) \<le> 1 then (touched, li)
      else (case find (\<lambda>c. int (length (lcMembers c)) < liMergeMin li) (liClusters li) of
          None \<Rightarrow> (touched, li)
        | Some src \<Rightarrow> (case nearestClusterID (lcCentroid src) [lcID src] li of
            None \<Rightarrow> (touched, li)
          | Some target \<Rightarrow> merge_loop n (List.insert target (removeAll (lcID src) touched)) (merge_into target src li))))"

definition mergeUnderfull :: "lireIndex \<Rightarrow> nat list \<times> lireIndex" where
  "mergeUnderfull li = merge_loop (length (liClusters li) + 1) [] li"

section \<open>Reassignment\<close>

definition nearbyPostings :: "vec \<Rightarrow> nat \<Rightarrow> lireIndex \<Rightarrow> nat list" where
  "nearbyPostings center excludeID li =
     (let cds = map (\<lambda>c. (Distance (liMetric li) center (lcCentroid c), lcID c))
            (filter (\<lambda>c. lcID c \<noteq> excludeID) (liClusters li))
      in map snd (take (nat (liReassignTopN li))
           (sort_by (\<lambda>a b. dist_before (fst a, int (snd a)) (fst b, int (snd b))) cds)))"

definition memberIndex :: "ClusterEntry list \<Rightarrow> string \<Rightarrow> nat option" where
  "memberIndex members i = map_option fst (find (\<lambda>(k, m). eID m = i) (enumerate 0 members))"

definition removeMemberAt :: "ClusterEntry list \<Rightarrow> nat \<Rightarrow> ClusterEntry list" where
  "removeMemberAt members i = take i members @ drop (i + 1) members"

text \<open>
  Candidates are pairs of a posting and a member id; \<open>seen\<close> holds the ids of the candidates so far.
\<close>

type_synonym cands = "(nat \<times> string) list"

definition add_cand :: "nat \<Rightarrow> ClusterEntry \<Rightarrow> cands \<Rightarrow> cands" where
  "add_cand i m cs = (if eID m \<in> snd ` set cs then cs else cs @ [(i, eID m)])"

definition forced_cands :: "string list \<Rightarrow> lireIndex \<Rightarrow> cands" where
  "forced_cands forceIDs li = fold (\<lambda>c cs.
     fold (\<lambda>m cs. if eID m \<in> set forceIDs then add_cand (lcID c) m cs else cs) (lcMembers c) cs) (liClusters li) []"

definition eq1_cands :: "nat list \<Rightarrow> (nat, vec) gomap \<Rightarrow> lireIndex \<Rightarrow> cands \<Rightarrow> cands" where
  "eq1_cands changed oldCentroids li cs = fold (\<lambda>i cs. case clusterByID i li of
       None \<Rightarrow> cs
     | Some c \<Rightarrow> fold (\<lambda>m cs. case map_of oldCentroids i of
           Some ao \<Rightarrow> if flt_lt (Distance (liMetric li) (eVector m) (lcCentroid c)) (Distance (liMetric li) (eVector m) ao)
             then cs else add_cand i m cs
         | None \<Rightarrow> add_cand i m cs) (lcMembers c) cs) changed cs"

definition eq2_cands :: "nat list \<Rightarrow> lireIndex \<Rightarrow> cands \<Rightarrow> cands" where
  "eq2_cands changed li cs = fold (\<lambda>i cs. case clusterByID i li of
       None \<Rightarrow> cs
     | Some a \<Rightarrow> fold (\<lambda>nb cs. case clusterByID nb li of
           None \<Rightarrow> cs
         | Some c \<Rightarrow> fold (\<lambda>m cs.
             if flt_le (Distance (liMetric li) (eVector m) (lcCentroid a)) (Distance (liMetric li) (eVector m) (lcCentroid c))
             then add_cand nb m cs else cs) (lcMembers c) cs) (nearbyPostings (lcCentroid a) i li) cs) changed cs"

definition move_cand :: "nat \<times> string \<Rightarrow> lireIndex \<times> string list \<times> nat list \<Rightarrow> lireIndex \<times> string list \<times> nat list" where
  "move_cand cd st = (case st of (li, moved, dirty) \<Rightarrow>
     if snd cd \<in> set moved then st
     else (case clusterByID (fst cd) li of
         None \<Rightarrow> st
       | Some src \<Rightarrow> (case memberIndex (lcMembers src) (snd cd) of
           None \<Rightarrow> st
         | Some idx \<Rightarrow> (let entry = lcMembers src ! idx in
             case nearestClusterID (eVector entry) [] li of
               None \<Rightarrow> st
             | Some target \<Rightarrow>
                 if target = fst cd then st
                 else (let li = on_cluster target (\<lambda>c. c\<lparr>lcMembers := lcMembers c @ [entry\<lparr>eVersion := eVersion entry + 1\<rparr>]\<rparr>) li;
                           li = on_cluster (fst cd) (\<lambda>c. c\<lparr>lcMembers := removeMemberAt (lcMembers c) idx\<rparr>) li
                       in (li, snd cd # moved, List.insert target (List.insert (fst cd) dirty)))))))"

definition recenter_all :: "nat list \<Rightarrow> lireIndex \<Rightarrow> lireIndex" where
  "recenter_all dirty li = fold (\<lambda>i. on_cluster i recenter) dirty li"

definition reassign :: "(nat list \<Rightarrow> nat list) \<Rightarrow> (nat list \<Rightarrow> nat list) \<Rightarrow>
    nat list \<Rightarrow> (nat, vec) gomap \<Rightarrow> string list \<Rightarrow> lireIndex \<Rightarrow> nat list \<times> lireIndex" where
  "reassign range1 range2 changed oldCentroids forceIDs li =
     (if changed = [] \<and> forceIDs = [] then ([], li)
      else (let cs = forced_cands forceIDs li;
                cs = eq1_cands (range1 changed) oldCentroids li cs;
                cs = eq2_cands (range2 (filter (\<lambda>i. clusterByID i li \<noteq> None) changed)) li cs;
                (li, moved, dirty) = fold move_cand cs (li, [], changed)
            in (dirty, recenter_all dirty li)))"

section \<open>The working set as a multiset\<close>

definition li_ok :: "lireIndex \<Rightarrow> bool" where
  "li_ok li \<longleftrightarrow> distinct (map lcID (liClusters li)) \<and> (\<forall>c \<in> set (liClusters li). lcID c < liNextID li)"

definition members :: "lireIndex \<Rightarrow> ClusterEntry multiset" where
  "members li = mset (concat (map lcMembers (liClusters li)))"

lemma members_sum: "members li = (\<Sum>c \<in># mset (liClusters li). mset (lcMembers c))"
proof -
  have "mset (concat (map lcMembers cs)) = (\<Sum>c \<in># mset cs. mset (lcMembers c))" for cs
    by (induction cs) auto
  then show ?thesis by (simp add: members_def)
qed

lemma on_first_ids [simp]: "(\<And>c. lcID (f c) = lcID c) \<Longrightarrow> map lcID (on_first i f cs) = map lcID cs"
  by (induction cs) auto

lemma mset_split:
  assumes "mset cs = add_mset c M"
  obtains xs ys where "cs = xs @ c # ys" "M = mset xs + mset ys"
proof -
  have "c \<in># mset cs" unfolding assms by simp
  then have "c \<in> set cs" by simp
  then obtain xs ys where s: "cs = xs @ c # ys" by (auto dest: split_list)
  moreover from this have "M = mset xs + mset ys" using assms by simp
  ultimately show thesis using that by blast
qed

lemma on_first_append: "i \<notin> lcID ` set xs \<Longrightarrow> lcID c = i \<Longrightarrow> on_first i f (xs @ c # ys) = xs @ f c # ys"
  by (induction xs) auto

lemma on_first_mset:
  assumes "mset cs = add_mset c M" "distinct (map lcID cs)"
  shows "mset (on_first (lcID c) f cs) = add_mset (f c) M"
proof -
  from assms(1) obtain xs ys where s: "cs = xs @ c # ys" "M = mset xs + mset ys" by (rule mset_split)
  have "lcID c \<notin> lcID ` set xs" using assms(2) unfolding s(1) by simp
  from on_first_append [OF this refl, of f ys] show ?thesis by (simp add: s)
qed

lemma drop_mset:
  assumes "mset cs = add_mset c M" "distinct (map lcID cs)"
  shows "mset (filter (\<lambda>d. lcID d \<noteq> lcID c) cs) = M"
proof -
  from assms(1) obtain xs ys where s: "cs = xs @ c # ys" "M = mset xs + mset ys" by (rule mset_split)
  have "lcID c \<notin> lcID ` set xs" "lcID c \<notin> lcID ` set ys" using assms(2) unfolding s(1) by auto
  then have "filter (\<lambda>d. lcID d \<noteq> lcID c) xs = xs" "filter (\<lambda>d. lcID d \<noteq> lcID c) ys = ys"
    by (auto simp: filter_id_conv image_iff)
  then show ?thesis by (simp add: s)
qed

lemma clusterByID_SomeD: "clusterByID i li = Some c \<Longrightarrow> c \<in> set (liClusters li) \<and> lcID c = i"
  by (auto simp: clusterByID_def find_Some_iff)

lemma clusterByID_own:
  assumes "li_ok li" "c \<in> set (liClusters li)"
  shows "clusterByID (lcID c) li = Some c"
proof (cases "clusterByID (lcID c) li")
  case None
  with assms(2) show ?thesis by (auto simp: clusterByID_def find_None_iff)
next
  case (Some d)
  with clusterByID_SomeD [OF this] assms show ?thesis by (auto simp: li_ok_def distinct_map inj_on_def)
qed

section \<open>The nearest cluster\<close>

lemma nearest_step_simps:
  "lcID c \<in> set skip \<Longrightarrow> nearest_step metric v skip c st = st"
  "lcID c \<notin> set skip \<Longrightarrow> nearest_step metric v skip c None = Some (lcID c, Distance metric v (lcCentroid c))"
  "lcID c \<notin> set skip \<Longrightarrow> nearest_step metric v skip c (Some (b, d)) =
    (if flt_lt (Distance metric v (lcCentroid c)) d \<or> flt_eq (Distance metric v (lcCentroid c)) d \<and> lcID c < b
     then Some (lcID c, Distance metric v (lcCentroid c)) else Some (b, d))"
  by (simp_all add: nearest_step_def Let_def)

lemma nearest_fold:
  assumes "\<forall>c \<in> set cs. Distance metric v (lcCentroid c) \<noteq> NaN"
  shows "case fold (nearest_step metric v skip) cs None of
      None \<Rightarrow> \<forall>c \<in> set cs. lcID c \<in> set skip
    | Some (b, d) \<Rightarrow> (\<exists>c \<in> set cs. lcID c = b \<and> lcID c \<notin> set skip \<and> d = Distance metric v (lcCentroid c)) \<and>
        (\<forall>c \<in> set cs. lcID c \<notin> set skip \<longrightarrow> \<not> flt_lt (Distance metric v (lcCentroid c)) d \<and>
           (flt_eq (Distance metric v (lcCentroid c)) d \<longrightarrow> b \<le> lcID c))"
  using assms
proof (induction cs rule: rev_induct)
  case (snoc c cs)
  let ?d = "\<lambda>c. Distance metric v (lcCentroid c)"
  show ?case
  proof (cases "lcID c \<in> set skip")
    case True
    with snoc show ?thesis by (auto simp: nearest_step_simps split: option.splits)
  next
    case False
    show ?thesis
    proof (cases "fold (nearest_step metric v skip) cs None")
      case None
      with snoc False show ?thesis by (auto simp: nearest_step_simps)
    next
      case (Some bd)
      obtain b d where bd: "bd = (b, d)" by fastforce
      have ih: "\<exists>c \<in> set cs. lcID c = b \<and> lcID c \<notin> set skip \<and> d = ?d c"
        "\<forall>c \<in> set cs. lcID c \<notin> set skip \<longrightarrow> \<not> flt_lt (?d c) d \<and> (flt_eq (?d c) d \<longrightarrow> b \<le> lcID c)"
        using snoc Some bd by auto
      show ?thesis
      proof (cases "flt_lt (?d c) d \<or> flt_eq (?d c) d \<and> lcID c < b")
        case True
        have le: "\<not> flt_lt (?d e) (?d c) \<and> (flt_eq (?d e) (?d c) \<longrightarrow> lcID c \<le> lcID e)"
          if e: "e \<in> set cs" "lcID e \<notin> set skip" for e
        proof -
          note n = ih(2) [rule_format, OF e]
          have nan: "?d e \<noteq> NaN" "?d c \<noteq> NaN" "d \<noteq> NaN" using snoc.prems e ih(1) by auto
          from True show ?thesis
          proof
            assume lt: "flt_lt (?d c) d"
            with n have "flt_lt (?d c) (?d e)" using flt_lt_cotrans [OF nan(1) lt] by blast
            then show ?thesis using flt_lt_asym nan flt_eq_iff by blast
          next
            assume eq: "flt_eq (?d c) d \<and> lcID c < b"
            then have "flt_lt (?d e) (?d c) \<Longrightarrow> flt_lt (?d e) d" using flt_lt_eq_trans by blast
            moreover have "flt_eq (?d e) (?d c) \<Longrightarrow> flt_eq (?d e) d" using eq flt_eq_trans by blast
            ultimately show ?thesis using n eq by force
          qed
        qed
        with True False Some bd show ?thesis by (auto simp: nearest_step_simps)
      next
        case F: False
        with ih False Some bd show ?thesis by (auto simp: nearest_step_simps)
      qed
    qed
  qed
qed simp

lemma nearest_fold_Some:
  "case fold (nearest_step metric v skip) cs None of
      None \<Rightarrow> \<forall>c \<in> set cs. lcID c \<in> set skip
    | Some (b, d) \<Rightarrow> \<exists>c \<in> set cs. lcID c = b \<and> lcID c \<notin> set skip"
proof (induction cs rule: rev_induct)
  case (snoc c cs)
  show ?case
  proof (cases "lcID c \<in> set skip")
    case True
    with snoc show ?thesis by (auto simp: nearest_step_simps split: option.splits)
  next
    case False
    with snoc show ?thesis
      by (cases "fold (nearest_step metric v skip) cs None") (auto simp: nearest_step_simps)
  qed
qed simp

lemma nearestClusterID_SomeD:
  assumes "nearestClusterID v skip li = Some i"
  shows "\<exists>c \<in> set (liClusters li). lcID c = i \<and> i \<notin> set skip"
  using assms nearest_fold_Some [where metric = "liMetric li" and cs = "liClusters li" and v = v and skip = skip]
  by (auto simp: nearestClusterID_def)

lemma nearestClusterID_None:
  "nearestClusterID v skip li = None \<longleftrightarrow> (\<forall>c \<in> set (liClusters li). lcID c \<in> set skip)"
  using nearest_fold_Some [where metric = "liMetric li" and cs = "liClusters li" and v = v and skip = skip]
  by (auto simp: nearestClusterID_def split: option.splits)

section \<open>Splitting\<close>

text \<open>\<open>spare\<close> bounds the splits to come: each split uses one up.\<close>

definition spare :: "lireIndex \<Rightarrow> nat" where
  "spare li = (\<Sum>c \<in># mset (liClusters li). length (lcMembers c) - 1)"

lemma totalMembers_sum: "totalMembers li = (\<Sum>c \<in># mset (liClusters li). length (lcMembers c))"
proof -
  have "fold (\<lambda>c n. n + length (lcMembers c)) cs z = z + (\<Sum>c \<in># mset cs. length (lcMembers c))"
    for z and cs :: "lireCluster list"
    by (induction cs arbitrary: z) auto
  then show ?thesis by (simp add: totalMembers_def)
qed

lemma spare_le: "spare li \<le> totalMembers li"
  unfolding spare_def totalMembers_sum by (rule sum_mset_mono) simp

lemma recenter_simps [simp]: "lcID (recenter c) = lcID c" "lcMembers (recenter c) = lcMembers c"
  by (simp_all add: recenter_def)

lemma split_sides:
  assumes "length assign = length ms"
  shows "mset (map snd (filter (\<lambda>(a, m). a = (0::nat)) (zip assign ms))) +
    mset (map snd (filter (\<lambda>(a, m). a \<noteq> 0) (zip assign ms))) = mset ms"
  using assms by (induction assign ms rule: list_induct2) auto

lemma split2_spec:
  assumes "li_ok li" "c \<in> set (liClusters li)" "2 \<le> length (lcMembers c)"
  obtains a b li' where "split2 source (lcID c) li = Some (a, b, li')" "li_ok li'"
    "members li' = members li" "Suc (spare li') = spare li"
    "liSplitCap li' = liSplitCap li" "liMergeMin li' = liMergeMin li" "liMetric li' = liMetric li"
    "liReassignTopN li' = liReassignTopN li"
proof -
  let ?ms = "lcMembers c" and ?pts = "map eVector (lcMembers c)"
  obtain centroids assign g where km: "kMeans ?pts 2 (liMetric li) kmeansIters (source 1) = (centroids, assign, g)"
    by (metis prod_cases3)
  have ne: "?pts \<noteq> []" using assms(3) by auto
  have two: "min (max 2 1) (int (length ?pts)) = 2" using assms(3) by simp
  have sh: "shaped (length ?ms) 2 assign centroids" using kMeans_shaped [OF ne km] unfolding two by simp
  then have la: "length assign = length ?ms" and lc: "length centroids = 2" and rng: "\<forall>a \<in> set assign. a < 2"
    by (simp_all add: shaped_def)
  define left where "left = map snd (filter (\<lambda>(a, m). a = 0) (zip assign ?ms))"
  define right where "right = map snd (filter (\<lambda>(a, m). a \<noteq> 0) (zip assign ?ms))"
  have lr: "mset left + mset right = mset ?ms" unfolding left_def right_def by (rule split_sides [OF la])
  obtain i j where ij: "i < length ?ms" "j < length ?ms" "assign ! i \<noteq> assign ! j"
    using kMeans_two [OF _ _ km] assms(3) by auto
  have "\<exists>k < length ?ms. assign ! k = 0" "\<exists>k < length ?ms. assign ! k \<noteq> 0"
  proof -
    have "assign ! i < 2" "assign ! j < 2" using ij rng la by auto
    with ij show "\<exists>k < length ?ms. assign ! k = 0" "\<exists>k < length ?ms. assign ! k \<noteq> 0"
      by (metis less_2_cases)+
  qed
  then have "left \<noteq> []" "right \<noteq> []"
    using la by (force simp: left_def right_def filter_empty_conv set_zip)+
  note ne' = this
  define n where "n = liNextID li"
  define cs where "cs = filter (\<lambda>d. lcID d \<noteq> lcID c) (liClusters li)"
  define ca where "ca = recenter \<lparr>lcID = n, lcCentroid = centroids ! 0, lcMembers = left\<rparr>"
  define cb where "cb = recenter \<lparr>lcID = n + 1, lcCentroid = centroids ! 1, lcMembers = right\<rparr>"
  define li' where "li' = li\<lparr>liNextID := n + 2, liClusters := cs @ [ca, cb]\<rparr>"
  have split: "split2 source (lcID c) li = Some (n, n + 1, li')"
    using clusterByID_own [OF assms(1,2)] assms(3) km lc ne'
    by (simp add: split2_def KMeans_def dropCluster_def
        li'_def cs_def ca_def cb_def n_def Let_def left_def right_def)
  obtain M where M: "mset (liClusters li) = add_mset c M"
    using assms(2) by (metis mset_add set_mset_mset)
  have d: "distinct (map lcID (liClusters li))" and lt: "\<forall>c \<in> set (liClusters li). lcID c < n"
    using assms(1) by (simp_all add: li_ok_def n_def)
  have cs: "mset cs = M" unfolding cs_def by (rule drop_mset [OF M d])
  have ok: "li_ok li'"
    using d lt by (auto simp: li_ok_def li'_def cs_def ca_def cb_def distinct_map_filter)
  have mem: "members li' = members li"
    using lr by (simp add: members_sum li'_def M cs ca_def cb_def add_ac)
  have "length left + length right = length ?ms" using lr by (metis size_mset size_union)
  then have sp: "Suc (spare li') = spare li"
    using ne' by (cases left; cases right) (simp_all add: spare_def li'_def M cs ca_def cb_def)
  show thesis by (rule that [OF split ok mem sp]) (simp_all add: li'_def)
qed

lemma split_loop_spec:
  "li_ok li \<Longrightarrow> 1 \<le> liSplitCap li \<Longrightarrow> spare li < n \<Longrightarrow> split_loop n source touched li = (touched', li') \<Longrightarrow>
   li_ok li' \<and> members li' = members li \<and> liSplitCap li' = liSplitCap li \<and> liMergeMin li' = liMergeMin li \<and>
   (\<forall>c \<in> set (liClusters li'). int (length (lcMembers c)) \<le> liSplitCap li)"
proof (induction n arbitrary: touched li)
  case (Suc n)
  show ?case
  proof (cases "find (\<lambda>c. int (length (lcMembers c)) > liSplitCap li) (liClusters li)")
    case None
    with Suc.prems show ?thesis by (auto simp: find_None_iff not_less)
  next
    case (Some c)
    then have c: "c \<in> set (liClusters li)" "int (length (lcMembers c)) > liSplitCap li"
      by (auto simp: find_Some_iff)
    with Suc.prems(2) have "2 \<le> length (lcMembers c)" by linarith
    from split2_spec [OF Suc.prems(1) c(1) this] obtain a b li1
      where s: "split2 source (lcID c) li = Some (a, b, li1)" "li_ok li1" "members li1 = members li"
        "Suc (spare li1) = spare li" "liSplitCap li1 = liSplitCap li" "liMergeMin li1 = liMergeMin li" by metis
    from Suc.prems(4) Some s(1) have "split_loop n source
        (List.insert b (List.insert a (removeAll (lcID c) touched))) li1 = (touched', li')" by simp
    from Suc.IH [OF s(2) _ _ this] Suc.prems(2,3) s show ?thesis by simp
  qed
qed simp

lemma splitOversized_ok:
  assumes "li_ok li" "1 \<le> liSplitCap li" "splitOversized source li = (touched, li')"
  shows "li_ok li' \<and> members li' = members li \<and> liMergeMin li' = liMergeMin li \<and>
    (\<forall>c \<in> set (liClusters li'). int (length (lcMembers c)) \<le> liSplitCap li)"
proof -
  have "spare li < totalMembers li + 1" using spare_le [of li] by simp
  from split_loop_spec [OF assms(1,2) this] assms(3) show ?thesis by (auto simp: splitOversized_def)
qed

text \<open>
  C38. Splitting ends by itself: the guard of \<open>totalMembers + 1\<close> rounds is never used up, no 2-means
  split ever fails, and when \<open>splitOversized\<close> returns every posting is within the cap, with exactly
  the members that it was given.
\<close>

theorem splitOversized_within_cap:
  assumes "li_ok li" "1 \<le> liSplitCap li" "splitOversized source li = (touched, li')"
  shows "li_ok li' \<and> members li' = members li \<and>
    (\<forall>c \<in> set (liClusters li'). int (length (lcMembers c)) \<le> liSplitCap li)"
  using splitOversized_ok [OF assms] by blast

section \<open>Merging\<close>

lemma merge_into_spec:
  assumes "li_ok li" "src \<in> set (liClusters li)" "nearestClusterID (lcCentroid src) [lcID src] li = Some target"
  shows "li_ok (merge_into target src li) \<and> members (merge_into target src li) = members li \<and>
    Suc (length (liClusters (merge_into target src li))) = length (liClusters li)"
proof -
  from nearestClusterID_SomeD [OF assms(3)] obtain t
    where t: "t \<in> set (liClusters li)" "lcID t = target" "t \<noteq> src" by auto
  let ?f = "\<lambda>c. recenter (c\<lparr>lcMembers := lcMembers c @ lcMembers src\<rparr>)"
  have "t \<in># mset (liClusters li) - {#src#}" using t assms(2) by (simp add: in_diff_count)
  then obtain M where "mset (liClusters li) - {#src#} = add_mset t M" by (metis mset_add)
  moreover have "src \<in># mset (liClusters li)" using assms(2) by simp
  ultimately have M: "mset (liClusters li) = add_mset src (add_mset t M)" by (metis insert_DiffM)
  have d: "distinct (map lcID (liClusters li))" using assms(1) by (simp add: li_ok_def)
  have "mset (on_first target ?f (liClusters li)) = add_mset (?f t) (add_mset src M)"
    using on_first_mset [of "liClusters li" t "add_mset src M" ?f] M d t(2) by (simp add: add_mset_commute)
  then have "mset (filter (\<lambda>d. lcID d \<noteq> lcID src) (on_first target ?f (liClusters li))) = add_mset (?f t) M"
    using drop_mset [of "on_first target ?f (liClusters li)" src "add_mset (?f t) M"] d
    by (simp add: add_mset_commute)
  then have cs: "mset (liClusters (merge_into target src li)) = add_mset (?f t) M"
    by (simp add: merge_into_def dropCluster_def on_cluster_def)
  have "members (merge_into target src li) = members li"
    by (simp add: members_sum cs M add_ac)
  moreover have "Suc (length (liClusters (merge_into target src li))) = length (liClusters li)"
    by (metis M cs size_add_mset size_mset)
  moreover have "li_ok (merge_into target src li)"
  proof -
    have "mset (map lcID (liClusters li)) = add_mset (lcID src) (mset (map lcID (liClusters (merge_into target src li))))"
      by (simp add: cs M)
    with d have "distinct (map lcID (liClusters (merge_into target src li)))"
      by (metis distinct.simps(2) mset.simps(2) mset_eq_imp_distinct_iff)
    moreover have "lcID c < liNextID (merge_into target src li)" if "c \<in> set (liClusters (merge_into target src li))" for c
    proof -
      have "c \<in># add_mset (?f t) M" using that cs by (metis set_mset_mset)
      then have "lcID c \<in># image_mset lcID (mset (liClusters li))" using M by auto
      then have "lcID c \<in> lcID ` set (liClusters li)" by simp
      with assms(1) show ?thesis by (auto simp: li_ok_def merge_into_def dropCluster_def on_cluster_def)
    qed
    ultimately show ?thesis by (simp add: li_ok_def)
  qed
  ultimately show ?thesis by blast
qed

lemma merge_loop_spec:
  "li_ok li \<Longrightarrow> length (liClusters li) < n \<Longrightarrow> merge_loop n touched li = (touched', li') \<Longrightarrow>
   li_ok li' \<and> members li' = members li \<and>
   (length (liClusters li') \<le> 1 \<or> (\<forall>c \<in> set (liClusters li'). liMergeMin li \<le> int (length (lcMembers c))))"
proof (induction n arbitrary: touched li)
  case (Suc n)
  show ?case
  proof (cases "length (liClusters li) \<le> 1")
    case True
    with Suc.prems show ?thesis by auto
  next
    case False
    show ?thesis
    proof (cases "find (\<lambda>c. int (length (lcMembers c)) < liMergeMin li) (liClusters li)")
      case None
      with Suc.prems False show ?thesis by (auto simp: find_None_iff not_less)
    next
      case (Some src)
      then have src: "src \<in> set (liClusters li)" by (auto simp: find_Some_iff)
      have "nearestClusterID (lcCentroid src) [lcID src] li \<noteq> None"
      proof
        assume "nearestClusterID (lcCentroid src) [lcID src] li = None"
        then have "set (map lcID (liClusters li)) \<subseteq> {lcID src}" by (auto simp: nearestClusterID_None)
        then have "card (set (map lcID (liClusters li))) \<le> 1" using card_mono [of "{lcID src}"] by simp
        with False Suc.prems(1) show False
          by (simp only: li_ok_def distinct_card length_map)
      qed
      then obtain target where t: "nearestClusterID (lcCentroid src) [lcID src] li = Some target" by blast
      note m = merge_into_spec [OF Suc.prems(1) src t]
      from Suc.prems(3) False Some t have "merge_loop n (List.insert target (removeAll (lcID src) touched))
          (merge_into target src li) = (touched', li')" by simp
      moreover have "liMergeMin (merge_into target src li) = liMergeMin li"
        by (simp add: merge_into_def dropCluster_def on_cluster_def)
      ultimately show ?thesis using Suc.IH [of "merge_into target src li"] m Suc.prems(2) by auto
    qed
  qed
qed simp

text \<open>
  C39. Merging ends by itself too: \<open>mergeUnderfull\<close> returns with a single posting or with every posting
  at or above the floor, never because its guard ran out, and keeps every member.
\<close>

theorem mergeUnderfull_above_floor:
  assumes "li_ok li" "mergeUnderfull li = (touched, li')"
  shows "li_ok li' \<and> members li' = members li \<and>
    (length (liClusters li') = 1 \<or> (\<forall>c \<in> set (liClusters li'). liMergeMin li \<le> int (length (lcMembers c))))"
  using merge_loop_spec [OF assms(1), of "length (liClusters li) + 1" "[]" touched li'] assms(2)
  by (cases "liClusters li'") (auto simp: mergeUnderfull_def)

section \<open>Reassigning\<close>

text \<open>What a move must not change: everything of a member but its version.\<close>

definition payload :: "ClusterEntry \<Rightarrow> string \<times> vec \<times> attrs" where
  "payload m = (eID m, eVector m, eAttrs m)"

definition payloads :: "lireIndex \<Rightarrow> (string \<times> vec \<times> attrs) multiset" where
  "payloads li = image_mset payload (members li)"

definition unique_ids :: "lireIndex \<Rightarrow> bool" where
  "unique_ids li \<longleftrightarrow> (\<forall>i. count (image_mset fst (payloads li)) i \<le> 1)"

text \<open>\<open>mem li k m\<close>: posting \<open>k\<close> holds the entry \<open>m\<close>; \<open>frame li\<close>: what the nearest posting depends on.\<close>

definition mem :: "lireIndex \<Rightarrow> nat \<Rightarrow> ClusterEntry \<Rightarrow> bool" where
  "mem li k m \<longleftrightarrow> (\<exists>c \<in> set (liClusters li). lcID c = k \<and> m \<in> set (lcMembers c))"

definition frame :: "lireIndex \<Rightarrow> string \<times> (nat \<times> vec) list" where
  "frame li = (liMetric li, map (\<lambda>c. (lcID c, lcCentroid c)) (liClusters li))"

lemma frame_nearest: "frame li' = frame li \<Longrightarrow> nearestClusterID v skip li' = nearestClusterID v skip li"
proof -
  have "fold (nearest_step metric v skip) cs st = fold (nearest_step metric v skip) ds st"
    if "map (\<lambda>c. (lcID c, lcCentroid c)) cs = map (\<lambda>c. (lcID c, lcCentroid c)) ds" for cs ds :: "lireCluster list" and metric st
    using that
  proof (induction cs arbitrary: ds st)
    case (Cons c cs)
    then obtain d ds' where ds: "ds = d # ds'" "lcID c = lcID d" "lcCentroid c = lcCentroid d"
      "map (\<lambda>c. (lcID c, lcCentroid c)) cs = map (\<lambda>c. (lcID c, lcCentroid c)) ds'" by (cases ds) auto
    then have "nearest_step metric v skip c st = nearest_step metric v skip d st"
      by (cases st) (auto simp: nearest_step_def Let_def)
    with Cons.IH [OF ds(4)] ds(1) show ?case by simp
  qed simp
  note eq = this
  assume fr: "frame li' = frame li"
  then have "map (\<lambda>c. (lcID c, lcCentroid c)) (liClusters li') = map (\<lambda>c. (lcID c, lcCentroid c)) (liClusters li)"
    by (simp add: frame_def)
  from eq [OF this, of "liMetric li" None] fr show ?thesis by (simp add: frame_def nearestClusterID_def)
qed

lemma on_first_frame:
  "(\<And>c. lcID (f c) = lcID c \<and> lcCentroid (f c) = lcCentroid c) \<Longrightarrow> frame (on_cluster i f li) = frame li"
proof -
  assume f: "\<And>c. lcID (f c) = lcID c \<and> lcCentroid (f c) = lcCentroid c"
  have "map (\<lambda>c. (lcID c, lcCentroid c)) (on_first i f cs) = map (\<lambda>c. (lcID c, lcCentroid c)) cs" for cs
    by (induction cs) (auto simp: f)
  then show ?thesis by (simp add: frame_def on_cluster_def)
qed

lemma two_clusters:
  assumes "c \<in> set (liClusters li)" "d \<in> set (liClusters li)" "c \<noteq> d"
  obtains M where "mset (liClusters li) = add_mset c (add_mset d M)"
proof -
  have "d \<in># mset (liClusters li) - {#c#}" using assms by (simp add: in_diff_count)
  then obtain M where "mset (liClusters li) - {#c#} = add_mset d M" by (metis mset_add)
  moreover have "c \<in># mset (liClusters li)" using assms(1) by simp
  ultimately have "mset (liClusters li) = add_mset c (add_mset d M)" by (metis insert_DiffM)
  then show thesis by (rule that)
qed

lemma unique_home:
  assumes "li_ok li" "unique_ids li" "mem li k m" "mem li k' m'" "eID m = eID m'"
  shows "k = k' \<and> m = m'"
proof -
  from assms(3,4) obtain c c' where c: "c \<in> set (liClusters li)" "lcID c = k" "m \<in> set (lcMembers c)"
    "c' \<in> set (liClusters li)" "lcID c' = k'" "m' \<in> set (lcMembers c')" by (auto simp: mem_def)
  have le: "count (image_mset eID (members li)) (eID m) \<le> 1"
    using assms(2) by (simp add: unique_ids_def payloads_def payload_def image_mset.compositionality o_def)
  have eq: "c = c'"
  proof (rule ccontr)
    assume "c \<noteq> c'"
    with two_clusters [OF c(1,4)] obtain M where M: "mset (liClusters li) = add_mset c (add_mset c' M)" by blast
    have "m \<in># mset (lcMembers c)" "m' \<in># mset (lcMembers c')" using c by auto
    then obtain A B where "mset (lcMembers c) = add_mset m A" "mset (lcMembers c') = add_mset m' B" by (metis mset_add)
    with le assms(5) show False by (simp add: members_sum M)
  qed
  moreover have "m = m'"
  proof (rule ccontr)
    assume "m \<noteq> m'"
    have "m' \<in># mset (lcMembers c) - {#m#}" using c eq \<open>m \<noteq> m'\<close> by (simp add: in_diff_count)
    moreover have "m \<in># mset (lcMembers c)" using c(3) by simp
    ultimately obtain A where A: "mset (lcMembers c) = add_mset m (add_mset m' A)" by (metis insert_DiffM mset_add)
    obtain M where "mset (liClusters li) = add_mset c M" using c(1) by (metis mset_add set_mset_mset)
    with A le assms(5) show False by (simp add: members_sum)
  qed
  ultimately show ?thesis using c by simp
qed

lemma memberIndex_SomeD: "memberIndex ms i = Some k \<Longrightarrow> k < length ms \<and> eID (ms ! k) = i"
  by (auto simp: memberIndex_def find_Some_iff nth_enumerate_eq)

lemma memberIndex_None: "memberIndex ms i = None \<longleftrightarrow> i \<notin> eID ` set ms"
proof -
  have "eID ` set ms = (\<lambda>x. eID (snd x)) ` set (enumerate 0 ms)"
    by (metis image_image map_snd_enumerate set_map)
  moreover have "memberIndex ms i = None \<longleftrightarrow> \<not> (\<exists>x \<in> set (enumerate 0 ms). eID (snd x) = i)"
    by (fastforce simp: memberIndex_def find_None_iff)
  ultimately show ?thesis by auto
qed

lemma removeMemberAt_mset: "k < length ms \<Longrightarrow> add_mset (ms ! k) (mset (removeMemberAt ms k)) = mset ms"
  unfolding removeMemberAt_def by (subst (3) id_take_nth_drop [of k ms]) simp_all

definition settled :: "lireIndex \<Rightarrow> string \<Rightarrow> bool" where
  "settled li i \<longleftrightarrow> (\<forall>k m. mem li k m \<and> eID m = i \<longrightarrow> nearestClusterID (eVector m) [] li = Some k)"

text \<open>A real move: one entry goes, with a higher version, from its posting to another.\<close>

lemma move_entry:
  assumes "li_ok li" "unique_ids li" "src \<in> set (liClusters li)" "idx < length (lcMembers src)"
    and "t \<in> set (liClusters li)" "lcID t \<noteq> lcID src"
    and "nearestClusterID (eVector (lcMembers src ! idx)) [] li = Some (lcID t)"
    and "li1 = on_cluster (lcID t) (\<lambda>c. c\<lparr>lcMembers := lcMembers c @ [(lcMembers src ! idx)\<lparr>eVersion := v\<rparr>]\<rparr>) li"
    and "li' = on_cluster (lcID src) (\<lambda>c. c\<lparr>lcMembers := removeMemberAt (lcMembers c) idx\<rparr>) li1"
  shows "li_ok li' \<and> payloads li' = payloads li \<and> frame li' = frame li \<and> liNextID li' = liNextID li \<and>
    (\<forall>k m. eID m \<noteq> eID (lcMembers src ! idx) \<longrightarrow> mem li' k m = mem li k m) \<and> settled li' (eID (lcMembers src ! idx))"
proof -
  let ?e = "lcMembers src ! idx"
  let ?e' = "?e\<lparr>eVersion := v\<rparr>"
  let ?t' = "t\<lparr>lcMembers := lcMembers t @ [?e']\<rparr>" and ?s' = "src\<lparr>lcMembers := removeMemberAt (lcMembers src) idx\<rparr>"
  from assms(6) have "src \<noteq> t" by auto
  with two_clusters [OF assms(3,5)] obtain M where M: "mset (liClusters li) = add_mset src (add_mset t M)" by blast
  have d: "distinct (map lcID (liClusters li))" using assms(1) by (simp add: li_ok_def)
  have m1: "mset (liClusters li1) = add_mset src (add_mset ?t' M)"
    unfolding assms(8) on_cluster_def
    using on_first_mset [of "liClusters li" t "add_mset src M"] M d by (simp add: add_mset_commute)
  have i1: "map lcID (liClusters li1) = map lcID (liClusters li)" unfolding assms(8) on_cluster_def by simp
  have cs: "mset (liClusters li') = add_mset ?s' (add_mset ?t' M)"
    unfolding assms(9) on_cluster_def
    using on_first_mset [OF m1] i1 d by simp
  have ids: "map lcID (liClusters li') = map lcID (liClusters li)"
    unfolding assms(9) on_cluster_def using i1 by simp
  have next_id: "liNextID li' = liNextID li" unfolding assms(8,9) on_cluster_def by simp
  have img: "lcID ` set (liClusters li') = lcID ` set (liClusters li)" using arg_cong [OF ids, of set] by simp
  have "lcID c < liNextID li" if "c \<in> set (liClusters li')" for c
  proof -
    have "lcID c \<in> lcID ` set (liClusters li)" using that img by blast
    with assms(1) show ?thesis by (auto simp: li_ok_def)
  qed
  with d ids next_id have ok: "li_ok li'" by (simp add: li_ok_def)
  have "frame li1 = frame li" unfolding assms(8) by (rule on_first_frame) simp
  moreover have "frame li' = frame li1" unfolding assms(9) by (rule on_first_frame) simp
  ultimately have fr: "frame li' = frame li" by simp
  have rm: "mset (lcMembers src) = add_mset ?e (mset (removeMemberAt (lcMembers src) idx))"
    using removeMemberAt_mset [OF assms(4)] by simp
  have pl: "payloads li' = payloads li"
    by (simp add: payloads_def members_sum cs M rm payload_def add_ac)
  have set': "set (liClusters li') = {?s', ?t'} \<union> set_mset M" "set (liClusters li) = {src, t} \<union> set_mset M"
    using arg_cong [OF cs, of set_mset] arg_cong [OF M, of set_mset] by auto
  have "set (lcMembers src) = insert ?e (set (removeMemberAt (lcMembers src) idx))"
    using arg_cong [OF rm, of set_mset] by simp
  then have keep: "mem li' k m = mem li k m" if "eID m \<noteq> eID ?e" for k m
    using that unfolding mem_def set' by auto
  have "mem li' (lcID t) ?e'" unfolding mem_def set' by auto
  note mt = this
  have uq: "unique_ids li'" using assms(2) pl by (simp add: unique_ids_def)
  have "nearestClusterID (eVector m) [] li' = Some k" if "mem li' k m" "eID m = eID ?e" for k m
  proof -
    have "k = lcID t" "m = ?e'" using unique_home [OF ok uq that(1) mt] that(2) by simp_all
    then show ?thesis using assms(7) by (simp add: frame_nearest [OF fr])
  qed
  then have "settled li' (eID ?e)" by (simp add: settled_def)
  with ok pl fr next_id keep show ?thesis by blast
qed

text \<open>One candidate, and all of them.\<close>

definition placed :: "lireIndex \<Rightarrow> nat \<times> string \<Rightarrow> bool" where
  "placed li cd \<longleftrightarrow> (\<exists>m. mem li (fst cd) m \<and> eID m = snd cd)"

lemma move_cand_spec:
  assumes "li_ok li" "unique_ids li" "placed li cd" "snd cd \<notin> set moved"
    and "move_cand cd (li, moved, dirty) = (li', moved', dirty')"
  shows "li_ok li' \<and> payloads li' = payloads li \<and> frame li' = frame li \<and>
    (\<forall>k m. eID m \<noteq> snd cd \<longrightarrow> mem li' k m = mem li k m) \<and> settled li' (snd cd) \<and> set moved' \<subseteq> insert (snd cd) (set moved)"
proof -
  from assms(3) obtain src m where m: "src \<in> set (liClusters li)" "lcID src = fst cd" "m \<in> set (lcMembers src)" "eID m = snd cd"
    by (auto simp: placed_def mem_def)
  have src: "clusterByID (fst cd) li = Some src" using clusterByID_own [OF assms(1) m(1)] m(2) by simp
  obtain idx where idx: "memberIndex (lcMembers src) (snd cd) = Some idx"
    using m(3,4) memberIndex_None [of "lcMembers src" "snd cd"] by (metis imageI not_None_eq)
  note i = memberIndex_SomeD [OF idx]
  obtain target where t: "nearestClusterID (eVector (lcMembers src ! idx)) [] li = Some target"
    using m(1) nearestClusterID_None [of "eVector (lcMembers src ! idx)" "[]" li]
    by (cases "nearestClusterID (eVector (lcMembers src ! idx)) [] li") auto
  show ?thesis
  proof (cases "target = fst cd")
    case True
    have "mem li (fst cd) (lcMembers src ! idx)" using m(1,2) i by (auto simp: mem_def)
    then have "settled li (snd cd)"
      using unique_home [OF assms(1,2)] i t True unfolding settled_def by metis
    moreover have "li' = li" "moved' = moved" using assms(4,5) src idx t True by (simp_all add: move_cand_def)
    ultimately show ?thesis using assms(1) by auto
  next
    case False
    from nearestClusterID_SomeD [OF t] obtain tc where tc: "tc \<in> set (liClusters li)" "lcID tc = target" by auto
    from False tc m(2) have "lcID tc \<noteq> lcID src" by simp
    from move_entry [OF assms(1,2) m(1) conjunct1 [OF i] tc(1) this _ refl refl, of "eVersion (lcMembers src ! idx) + 1"]
      i t tc(2) m(2) assms(4,5) src idx False
    show ?thesis by (auto simp: move_cand_def Let_def)
  qed
qed

lemma move_all:
  "li_ok li \<Longrightarrow> unique_ids li \<Longrightarrow> \<forall>cd \<in> set cs. placed li cd \<and> snd cd \<notin> set moved \<Longrightarrow> distinct (map snd cs) \<Longrightarrow>
   \<forall>i \<in> S. settled li i \<and> i \<notin> snd ` set cs \<Longrightarrow>
   fold move_cand cs (li, moved, dirty) = (li', moved', dirty') \<Longrightarrow>
   li_ok li' \<and> payloads li' = payloads li \<and> frame li' = frame li \<and> (\<forall>i \<in> S \<union> snd ` set cs. settled li' i)"
proof (induction cs arbitrary: li moved dirty S)
  case (Cons cd cs)
  obtain li1 moved1 dirty1 where r: "move_cand cd (li, moved, dirty) = (li1, moved1, dirty1)" by (metis prod_cases3)
  have cd: "placed li cd" "snd cd \<notin> set moved" using Cons.prems(3) by auto
  note s = move_cand_spec [OF Cons.prems(1,2) cd r]
  then have u: "unique_ids li1" using Cons.prems(2) by (simp add: unique_ids_def)
  have keep: "placed li1 e = placed li e" if "snd e \<noteq> snd cd" for e
    using s that unfolding placed_def by metis
  have "placed li1 e \<and> snd e \<notin> set moved1" if "e \<in> set cs" for e
  proof -
    have "snd cd \<notin> snd ` set cs" using Cons.prems(4) by simp
    with imageI [OF that, of snd] have "snd e \<noteq> snd cd" by metis
    with keep [OF this] Cons.prems(3) that s show ?thesis by auto
  qed
  then have pl: "\<forall>e \<in> set cs. placed li1 e \<and> snd e \<notin> set moved1" by blast
  have st: "settled li1 i" if "settled li i" "i \<noteq> snd cd" for i
    using that s frame_nearest [of li1 li] unfolding settled_def by metis
  have S: "\<forall>i \<in> insert (snd cd) S. settled li1 i \<and> i \<notin> snd ` set cs"
    using s st Cons.prems(4,5) by auto
  have "fold move_cand cs (li1, moved1, dirty1) = (li', moved', dirty')" using Cons.prems(6) r by simp
  from Cons.IH [OF _ u pl _ S this] s Cons.prems(4) show ?case by simp
qed auto

text \<open>The candidates sit where they are said to, no id twice, and the forced ones are among them.\<close>

definition cands_ok :: "lireIndex \<Rightarrow> cands \<Rightarrow> bool" where
  "cands_ok li cs \<longleftrightarrow> distinct (map snd cs) \<and> (\<forall>cd \<in> set cs. placed li cd)"

definition grows :: "lireIndex \<Rightarrow> cands \<Rightarrow> cands \<Rightarrow> bool" where
  "grows li cs cs' \<longleftrightarrow> (cands_ok li cs \<longrightarrow> cands_ok li cs') \<and> set cs \<subseteq> set cs'"

lemma grows_refl [simp]: "grows li cs cs"
  by (simp add: grows_def)

lemma grows_trans: "grows li cs ds \<Longrightarrow> grows li ds es \<Longrightarrow> grows li cs es"
  by (auto simp: grows_def)

lemma grows_fold: "(\<And>x cs. x \<in> set xs \<Longrightarrow> grows li cs (f x cs)) \<Longrightarrow> grows li cs (fold f xs cs)"
proof (induction xs arbitrary: cs)
  case (Cons x xs)
  have "grows li cs (f x cs)" using Cons.prems by simp
  moreover have "grows li (f x cs) (fold f xs (f x cs))" using Cons.prems by (intro Cons.IH) simp
  ultimately show ?case by (simp add: grows_trans)
qed simp

lemma grows_add: "mem li k m \<Longrightarrow> grows li cs (add_cand k m cs)"
  by (auto simp: grows_def cands_ok_def add_cand_def placed_def)

lemma memI: "c \<in> set (liClusters li) \<Longrightarrow> m \<in> set (lcMembers c) \<Longrightarrow> mem li (lcID c) m"
  by (auto simp: mem_def)

lemma grows_forced: "grows li [] (forced_cands forceIDs li)"
  unfolding forced_cands_def by (intro grows_fold) (auto intro!: grows_add memI)

lemma grows_eq1: "grows li cs (eq1_cands changed oldCentroids li cs)"
  unfolding eq1_cands_def
  by (intro grows_fold) (auto dest!: clusterByID_SomeD intro!: grows_fold grows_add memI split: option.splits)

lemma grows_eq2: "grows li cs (eq2_cands changed li cs)"
  unfolding eq2_cands_def
  by (intro grows_fold) (auto dest!: clusterByID_SomeD intro!: grows_fold grows_add memI split: option.splits)

lemma fold_keeps: "(\<And>x s. P s \<Longrightarrow> P (f x s)) \<Longrightarrow> P s \<Longrightarrow> P (fold f xs s)"
  by (induction xs arbitrary: s) auto

lemma fold_reaches:
  assumes "\<And>x s. P s \<Longrightarrow> P (f x s)" "x \<in> set xs" "\<And>s. P (f x s)"
  shows "P (fold f xs s)"
proof -
  have keep: "P s \<Longrightarrow> P (fold f ys s)" for ys s using assms(1) fold_keeps by metis
  from assms(2) obtain us vs where "xs = us @ x # vs" by (auto dest: split_list)
  then have "fold f xs s = fold f vs (f x (fold f us s))" by simp
  with keep [OF assms(3)] show ?thesis by metis
qed

lemma forced_member:
  assumes "mem li k m" "eID m \<in> set forceIDs"
  shows "eID m \<in> snd ` set (forced_cands forceIDs li)"
proof -
  let ?P = "\<lambda>cs. eID m \<in> snd ` set cs"
  let ?g = "\<lambda>c m cs. if eID m \<in> set forceIDs then add_cand (lcID c) m cs else cs"
  from assms(1) obtain c where c: "c \<in> set (liClusters li)" "m \<in> set (lcMembers c)" by (auto simp: mem_def)
  have keep: "?P cs \<Longrightarrow> ?P (?g d n cs)" for d n cs by (auto simp: add_cand_def)
  have keep': "?P cs \<Longrightarrow> ?P (fold (?g d) ms cs)" for d ms cs
  proof (rule fold_keeps [where P = ?P])
    show "?P (?g d n s)" if "?P s" for n s using that by (rule keep)
  qed
  have "?P (?g c m cs)" for cs using assms(2) by (auto simp: add_cand_def)
  note hit = this
  have "?P (fold (?g c) (lcMembers c) cs)" for cs
  proof (rule fold_reaches [where P = ?P and x = m])
    show "?P (?g c n s)" if "?P s" for n s using that by (rule keep)
  qed (fact c(2), rule hit)
  note hit' = this
  show ?thesis unfolding forced_cands_def
  proof (rule fold_reaches [where P = ?P and x = c])
    show "?P (fold (?g d) (lcMembers d) s)" if "?P s" for d s using that by (rule keep')
  qed (fact c(1), rule hit')
qed

lemma recenter_all_same:
  "map (\<lambda>c. (lcID c, lcMembers c)) (liClusters (recenter_all dirty li)) = map (\<lambda>c. (lcID c, lcMembers c)) (liClusters li)
   \<and> liNextID (recenter_all dirty li) = liNextID li"
proof -
  have "map (\<lambda>c. (lcID c, lcMembers c)) (on_first i recenter cs) = map (\<lambda>c. (lcID c, lcMembers c)) cs" for i cs
    by (induction cs) auto
  then show ?thesis
    unfolding recenter_all_def by (intro fold_keeps [where P = "\<lambda>l. map (\<lambda>c. (lcID c, lcMembers c)) (liClusters l) =
      map (\<lambda>c. (lcID c, lcMembers c)) (liClusters li) \<and> liNextID l = liNextID li"]) (auto simp: on_cluster_def)
qed

lemma same_members:
  assumes "map (\<lambda>c. (lcID c, lcMembers c)) (liClusters li') = map (\<lambda>c. (lcID c, lcMembers c)) (liClusters li) \<and>
    liNextID li' = liNextID li"
  shows "mem li' k m = mem li k m" "members li' = members li" "li_ok li' = li_ok li"
proof -
  have s: "(\<lambda>c. (lcID c, lcMembers c)) ` set (liClusters li') = (\<lambda>c. (lcID c, lcMembers c)) ` set (liClusters li)"
    using arg_cong [OF conjunct1 [OF assms], of set] by simp
  have m: "mem l k m \<longleftrightarrow> (\<exists>p \<in> (\<lambda>c. (lcID c, lcMembers c)) ` set (liClusters l). fst p = k \<and> m \<in> set (snd p))" for l
    by (auto simp: mem_def)
  show "mem li' k m = mem li k m" unfolding m s ..
  have i: "map lcID (liClusters li') = map lcID (liClusters li)" "map lcMembers (liClusters li') = map lcMembers (liClusters li)"
    using arg_cong [OF conjunct1 [OF assms], of "map fst"] arg_cong [OF conjunct1 [OF assms], of "map snd"]
    by (simp_all add: o_def)
  then show "members li' = members li" by (simp add: members_def)
  have "li_ok l \<longleftrightarrow> distinct (map lcID (liClusters l)) \<and> (\<forall>n \<in> set (map lcID (liClusters l)). n < liNextID l)" for l
    by (auto simp: li_ok_def)
  note ok = this
  show "li_ok li' = li_ok li" unfolding ok i(1) using assms by simp
qed

lemma reassign_ok:
  assumes "li_ok li" "unique_ids li"
    and "reassign range1 range2 changed oldCentroids forceIDs li = (dirty, li')"
  shows "li_ok li' \<and> payloads li' = payloads li \<and>
    (\<forall>k m. mem li' k m \<and> eID m \<in> set forceIDs \<longrightarrow> nearestClusterID (eVector m) [] li = Some k)"
proof (cases "changed = [] \<and> forceIDs = []")
  case True
  with assms show ?thesis by (simp add: reassign_def)
next
  case False
  define cs1 where "cs1 = forced_cands forceIDs li"
  define cs2 where "cs2 = eq1_cands (range1 changed) oldCentroids li cs1"
  define cs where "cs = eq2_cands (range2 (filter (\<lambda>i. clusterByID i li \<noteq> None) changed)) li cs2"
  have g: "grows li [] cs1" "grows li cs1 cs"
    unfolding cs1_def cs_def cs2_def by (rule grows_forced, rule grows_trans [OF grows_eq1 grows_eq2])
  then have ok: "cands_ok li cs" by (simp add: grows_def cands_ok_def)
  obtain li1 moved dirty1 where f: "fold move_cand cs (li, [], changed) = (li1, moved, dirty1)" by (metis prod_cases3)
  have pl: "\<forall>cd \<in> set cs. placed li cd \<and> snd cd \<notin> set []" and d: "distinct (map snd cs)"
    using ok by (auto simp: cands_ok_def)
  note m = move_all [OF assms(1,2) pl d _ f, of "{}"]
  have li': "li' = recenter_all dirty1 li1" using assms(3) False f by (auto simp: reassign_def cs_def cs1_def cs2_def Let_def)
  note s = same_members [OF recenter_all_same, of dirty1 li1, folded li']
  have "nearestClusterID (eVector e) [] li = Some k" if e: "mem li' k e" "eID e \<in> set forceIDs" for k e
  proof -
    have "payloads li1 = payloads li" "frame li1 = frame li" using m by auto
    have "mem li1 k e" using e(1) s(1) by simp
    then have "payload e \<in># payloads li1" by (auto simp: mem_def payloads_def members_def)
    then have "payload e \<in># payloads li" using m by simp
    then obtain n a where a: "a \<in> set (liClusters li)" "n \<in> set (lcMembers a)" "payload n = payload e"
      by (auto simp: payloads_def members_def)
    then obtain j where n: "mem li j n" "payload n = payload e" using memI by blast
    then have "eID n = eID e" by (simp add: payload_def)
    with n(1) forced_member [of li j n forceIDs] e(2) have "eID e \<in> snd ` set cs1" by (simp add: cs1_def)
    with g(2) have "eID e \<in> snd ` set cs" by (auto simp: grows_def)
    with m have "settled li1 (eID e)" by blast
    with \<open>mem li1 k e\<close> frame_nearest [OF \<open>frame li1 = frame li\<close>] show ?thesis by (auto simp: settled_def)
  qed
  with m s(2,3) show ?thesis by (simp add: payloads_def)
qed

text \<open>
  C40. Reassignment repairs what it must and loses nothing: whatever the postings, the changed set, the
  old centroids and the order in which Go ranges over its maps, every member survives with its id,
  vector and attributes, and every forced id (a vector that was inserted or that moved) ends up in the
  posting whose centroid was nearest to it when the pass began.
\<close>

theorem reassign_settles_forced:
  assumes "li_ok li" "unique_ids li"
    and "reassign range1 range2 changed oldCentroids forceIDs li = (dirty, li')"
  shows "li_ok li' \<and> payloads li' = payloads li \<and>
    (\<forall>k m. mem li' k m \<and> eID m \<in> set forceIDs \<longrightarrow> nearestClusterID (eVector m) [] li = Some k)"
  using reassign_ok [OF assms] .

text \<open>
  The comment on \<open>reassignTopN\<close> says that the indexer defaults it generously; it never sets the field, and
  with the zero value the scan of the neighbouring postings is empty.
\<close>

lemma zero_topN_scans_nothing: "liReassignTopN li = 0 \<Longrightarrow> eq2_cands changed li cs = cs"
proof -
  assume "liReassignTopN li = 0"
  then have n: "nearbyPostings a i li = []" for a i by (simp add: nearbyPostings_def)
  show ?thesis unfolding eq2_cands_def by (induction changed arbitrary: cs) (auto simp: n split: option.splits)
qed

section \<open>Witnesses\<close>

definition demo_entry :: "string \<Rightarrow> vec \<Rightarrow> ClusterEntry" where
  "demo_entry i v = \<lparr>eID = i, eVector = v, eCode = [], eRaBitQ = None, eAttrs = [], eVersion = 0\<rparr>"

definition demo_lire :: lireIndex where
  "demo_lire = \<lparr>liClusters =
      [\<lparr>lcID = 0, lcCentroid = [Fin 0, Fin 1], lcMembers = [demo_entry ''a'' [Fin 0, Fin 1], demo_entry ''b'' [Fin 5, Fin 0]]\<rparr>,
       \<lparr>lcID = 1, lcCentroid = [Fin 5, Fin 0], lcMembers = [demo_entry ''c'' [Fin 6, Fin 0]]\<rparr>],
     liNextID = 2, liMetric = ''euclidean'', liDim = 2, liSplitCap = 1, liMergeMin = 2, liReassignTopN = 0\<rparr>"

lemma demo_lire_ok: "li_ok demo_lire"
  by (simp add: li_ok_def demo_lire_def)

lemma demo_lire_unique: "unique_ids demo_lire"
  by (auto simp: unique_ids_def payloads_def members_def payload_def demo_lire_def demo_entry_def)

theorem splitOversized_within_cap_witness:
  "\<exists>touched li'. splitOversized (\<lambda>_. no_draws) demo_lire = (touched, li') \<and> members li' = members demo_lire \<and>
    list_all (\<lambda>c. length (lcMembers c) \<le> 1) (liClusters li')"
proof -
  obtain touched li' where s: "splitOversized (\<lambda>_. no_draws) demo_lire = (touched, li')" by fastforce
  from splitOversized_within_cap [OF demo_lire_ok _ s] s show ?thesis
    by (auto simp: demo_lire_def list_all_iff)
qed

theorem mergeUnderfull_above_floor_witness:
  "\<exists>touched li'. mergeUnderfull demo_lire = (touched, li') \<and> members li' = members demo_lire \<and>
    (length (liClusters li') = 1 \<or> list_all (\<lambda>c. 2 \<le> length (lcMembers c)) (liClusters li'))"
proof -
  obtain touched li' where s: "mergeUnderfull demo_lire = (touched, li')" by fastforce
  from mergeUnderfull_above_floor [OF demo_lire_ok s] s show ?thesis
    by (auto simp: demo_lire_def list_all_iff)
qed

theorem reassign_settles_forced_witness:
  "\<exists>dirty li'. reassign (\<lambda>xs. xs) rev [0] [] [''b''] demo_lire = (dirty, li') \<and>
    payloads li' = payloads demo_lire \<and> mem li' 1 ((demo_entry ''b'' [Fin 5, Fin 0])\<lparr>eVersion := 1\<rparr>) \<and>
    nearestClusterID [Fin 5, Fin 0] [] demo_lire = Some 1"
proof -
  let ?x = "reassign (\<lambda>xs. xs) rev [0] [] [''b''] demo_lire"
  obtain dirty li' where r: "?x = (dirty, li')" by fastforce
  let ?b = "(demo_entry ''b'' [Fin 5, Fin 0])\<lparr>eVersion := 1\<rparr>"
  have "list_ex (\<lambda>c. lcID c = 1 \<and> list_ex (\<lambda>m. m = ?b) (lcMembers c)) (liClusters (snd ?x))" by code_simp
  then have m: "mem li' 1 ?b" using r by (auto simp: mem_def list_ex_iff)
  have "eID ?b \<in> set [''b'']" "eVector ?b = [Fin 5, Fin 0]" by (simp_all add: demo_entry_def)
  with reassign_settles_forced [OF demo_lire_ok demo_lire_unique r] m have
    "nearestClusterID [Fin 5, Fin 0] [] demo_lire = Some 1" "payloads li' = payloads demo_lire" by metis+
  with r m show ?thesis by blast
qed

end
