(* ===== verification/Indexer.thy ===== *)
theory Indexer
  imports Lire Manifest
begin

text \<open>
  How \<open>indexer.go\<close> clusters the live vectors of an epoch: from scratch, or by carrying the previous
  epoch forward through \<open>lire.go\<close>.  Either way the clusters partition the live ids.
\<close>

text \<open>
  What the build takes from outside: the pseudo-random source of \<open>math/rand\<close> by seed, and the orders
  in which Go happens to range over two maps.
\<close>

record genv =
  gSource :: "int \<Rightarrow> rng"
  gRange1 :: "nat list \<Rightarrow> nat list"
  gRange2 :: "nat list \<Rightarrow> nat list"

type_synonym live = "(string, Document) gomap"

definition vec_of :: "live \<Rightarrow> string \<Rightarrow> vec" where
  "vec_of live i = (case map_of live i of Some d \<Rightarrow> (case dVector d of Some v \<Rightarrow> v | None \<Rightarrow> []) | None \<Rightarrow> [])"

definition attrs_of :: "live \<Rightarrow> string \<Rightarrow> attrs" where
  "attrs_of live i = (case map_of live i of Some d \<Rightarrow> dAttributes d | None \<Rightarrow> [])"

type_synonym clustering = "vec list \<times> string list list \<times> (string, int) gomap"

section \<open>From scratch\<close>

definition fullCluster :: "(int \<Rightarrow> rng) \<Rightarrow> string \<Rightarrow> string list \<Rightarrow> live \<Rightarrow> clustering" where
  "fullCluster source metric ids live =
     (let points = map (vec_of live) ids;
          k = ChooseK (int (length points));
          (cs, assign) = KMeans source points k metric kmeansIters
      in (cs, map (\<lambda>c. map snd (filter (\<lambda>(a, i). a = c) (zip assign ids))) [0..<length cs], []))"

section \<open>Incrementally\<close>

definition splitCapMultiplier :: int where "splitCapMultiplier = 2"
definition mergeMinDivisor :: int where "mergeMinDivisor = 2"

definition splitCap :: "int \<Rightarrow> int \<Rightarrow> int" where
  "splitCap n k = (let k = (if k < 1 then 1 else k); cap = (n div k) * splitCapMultiplier in if cap < 1 then 1 else cap)"

definition mergeMin :: "int \<Rightarrow> int \<Rightarrow> int" where
  "mergeMin n k = (let k = (if k < 1 then 1 else k); m = (n div k) div mergeMinDivisor in if m < 1 then 1 else m)"

definition empty_lire :: "string \<Rightarrow> nat \<Rightarrow> lireIndex" where
  "empty_lire metric dimn = \<lparr>liClusters = [], liNextID = 0, liMetric = metric, liDim = dimn,
     liSplitCap = 0, liMergeMin = 0, liReassignTopN = 0\<rparr>"

text \<open>The loop over the previous epoch's cluster objects; \<open>i\<close> is the next index.\<close>

fun load_clusters :: "string \<Rightarrow> int \<Rightarrow> nat \<Rightarrow> vec list \<Rightarrow> lireIndex \<times> (nat, vec) gomap \<Rightarrow> db
    \<Rightarrow> (lireIndex \<times> (nat, vec) gomap) option \<times> db" where
  "load_clusters ns epoch i [] acc s = (Some acc, s)"
| "load_clusters ns epoch i (c # cs) (li, old) s = (case GetCached (clusterKey ns epoch (int i)) s of
     (Inr (WCluster clf), s) \<Rightarrow>
       load_clusters ns epoch (Suc i) cs
         (li\<lparr>liClusters := liClusters li @ [\<lparr>lcID = i, lcCentroid = c, lcMembers = clMembers clf\<rparr>],
             liNextID := i + 1\<rparr>, AList.update i c old) s
   | (_, s) \<Rightarrow> (None, s))"

definition loadPrevEpoch :: "string \<Rightarrow> int \<Rightarrow> string \<Rightarrow> db \<Rightarrow> (lireIndex \<times> (nat, vec) gomap) option \<times> db" where
  "loadPrevEpoch ns prevEpoch metric s = (case GetCached (centroidsKey ns prevEpoch) s of
     (Inr (WCentroids cf), s) \<Rightarrow>
       if cfCentroids cf = [] then (None, s)
       else load_clusters ns prevEpoch 0 (cfCentroids cf) (empty_lire metric (cfDimension cf), []) s
   | (_, s) \<Rightarrow> (None, s))"

text \<open>Step 1: members that are no longer live go, and their postings are touched.\<close>

definition keep_live :: "string list \<Rightarrow> lireIndex \<Rightarrow> lireIndex \<times> string list \<times> nat list" where
  "keep_live ids li =
     (let kept = map (\<lambda>c. c\<lparr>lcMembers := filter (\<lambda>m. eID m \<in> set ids) (lcMembers c)\<rparr>) (liClusters li)
      in (li\<lparr>liClusters := kept\<rparr>, concat (map (\<lambda>c. map eID (lcMembers c)) kept),
          map lcID (filter (\<lambda>c. list_ex (\<lambda>m. eID m \<notin> set ids) (lcMembers c)) (liClusters li))))"

definition equalVec :: "vec \<Rightarrow> vec \<Rightarrow> bool" where
  "equalVec a b \<longleftrightarrow> length a = length b \<and> list_all (\<lambda>(x, y). flt_eq x y) (zip a b)"

fun refresh_loop :: "string \<Rightarrow> vec \<Rightarrow> lireCluster list \<Rightarrow> lireCluster list \<times> (nat \<times> bool) option" where
  "refresh_loop i v [] = ([], None)"
| "refresh_loop i v (c # cs) = (case memberIndex (lcMembers c) i of
     Some k \<Rightarrow> (c\<lparr>lcMembers := (lcMembers c)[k := (lcMembers c ! k)\<lparr>eVector := v\<rparr>]\<rparr> # cs,
        Some (lcID c, \<not> equalVec (eVector (lcMembers c ! k)) v))
   | None \<Rightarrow> (case refresh_loop i v cs of (cs, r) \<Rightarrow> (c # cs, r)))"

definition refreshMemberVector :: "lireIndex \<Rightarrow> string \<Rightarrow> vec \<Rightarrow> lireIndex \<times> (nat \<times> bool) option" where
  "refreshMemberVector li i v = (case refresh_loop i v (liClusters li) of (cs, r) \<Rightarrow> (li\<lparr>liClusters := cs\<rparr>, r))"

text \<open>Step 2, one live id: refreshed in place when it was carried, inserted when it is new.\<close>

definition place_id :: "live \<Rightarrow> string list \<Rightarrow> string \<Rightarrow>
    lireIndex \<times> nat list \<times> string list \<Rightarrow> lireIndex \<times> nat list \<times> string list" where
  "place_id live present i st = (case st of (li, touched, moved) \<Rightarrow>
     let v = vec_of live i in
     if i \<in> set present then
       (case refreshMemberVector li i v of
          (li, Some (cid, changed)) \<Rightarrow> (li, List.insert cid touched, if changed then List.insert i moved else moved)
        | (li, None) \<Rightarrow> (li, touched, moved))
     else
       (case insertNearest \<lparr>eID = i, eVector = v, eCode = [], eRaBitQ = None,
           eAttrs = attrs_of live i, eVersion = 0\<rparr> li of
          (landed, li) \<Rightarrow> (li, List.insert landed touched, List.insert i moved)))"

definition pruneEmpty :: "lireIndex \<Rightarrow> lireIndex" where
  "pruneEmpty li = li\<lparr>liClusters := filter (\<lambda>c. lcMembers c \<noteq> []) (liClusters li)\<rparr>"

definition version_map :: "ClusterEntry list \<Rightarrow> (string, int) gomap" where
  "version_map ms = fold (\<lambda>m vs. if eVersion m \<noteq> 0 then AList.update (eID m) (eVersion m) vs else vs) ms []"

definition snapshot :: "lireIndex \<Rightarrow> clustering option" where
  "snapshot li = (if liClusters li = [] then None
     else (let cs = sort_by (\<lambda>a b. lcID a < lcID b) (liClusters li) in
       Some (map lcCentroid cs, map (\<lambda>c. sort (map eID (lcMembers c))) cs,
         version_map (concat (map lcMembers cs)))))"

text \<open>Step 3: the pure part of \<open>incrementalCluster\<close>, after the previous epoch has been loaded.\<close>

definition rebalance :: "genv \<Rightarrow> nat list \<Rightarrow> string list \<Rightarrow> (nat, vec) gomap \<Rightarrow> lireIndex \<Rightarrow> lireIndex" where
  "rebalance env touched moved old li =
     (let n = int (totalMembers li); k = int (length (liClusters li));
          li = li\<lparr>liSplitCap := splitCap n k, liMergeMin := mergeMin n k\<rparr>;
          (splitTouched, li) = splitOversized (gSource env) li;
          (mergeTouched, li) = mergeUnderfull li;
          changed = fold List.insert touched (fold List.insert mergeTouched splitTouched);
          (dirty, li) = reassign (gRange1 env) (gRange2 env) changed old moved li
      in li)"

definition carry_forward :: "genv \<Rightarrow> string list \<Rightarrow> live \<Rightarrow> lireIndex \<Rightarrow> (nat, vec) gomap \<Rightarrow> clustering option" where
  "carry_forward env ids live li old =
     (let (li, present, touched) = keep_live ids li;
          (li, touched, moved) = fold (place_id live present) ids (li, touched, []);
          li = recenter_all touched li
      in snapshot (pruneEmpty (rebalance env touched moved old li)))"

definition incrementalCluster :: "genv \<Rightarrow> string \<Rightarrow> int \<Rightarrow> string \<Rightarrow> string list \<Rightarrow> live \<Rightarrow> db \<Rightarrow> clustering option \<times> db" where
  "incrementalCluster env ns prevEpoch metric ids live s = (case loadPrevEpoch ns prevEpoch metric s of
     (None, s) \<Rightarrow> (None, s)
   | (Some (li, old), s) \<Rightarrow> (carry_forward env ids live li old, s))"

definition clusterLive :: "genv \<Rightarrow> string \<Rightarrow> int \<Rightarrow> string \<Rightarrow> string list \<Rightarrow> live \<Rightarrow> db \<Rightarrow> clustering \<times> db" where
  "clusterLive env ns prevEpoch metric ids live s =
     (if prevEpoch > 0 then
        (case incrementalCluster env ns prevEpoch metric ids live s of
           (Some c, s) \<Rightarrow> (c, s)
         | (None, s) \<Rightarrow> (fullCluster (gSource env) metric ids live, s))
      else (fullCluster (gSource env) metric ids live, s))"

section \<open>The ids of a working set\<close>

definition idms :: "lireIndex \<Rightarrow> string multiset" where
  "idms li = image_mset eID (members li)"

lemma payloads_idms: "image_mset fst (payloads li) = idms li"
  by (simp add: payloads_def idms_def payload_def image_mset.compositionality o_def)

lemma unique_ids_idms: "unique_ids li \<longleftrightarrow> (\<forall>i. count (idms li) i \<le> 1)"
  by (simp add: unique_ids_def payloads_idms)

lemma idms_concat: "idms li = mset (concat (map (\<lambda>c. map eID (lcMembers c)) (liClusters li)))"
  by (simp add: idms_def members_def map_concat o_def flip: mset_map)

lemma keep_live_spec:
  assumes "keep_live ids li = (li', present, touched)" "li_ok li"
  shows "li_ok li' \<and> idms li' = filter_mset (\<lambda>i. i \<in> set ids) (idms li) \<and> mset present = idms li'"
proof -
  have li': "li' = li\<lparr>liClusters := map (\<lambda>c. c\<lparr>lcMembers := filter (\<lambda>m. eID m \<in> set ids) (lcMembers c)\<rparr>) (liClusters li)\<rparr>"
    and p: "present = concat (map (\<lambda>c. map eID (lcMembers c)) (liClusters li'))"
    using assms(1) by (auto simp: keep_live_def Let_def)
  have "concat (map (\<lambda>c. map eID (filter (\<lambda>m. eID m \<in> set ids) (lcMembers c))) cs) =
      filter (\<lambda>i. i \<in> set ids) (concat (map (\<lambda>c. map eID (lcMembers c)) cs))" for cs :: "lireCluster list"
    by (induction cs) (simp_all add: filter_map o_def)
  from this [of "liClusters li"] have "idms li' = filter_mset (\<lambda>i. i \<in> set ids) (idms li)"
    by (simp add: idms_concat li' o_def flip: mset_filter)
  moreover have "li_ok li'" using assms(2) by (auto simp: li_ok_def li' o_def)
  ultimately show ?thesis using p by (simp add: idms_concat)
qed

lemma refresh_loop_spec:
  "refresh_loop i v cs = (cs', r) \<Longrightarrow> map lcID cs' = map lcID cs \<and>
   map (\<lambda>c. map eID (lcMembers c)) cs' = map (\<lambda>c. map eID (lcMembers c)) cs"
proof (induction cs arbitrary: cs' r)
  case (Cons c cs)
  show ?case
  proof (cases "memberIndex (lcMembers c) i")
    case None
    with Cons show ?thesis by (auto split: prod.splits)
  next
    case (Some k)
    from memberIndex_SomeD [OF Some] have "map eID ((lcMembers c)[k := (lcMembers c ! k)\<lparr>eVector := v\<rparr>]) = map eID (lcMembers c)"
      by (simp add: map_update list_update_same_conv)
    with Cons.prems Some show ?thesis by auto
  qed
qed simp

lemma li_ok_ids: "li_ok li \<longleftrightarrow> distinct (map lcID (liClusters li)) \<and> (\<forall>n \<in> set (map lcID (liClusters li)). n < liNextID li)"
  by (auto simp: li_ok_def)

lemma refresh_spec:
  assumes "refreshMemberVector li i v = (li', r)"
  shows "li_ok li' = li_ok li \<and> idms li' = idms li"
proof -
  obtain cs where r: "refresh_loop i v (liClusters li) = (cs, r)" "li' = li\<lparr>liClusters := cs\<rparr>"
    using assms by (auto simp: refreshMemberVector_def split: prod.splits)
  from refresh_loop_spec [OF r(1)] r(2)
  have "map lcID (liClusters li') = map lcID (liClusters li)" "liNextID li' = liNextID li"
    "map (\<lambda>c. map eID (lcMembers c)) (liClusters li') = map (\<lambda>c. map eID (lcMembers c)) (liClusters li)" by simp_all
  then show ?thesis unfolding li_ok_ids idms_concat by metis
qed

lemma insertNearest_spec:
  assumes "insertNearest entry li = (k, li')" "li_ok li"
  shows "li_ok li' \<and> idms li' = add_mset (eID entry) (idms li)"
proof (cases "nearestClusterID (eVector entry) [] li")
  case None
  then have "liClusters li = []" by (cases "liClusters li") (auto simp: nearestClusterID_None)
  with None assms show ?thesis by (auto simp: insertNearest_def li_ok_def idms_def members_def)
next
  case (Some i)
  from nearestClusterID_SomeD [OF Some] obtain c where c: "c \<in> set (liClusters li)" "lcID c = i" by auto
  from c(1) obtain M where M: "mset (liClusters li) = add_mset c M" by (metis mset_add set_mset_mset)
  have d: "distinct (map lcID (liClusters li))" using assms(2) by (simp add: li_ok_def)
  let ?f = "\<lambda>c. c\<lparr>lcMembers := lcMembers c @ [entry]\<rparr>"
  have li': "li' = on_cluster i ?f li" using assms(1) Some by (auto simp: insertNearest_def)
  have cs: "mset (liClusters li') = add_mset (?f c) M"
    using on_first_mset [OF M d, of ?f] c(2) by (simp add: li' on_cluster_def)
  then have "idms li' = add_mset (eID entry) (idms li)"
    by (simp add: idms_def members_sum M)
  moreover have "map lcID (liClusters li') = map lcID (liClusters li)" "liNextID li' = liNextID li"
    by (simp_all add: li' on_cluster_def)
  then have "li_ok li'" using assms(2) unfolding li_ok_ids by metis
  ultimately show ?thesis by blast
qed

lemma place_ids_spec:
  "li_ok li \<Longrightarrow> fold (place_id live present) ids (li, touched, moved) = (li', touched', moved') \<Longrightarrow>
   li_ok li' \<and> idms li' = idms li + mset (filter (\<lambda>i. i \<notin> set present) ids)"
proof (induction ids arbitrary: li touched moved)
  case (Cons i ids)
  obtain li1 t1 m1 where p: "place_id live present i (li, touched, moved) = (li1, t1, m1)" by (metis prod_cases3)
  have "li_ok li1 \<and> idms li1 = idms li + mset (filter (\<lambda>i. i \<notin> set present) [i])"
  proof (cases "i \<in> set present")
    case True
    with p refresh_spec Cons.prems(1) show ?thesis
      by (auto simp: place_id_def Let_def split: prod.splits option.splits)
  next
    case False
    with p Cons.prems(1) insertNearest_spec show ?thesis
      by (auto simp: place_id_def Let_def split: prod.splits dest!: insertNearest_spec)
  qed
  with Cons.IH [of li1 t1 m1] Cons.prems(2) p show ?case by auto
qed simp

lemma rebalance_spec:
  assumes "li_ok li" "unique_ids li"
  shows "li_ok (rebalance env touched moved old li) \<and> idms (rebalance env touched moved old li) = idms li"
proof -
  let ?n = "int (totalMembers li)" and ?k = "int (length (liClusters li))"
  define li1 where "li1 = li\<lparr>liSplitCap := splitCap ?n ?k, liMergeMin := mergeMin ?n ?k\<rparr>"
  obtain st li2 where s: "splitOversized (gSource env) li1 = (st, li2)" by fastforce
  obtain mt li3 where m: "mergeUnderfull li2 = (mt, li3)" by fastforce
  let ?ch = "fold List.insert touched (fold List.insert mt st)"
  obtain dirty li4 where r: "reassign (gRange1 env) (gRange2 env) ?ch old moved li3 = (dirty, li4)" by fastforce
  have reb: "rebalance env touched moved old li = li4"
    using s m r by (simp add: rebalance_def li1_def [symmetric] Let_def)
  have ok1: "li_ok li1" "members li1 = members li" using assms(1) by (simp_all add: li1_def li_ok_def members_def)
  have "1 \<le> liSplitCap li1" by (simp add: li1_def splitCap_def Let_def)
  from splitOversized_ok [OF ok1(1) this s] have s': "li_ok li2" "members li2 = members li1" by auto
  from merge_loop_spec [OF s'(1), of "length (liClusters li2) + 1" "[]" mt li3] m
  have m': "li_ok li3" "members li3 = members li2" by (auto simp: mergeUnderfull_def)
  then have i3: "idms li3 = idms li" using s' ok1 by (simp add: idms_def)
  then have "unique_ids li3" using assms(2) by (simp add: unique_ids_idms)
  from reassign_ok [OF m'(1) this r] have "li_ok li4" "payloads li4 = payloads li3" by auto
  then show ?thesis using i3 payloads_idms [of li4] payloads_idms [of li3] by (simp add: reb)
qed

lemma snapshot_spec:
  assumes "snapshot (pruneEmpty li) = Some (centroids, memberIDs, versions)"
  shows "length memberIDs = length centroids \<and> mset (concat memberIDs) = idms li \<and> [] \<notin> set memberIDs"
proof -
  let ?cs = "sort_by (\<lambda>a b. lcID a < lcID b) (liClusters (pruneEmpty li))"
  have c: "centroids = map lcCentroid ?cs" "memberIDs = map (\<lambda>c. sort (map eID (lcMembers c))) ?cs"
    using assms by (auto simp: snapshot_def Let_def split: if_splits)
  have "mset (concat (map (\<lambda>c. sort (map eID (lcMembers c))) cs)) = (\<Sum>c \<in># mset cs. image_mset eID (mset (lcMembers c)))"
    for cs :: "lireCluster list" by (induction cs) auto
  from this [of ?cs] have "mset (concat memberIDs) = (\<Sum>c \<in># mset (liClusters (pruneEmpty li)). image_mset eID (mset (lcMembers c)))"
    by (simp add: c)
  also have "\<dots> = idms li"
  proof -
    have "(\<Sum>c \<in># mset (filter (\<lambda>c. lcMembers c \<noteq> []) cs). image_mset eID (mset (lcMembers c))) =
        image_mset eID (\<Sum>c \<in># mset cs. mset (lcMembers c))" for cs :: "lireCluster list"
      by (induction cs) auto
    then show ?thesis by (simp add: pruneEmpty_def idms_def members_sum)
  qed
  finally have "mset (concat memberIDs) = idms li" .
  moreover have "[] \<notin> set memberIDs"
  proof
    assume "[] \<in> set memberIDs"
    then obtain c where "c \<in> set ?cs" "sort (map eID (lcMembers c)) = []" by (auto simp: c)
    then have "lcMembers c = []" by (metis length_0_conv length_map length_sort)
    with \<open>c \<in> set ?cs\<close> show False by (simp add: pruneEmpty_def)
  qed
  ultimately show ?thesis by (simp add: c)
qed

text \<open>Carrying an epoch forward: whatever it held, the result holds the live ids, each once.\<close>

lemma carry_forward_partition:
  assumes "li_ok li" "unique_ids li" "distinct ids"
    and "carry_forward env ids live li old = Some (centroids, memberIDs, versions)"
  shows "length memberIDs = length centroids \<and> mset (concat memberIDs) = mset ids \<and> [] \<notin> set memberIDs"
proof -
  obtain li1 present t1 where k: "keep_live ids li = (li1, present, t1)" by (metis prod_cases3)
  obtain li2 touched moved where p: "fold (place_id live present) ids (li1, t1, []) = (li2, touched, moved)" by (metis prod_cases3)
  let ?li3 = "recenter_all touched li2"
  note k' = keep_live_spec [OF k assms(1)]
  from place_ids_spec [OF _ p] k' have p': "li_ok li2" "idms li2 = mset present + mset (filter (\<lambda>i. i \<notin> set present) ids)"
    by auto
  have "count (mset present) i \<le> 1" for i
    using k' assms(2) by (simp add: unique_ids_idms)
  then have d: "distinct present" by (simp add: distinct_count_atmost_1 count_mset le_Suc_eq)
     (metis count_list_0_iff le_less less_one)
  have "set present \<subseteq> set ids"
    using k' by (metis filter_mset_eq_conv mem_Collect_eq set_mset_filter set_mset_mset subsetI)
  then have "set present \<union> {i \<in> set ids. i \<notin> set present} = set ids" by blast
  with d assms(3) have i2: "idms li2 = mset ids"
    unfolding p'(2) mset_append [symmetric]
    by (intro set_eq_iff_mset_eq_distinct [THEN iffD1]) auto
  have s3: "li_ok ?li3" "idms ?li3 = mset ids"
    using same_members [OF recenter_all_same [of touched li2]] p'(1) i2 by (simp_all add: idms_def)
  have "unique_ids ?li3" unfolding unique_ids_idms s3(2)
    using assms(3) by (simp add: distinct_count_atmost_1)
  from rebalance_spec [OF s3(1) this, of env touched moved old] s3(2)
  have "idms (rebalance env touched moved old ?li3) = mset ids" by simp
  moreover have "snapshot (pruneEmpty (rebalance env touched moved old ?li3)) = Some (centroids, memberIDs, versions)"
    using assms(4) k p by (simp add: carry_forward_def)
  ultimately show ?thesis using snapshot_spec by metis
qed

section \<open>Clustering the live set\<close>

lemma fullCluster_partition:
  assumes "ids \<noteq> []" "fullCluster source metric ids live = (centroids, memberIDs, versions)"
  shows "length memberIDs = length centroids \<and> mset (concat memberIDs) = mset ids"
proof -
  let ?pts = "map (vec_of live) ids"
  obtain cs assign g where km: "kMeans ?pts (ChooseK (int (length ?pts))) metric kmeansIters (source 1) = (cs, assign, g)"
    by (metis prod_cases3)
  have "?pts \<noteq> []" using assms(1) by simp
  from kMeans_shaped [OF this km] have s: "length assign = length ids" "\<forall>a \<in> set assign. a < length cs"
    by (auto simp: shaped_def)
  have r: "centroids = cs" "memberIDs = map (\<lambda>c. map snd (filter (\<lambda>(a, i). a = c) (zip assign ids))) [0..<length cs]"
    using assms(2) km by (auto simp: fullCluster_def KMeans_def Let_def)
  show ?thesis unfolding r using buckets_mset [OF s] by simp
qed

lemma load_clusters_ok:
  "load_clusters ns epoch i cs (li, old) s = (Some (li', old'), s') \<Longrightarrow>
   li_ok li \<Longrightarrow> liNextID li = i \<Longrightarrow> li_ok li'"
proof (induction cs arbitrary: i li old s)
  case (Cons c cs)
  from Cons.prems(1) obtain clf :: ClusterFile and s1 where
    r: "load_clusters ns epoch (Suc i) cs
         (li\<lparr>liClusters := liClusters li @ [\<lparr>lcID = i, lcCentroid = c, lcMembers = clMembers clf\<rparr>],
             liNextID := i + 1\<rparr>, AList.update i c old) s1 = (Some (li', old'), s')"
    by (auto split: prod.splits sum.splits wire.splits)
  have "li_ok (li\<lparr>liClusters := liClusters li @ [\<lparr>lcID = i, lcCentroid = c, lcMembers = clMembers clf\<rparr>], liNextID := i + 1\<rparr>)"
    using Cons.prems(2,3) by (auto simp: li_ok_def less_Suc_eq)
  from Cons.IH [OF r this] show ?case by simp
qed simp

lemma loadPrevEpoch_ok: "loadPrevEpoch ns prevEpoch metric s = (Some (li, old), s') \<Longrightarrow> li_ok li"
proof -
  assume "loadPrevEpoch ns prevEpoch metric s = (Some (li, old), s')"
  then obtain cf :: CentroidsFile and s1
    where "load_clusters ns prevEpoch 0 (cfCentroids cf) (empty_lire metric (cfDimension cf), []) s1 = (Some (li, old), s')"
    by (auto simp: loadPrevEpoch_def split: prod.splits sum.splits wire.splits if_splits)
  from load_clusters_ok [OF this] show ?thesis by (simp add: empty_lire_def li_ok_def)
qed

lemma clusterLive_partition:
  assumes "distinct ids" "ids \<noteq> []"
    and "\<And>li old s1. loadPrevEpoch ns prevEpoch metric s = (Some (li, old), s1) \<Longrightarrow> unique_ids li"
    and "clusterLive env ns prevEpoch metric ids live s = ((centroids, memberIDs, versions), s')"
  shows "length memberIDs = length centroids \<and> mset (concat memberIDs) = mset ids"
proof (cases "\<exists>c s1. prevEpoch > 0 \<and> incrementalCluster env ns prevEpoch metric ids live s = (Some c, s1)")
  case True
  then obtain li old s1 s2 where l: "loadPrevEpoch ns prevEpoch metric s = (Some (li, old), s1)"
    and c: "carry_forward env ids live li old = Some (centroids, memberIDs, versions)"
    using assms(4) by (auto simp: clusterLive_def incrementalCluster_def split: prod.splits option.splits)
  from carry_forward_partition [OF loadPrevEpoch_ok [OF l] assms(3) [OF l] assms(1) c] show ?thesis by blast
next
  case False
  then have "fullCluster (gSource env) metric ids live = (centroids, memberIDs, versions)"
    using assms(4) by (auto simp: clusterLive_def split: prod.splits option.splits if_splits)
  from fullCluster_partition [OF assms(2) this] show ?thesis .
qed



end
