(* ===== verification/Epoch.thy ===== *)
theory Epoch
  imports Indexer RaBitQ BM25 Bitmap Durability
begin

text \<open>
  The objects of an index epoch and \<open>BuildIndex\<close> of \<open>indexer.go\<close>: the vector index, the inverted index,
  the attribute bitmaps and the documents, written under a fresh prefix and published by one manifest
  write.  \<open>json.Marshal\<close> fails on NaN and the infinities; everything else that the builders produce
  survives the round trip unchanged (attributes were decoded from a segment before).
\<close>

section \<open>Writing an object\<close>

fun tree_ok :: "CentroidNode \<Rightarrow> bool" where
  "tree_ok (CentroidNode c ch l) \<longleftrightarrow> list_all fin c \<and> list_all tree_ok ch"

definition attrs_ok :: "attrs \<Rightarrow> bool" where
  "attrs_ok as \<longleftrightarrow> list_all (\<lambda>(k, v). json_val_ok v) as"

definition entry_ok :: "ClusterEntry \<Rightarrow> bool" where
  "entry_ok e \<longleftrightarrow> list_all fin (eVector e) \<and> attrs_ok (eAttrs e) \<and>
     (case eRaBitQ e of None \<Rightarrow> True | Some c \<Rightarrow> fin (cResidualNorm c) \<and> fin (cOOAlign c))"

fun wire_ok :: "wire \<Rightarrow> bool" where
  "wire_ok (WCentroids cf) \<longleftrightarrow> list_all (list_all fin) (cfCentroids cf) \<and>
     (case cfRotation cf of None \<Rightarrow> True | Some r \<Rightarrow> list_all (list_all fin) (rotRows r)) \<and>
     (case cfTree cf of None \<Rightarrow> True | Some t \<Rightarrow> tree_ok t)"
| "wire_ok (WCluster clf) \<longleftrightarrow> list_all fin (clCentroid clf) \<and> list_all entry_ok (clMembers clf)"
| "wire_ok (WBM25 b) \<longleftrightarrow> fin (bAvgDL b)"
| "wire_ok (WDocs d) \<longleftrightarrow> list_all (\<lambda>(i, as). attrs_ok as) (dfDocs d)"
| "wire_ok _ \<longleftrightarrow> True"

definition putJSON :: "string \<Rightarrow> wire \<Rightarrow> db \<Rightarrow> (err + unit) \<times> db" where
  "putJSON key v s = (if \<not> wire_ok v then (Inl EncodeErr, s)
     else (case Store_Put key v s of
       (Inl e, s) \<Rightarrow> (Inl (StoreErr e), s)
     | (Inr etag, s) \<Rightarrow> (Inr (), s)))"

section \<open>The vector index\<close>

definition treeFanout :: int where "treeFanout = 8"
definition treeLeafCapacity :: nat where "treeLeafCapacity = 1"
definition rotationSeed :: int where "rotationSeed = 1"

definition version_of :: "(string, int) gomap \<Rightarrow> string \<Rightarrow> int" where
  "version_of vs i = (case map_of vs i of Some v \<Rightarrow> v | None \<Rightarrow> 0)"

definition cluster_entry :: "live \<Rightarrow> (string, int) gomap \<Rightarrow> Rotation \<Rightarrow> vec \<Rightarrow> string \<Rightarrow> ClusterEntry" where
  "cluster_entry live versions rot centroid i =
     \<lparr>eID = i, eVector = vec_of live i, eCode = ResidualCode (vec_of live i) centroid,
      eRaBitQ = Some (EncodeRaBitQ (vec_of live i) centroid rot), eAttrs = attrs_of live i,
      eVersion = version_of versions i\<rparr>"

definition cluster_of :: "string list list \<Rightarrow> (string, int) gomap" where
  "cluster_of memberIDs = fold (\<lambda>(c, ids) m. fold (\<lambda>i. AList.update i (int c)) ids m) (enumerate 0 memberIDs) []"

fun write_clusters :: "string \<Rightarrow> int \<Rightarrow> nat \<Rightarrow> (vec \<times> ClusterEntry list) list \<Rightarrow> db \<Rightarrow> (err + unit) \<times> db" where
  "write_clusters ns epoch c [] s = (Inr (), s)"
| "write_clusters ns epoch c ((centroid, ms) # rest) s =
     (case putJSON (clusterKey ns epoch (int c)) (WCluster \<lparr>clCluster = c, clCentroid = centroid, clMembers = ms\<rparr>) s of
        (Inl e, s) \<Rightarrow> (Inl e, s)
      | (Inr _, s) \<Rightarrow> write_clusters ns epoch (Suc c) rest s)"

definition vector_ids :: "live \<Rightarrow> string list" where
  "vector_ids live = sort (map fst (filter (\<lambda>(i, d). dVector d \<noteq> None) live))"

definition buildVectorIndex :: "genv \<Rightarrow> string \<Rightarrow> int \<Rightarrow> int \<Rightarrow> string \<Rightarrow> live \<Rightarrow> db \<Rightarrow> (err + (string, int) gomap) \<times> db" where
  "buildVectorIndex env ns epoch prevEpoch metric live s =
     (let ids = vector_ids live in
      if ids = [] then (Inr [], s)
      else (let dimn = length (vec_of live (last ids));
                ((centroids, memberIDs, versions), s) = clusterLive env ns prevEpoch metric ids live s;
                rot = NewRotation (gSource env) dimn rotationSeed;
                members = map (\<lambda>(c, ids). map (cluster_entry live versions rot c) ids) (zip centroids memberIDs);
                tree = BuildTree (gSource env) centroids treeFanout treeLeafCapacity metric;
                cf = \<lparr>cfMetric = metric, cfDimension = dimn, cfK = length centroids, cfCentroids = centroids,
                  cfSizes = map length members, cfRotation = Some rot, cfTree = tree\<rparr>
            in case putJSON (centroidsKey ns epoch) (WCentroids cf) s of
                 (Inl e, s) \<Rightarrow> (Inl e, s)
               | (Inr _, s) \<Rightarrow> (case write_clusters ns epoch 0 (zip centroids members) s of
                   (Inl e, s) \<Rightarrow> (Inl e, s)
                 | (Inr _, s) \<Rightarrow> (Inr (cluster_of memberIDs), s))))"

section \<open>Text, documents and attributes\<close>

definition textFieldValue :: "attrs \<Rightarrow> string \<Rightarrow> string" where
  "textFieldValue attrs field = (case map_of attrs field of Some (AStr t) \<Rightarrow> t | _ \<Rightarrow> [])"

definition buildBM25Index :: "unicode \<Rightarrow> string \<Rightarrow> int \<Rightarrow> string \<Rightarrow> live \<Rightarrow> db \<Rightarrow> (err + unit) \<times> db" where
  "buildBM25Index uc ns epoch textField live s =
     (let texts = map (\<lambda>(i, d). (i, textFieldValue (dAttributes d) textField)) live
      in putJSON (bm25Key ns epoch) (WBM25 (BuildBM25 uc texts)) s)"

definition writeDocs :: "string \<Rightarrow> int \<Rightarrow> live \<Rightarrow> db \<Rightarrow> (err + unit) \<times> db" where
  "writeDocs ns epoch live s =
     putJSON (docsKey ns epoch) (WDocs \<lparr>dfDocs = map (\<lambda>(i, d). (i, dAttributes d)) live\<rparr>) s"

definition assignOrdinals :: "live \<Rightarrow> (string, nat) gomap" where
  "assignOrdinals live = map (\<lambda>(i, x). (x, i)) (enumerate 0 (sort (map fst live)))"

definition minFieldCardinality :: nat where "minFieldCardinality = 64"
definition maxFieldCardinalityRatio :: flt where "maxFieldCardinalityRatio = Fin (1 / 2)"

fun valueKey :: "aval \<Rightarrow> vkey option" where
  "valueKey v = (case numericValue v of
     Some f \<Rightarrow> Some (KeyN f)
   | None \<Rightarrow> (case v of AStr t \<Rightarrow> Some (KeyS t) | ABool b \<Rightarrow> Some (KeyB b) | _ \<Rightarrow> None))"

type_synonym bitmaps = "(string, (vkey, bitmap) gomap) gomap"

definition bucket :: "bitmaps \<Rightarrow> string \<Rightarrow> vkey \<Rightarrow> bitmap" where
  "bucket values field key = (case map_of values field of None \<Rightarrow> newBitmap
     | Some fv \<Rightarrow> (case map_of fv key of None \<Rightarrow> newBitmap | Some b \<Rightarrow> b))"

definition index_attr :: "string \<Rightarrow> nat \<Rightarrow> string \<times> aval \<Rightarrow> bitmaps \<Rightarrow> bitmaps" where
  "index_attr textField ord fr values = (if fst fr = textField then values
     else (case valueKey (snd fr) of
       None \<Rightarrow> values
     | Some key \<Rightarrow>
         (let fv = (case map_of values (fst fr) of None \<Rightarrow> [] | Some fv \<Rightarrow> fv)
          in AList.update (fst fr) (AList.update key (bitmap_add (of_nat ord) (bucket values (fst fr) key)) fv) values)))"

definition keep_field :: "nat \<Rightarrow> (vkey, bitmap) gomap \<Rightarrow> bool" where
  "keep_field n fv \<longleftrightarrow> \<not> (length fv > minFieldCardinality \<and>
     int (length fv) > trunc_int (f_mul (of_int64 (int n)) maxFieldCardinalityRatio))"

definition attrsFile :: "string \<Rightarrow> live \<Rightarrow> (string, nat) gomap \<Rightarrow> (string, int) gomap \<Rightarrow> AttrsFile" where
  "attrsFile textField live ordinals clusterOf =
     (let n = length live;
          (ords, clusters, values) = fold (\<lambda>(i, ord) (ords, clusters, values).
             (ords[ord := i], clusters[ord := (case map_of clusterOf i of Some c \<Rightarrow> c | None \<Rightarrow> - 1)],
              fold (index_attr textField ord) (attrs_of live i) values))
            ordinals (replicate n [], replicate n 0, [])
      in \<lparr>aOrds = ords, aClusterOf = clusters,
          aValues = map (\<lambda>(field, fv). (field, map (\<lambda>(key, bm). (key, toSorted bm)) fv))
            (filter (\<lambda>(field, fv). keep_field n fv) values)\<rparr>)"

definition buildAttributeIndex :: "string \<Rightarrow> int \<Rightarrow> string \<Rightarrow> live \<Rightarrow> (string, nat) gomap \<Rightarrow> (string, int) gomap \<Rightarrow> db \<Rightarrow> (err + unit) \<times> db" where
  "buildAttributeIndex ns epoch textField live ordinals clusterOf s =
     putJSON (attrsKey ns epoch) (WAttrs (attrsFile textField live ordinals clusterOf)) s"

section \<open>BuildIndex\<close>

definition publish :: "int \<Rightarrow> int \<Rightarrow> int \<Rightarrow> Manifest \<Rightarrow> Manifest" where
  "publish epoch walUpTo docCount m = m\<lparr>mIndexEpoch := epoch, mIndexedUpTo := walUpTo, mDocCount := docCount\<rparr>"

text \<open>The four builders in their order; the first error stops.\<close>

definition write_epoch :: "genv \<Rightarrow> unicode \<Rightarrow> string \<Rightarrow> int \<Rightarrow> int \<Rightarrow> Manifest \<Rightarrow> live \<Rightarrow> db \<Rightarrow> (err + unit) \<times> db" where
  "write_epoch env uc ns epoch prevEpoch m live s =
     (case buildVectorIndex env ns epoch prevEpoch (mMetric m) live s of
        (Inl e, s) \<Rightarrow> (Inl e, s)
      | (Inr clusterOf, s) \<Rightarrow>
          (case (if mTextField m \<noteq> [] then buildBM25Index uc ns epoch (mTextField m) live s else (Inr (), s)) of
             (Inl e, s) \<Rightarrow> (Inl e, s)
           | (Inr _, s) \<Rightarrow>
               (case buildAttributeIndex ns epoch (mTextField m) live (assignOrdinals live) clusterOf s of
                  (Inl e, s) \<Rightarrow> (Inl e, s)
                | (Inr _, s) \<Rightarrow> writeDocs ns epoch live s)))"

definition BuildIndex :: "genv \<Rightarrow> unicode \<Rightarrow> string \<Rightarrow> db \<Rightarrow> (err + unit) \<times> db" where
  "BuildIndex env uc ns s = (case LoadManifest ns s of
     (Inl e, s) \<Rightarrow> (Inl e, s)
   | (Inr (m, etag), s) \<Rightarrow>
       (let walUpTo = mWALSeq m;
            epoch = mIndexEpoch m + 1;
            prevEpoch = (if IsBranch m then 0 else mIndexEpoch m) in
        case resolveReadView ns m s of
          (Inl e, s) \<Rightarrow> (Inl e, s)
        | (Inr v, s) \<Rightarrow> (case MaterializeLiveView v 0 walUpTo s of
            (Inl e, s) \<Rightarrow> (Inl e, s)
          | (Inr live, s) \<Rightarrow> (case write_epoch env uc ns epoch prevEpoch m live s of
              (Inl e, s) \<Rightarrow> (Inl e, s)
            | (Inr _, s) \<Rightarrow> (case SaveManifestCAS ns (publish epoch walUpTo (int (length live))) s of
                (Inl e, s) \<Rightarrow> (Inl e, s)
              | (Inr _, s) \<Rightarrow> (Inr (), s))))))"

definition Namespace_Index :: "genv \<Rightarrow> unicode \<Rightarrow> string \<Rightarrow> db \<Rightarrow> (err + unit) \<times> db" where
  "Namespace_Index = BuildIndex"

section \<open>What a build does to the store\<close>

text \<open>
  Up to its last write, a build only reads and puts index objects.  \<open>read_run R\<close> states what a relation
  between stores must promise so that everything the engine reads stays within \<open>R\<close>, \<open>epoch_run R\<close> what it
  must promise for the whole build; they are used below for protocol steps and for the frame of the
  objects that must not change, and for queries.
\<close>

locale read_run =
  fixes R :: "db \<Rightarrow> db \<Rightarrow> bool"
  assumes run_refl: "R s s"
    and run_trans: "R s s1 \<Longrightarrow> R s1 s2 \<Longrightarrow> R s s2"
    and run_get: "Store_Get key s = (r, s1) \<Longrightarrow> R s s1"
    and run_cached: "GetCached key s = (q, s1) \<Longrightarrow> R s s1"
begin

lemma run_load: "LoadManifest ns s = (r, s') \<Longrightarrow> R s s'"
  by (auto simp: LoadManifest_def split: prod.splits sum.splits wire.splits dest: run_get)

lemma run_wal: "ReadWAL ns i s = (r, s') \<Longrightarrow> R s s'"
  by (auto simp: ReadWAL_def split: prod.splits sum.splits wire.splits dest: run_get)

lemma run_materialize: "materialize_loop n ns i ld s = (r, s') \<Longrightarrow> R s s'"
proof (induction n arbitrary: i ld s)
  case (Suc n)
  obtain r1 s1 where w: "ReadWAL ns i s = (r1, s1)" by fastforce
  show ?case
  proof (cases r1)
    case (Inl e)
    with Suc.prems w run_wal [OF w] show ?thesis by simp
  next
    case (Inr seg)
    with Suc.prems w have "materialize_loop n ns (i + 1) (apply_seg seg ld) s1 = (r, s')" by simp
    from run_trans [OF run_wal [OF w] Suc.IH [OF this]] show ?thesis .
  qed
qed (simp add: run_refl)

lemma run_view: "view_loop srcs a b ld s = (r, s') \<Longrightarrow> R s s'"
proof (induction srcs arbitrary: ld s)
  case (Cons src srcs)
  let ?lo = "maxInt64 a (wsFrom src)" and ?hi = "minInt64 b (wsTo src)"
  obtain r1 s1 where w: "materialize_loop (nat (?hi - ?lo)) (wsNs src) ?lo ld s = (r1, s1)" by fastforce
  show ?case
  proof (cases r1)
    case (Inl e)
    with Cons.prems w run_materialize [OF w] show ?thesis by simp
  next
    case (Inr ld1)
    with Cons.prems w have "view_loop srcs a b ld1 s1 = (r, s')" by simp
    from run_trans [OF run_materialize [OF w] Cons.IH [OF this]] show ?thesis .
  qed
qed (simp add: run_refl)

lemma run_live: "MaterializeLiveView v a b s = (r, s') \<Longrightarrow> R s s'"
  by (auto simp: MaterializeLiveView_def MaterializeView_def split: prod.splits sum.splits dest: run_view)

lemma run_sources: "sources_loop n cur m revs s = (r, s') \<Longrightarrow> R s s'"
proof (induction n arbitrary: cur m revs s)
  case (Suc n)
  show ?case
  proof (cases "IsBranch m")
    case True
    obtain r1 s1 where w: "LoadManifest (mParent m) s = (r1, s1)" by fastforce
    show ?thesis
    proof (cases r1)
      case (Inl e)
      with Suc.prems True w run_load [OF w] show ?thesis by (auto simp: Let_def)
    next
      case (Inr x)
      with Suc.prems True w Suc.IH have "R s1 s'" by (auto simp: Let_def split: prod.splits if_splits)
      from run_trans [OF run_load [OF w] this] show ?thesis .
    qed
  next
    case False
    with Suc.prems show ?thesis by (auto simp: Let_def run_refl split: if_splits)
  qed
qed (simp add: run_refl)

lemma run_index: "index_loop n cur m s = (r, s') \<Longrightarrow> R s s'"
proof (induction n arbitrary: cur m s)
  case (Suc n)
  show ?case
  proof (cases "mIndexEpoch m > 0 \<or> \<not> IsBranch m \<or> mForkIndexEpoch m > 0")
    case True
    with Suc.prems show ?thesis by (auto simp: run_refl split: if_splits)
  next
    case False
    obtain r1 s1 where w: "LoadManifest (mParent m) s = (r1, s1)" by fastforce
    show ?thesis
    proof (cases r1)
      case (Inl e)
      with Suc.prems False w run_load [OF w] show ?thesis by auto
    next
      case (Inr x)
      with Suc.prems False w Suc.IH have "R s1 s'" by (auto split: prod.splits)
      from run_trans [OF run_load [OF w] this] show ?thesis .
    qed
  qed
qed (simp add: run_refl)

lemma run_resolve: "resolveReadView ns m s = (r, s') \<Longrightarrow> R s s'"
proof -
  assume r: "resolveReadView ns m s = (r, s')"
  obtain r1 s1 where w: "sources_loop (maxBranchDepth + 1) ns m [] s = (r1, s1)" by fastforce
  obtain r2 s2 where i: "resolveIndex ns m s1 = (r2, s2)" by fastforce
  from r w i have "s' = s1 \<or> s' = s2" unfolding resolveReadView_def by (auto split: sum.splits)
  with run_sources [OF w] run_index [OF i [unfolded resolveIndex_def]] run_trans show ?thesis by metis
qed

lemma run_clusters: "load_clusters ns ep i cs acc s = (r, s') \<Longrightarrow> R s s'"
proof (induction cs arbitrary: i acc s)
  case (Cons c cs)
  obtain li old where acc: "acc = (li, old)" by fastforce
  obtain r1 s1 where w: "GetCached (clusterKey ns ep (int i)) s = (r1, s1)" by fastforce
  show ?case
  proof (cases "\<exists>clf. r1 = Inr (WCluster clf)")
    case True
    with Cons.prems w acc Cons.IH have "R s1 s'" by auto
    from run_trans [OF run_cached [OF w] this] show ?thesis .
  next
    case False
    with Cons.prems w acc have "s' = s1" by (auto split: sum.splits wire.splits)
    with run_cached [OF w] show ?thesis by simp
  qed
qed (auto simp: run_refl)

lemma run_prev: "loadPrevEpoch ns ep metric s = (r, s') \<Longrightarrow> R s s'"
proof -
  assume l: "loadPrevEpoch ns ep metric s = (r, s')"
  obtain r1 s1 where w: "GetCached (centroidsKey ns ep) s = (r1, s1)" by fastforce
  with l have "s' = s1 \<or> (\<exists>cs acc. load_clusters ns ep 0 cs acc s1 = (r, s'))"
    by (auto simp: loadPrevEpoch_def split: sum.splits wire.splits if_splits)
  with run_cached [OF w] run_clusters run_trans show ?thesis by metis
qed

lemma run_cluster: "clusterLive env ns ep metric ids live s = (c, s') \<Longrightarrow> R s s'"
  by (auto simp: clusterLive_def incrementalCluster_def run_refl split: prod.splits option.splits if_splits dest: run_prev)

end

locale epoch_run = read_run R for R :: "db \<Rightarrow> db \<Rightarrow> bool" +
  assumes run_put: "Store_Put (indexKey ns ep ob) b s = (x, s1) \<Longrightarrow> R s s1"
begin

lemma run_json: "putJSON (indexKey ns ep ob) b s = (r, s') \<Longrightarrow> R s s'"
  by (auto simp: putJSON_def run_refl split: prod.splits sum.splits if_splits dest: run_put)

lemmas run_json_at = run_json [of _ _ OCentroids, unfolded indexKey.simps] run_json [of _ _ "OCluster (int c)" for c, unfolded indexKey.simps]
  run_json [of _ _ OBM25, unfolded indexKey.simps] run_json [of _ _ ODocs, unfolded indexKey.simps]
  run_json [of _ _ OAttrs, unfolded indexKey.simps]

lemma run_write_clusters: "write_clusters ns ep c cs s = (r, s') \<Longrightarrow> R s s'"
proof (induction ns ep c cs s rule: write_clusters.induct)
  case (2 ns ep c centroid ms rest s)
  let ?k = "clusterKey ns ep (int c)" and ?b = "WCluster \<lparr>clCluster = c, clCentroid = centroid, clMembers = ms\<rparr>"
  obtain r1 s1 where w: "putJSON ?k ?b s = (r1, s1)" by fastforce
  note w' = run_json_at(2) [OF w]
  show ?case
  proof (cases r1)
    case (Inl e)
    with 2(2) w w' show ?thesis by simp
  next
    case (Inr u)
    with 2(1) [OF w [symmetric] Inr] 2(2) w have "R s1 s'" by simp
    from run_trans [OF w' this] show ?thesis .
  qed
qed (simp add: run_refl)

lemma run_vector: "buildVectorIndex env ns ep prev metric live s = (r, s') \<Longrightarrow> R s s'"
proof -
  assume b: "buildVectorIndex env ns ep prev metric live s = (r, s')"
  let ?ids = "vector_ids live"
  obtain cts mids vs s1 where c: "clusterLive env ns prev metric ?ids live s = ((cts, mids, vs), s1)"
    by (metis prod_cases3 surj_pair)
  show ?thesis
  proof (cases "?ids = []")
    case True
    with b show ?thesis by (simp add: buildVectorIndex_def run_refl)
  next
    case False
    define rot where "rot = NewRotation (gSource env) (length (vec_of live (last ?ids))) rotationSeed"
    define ms where "ms = map (\<lambda>(c, ids). map (cluster_entry live vs rot c) ids) (zip cts mids)"
    define cf where "cf = \<lparr>cfMetric = metric, cfDimension = length (vec_of live (last ?ids)), cfK = length cts,
      cfCentroids = cts, cfSizes = map length ms, cfRotation = Some rot,
      cfTree = BuildTree (gSource env) cts treeFanout treeLeafCapacity metric\<rparr>"
    obtain r2 s2 where p: "putJSON (centroidsKey ns ep) (WCentroids cf) s1 = (r2, s2)" by fastforce
    obtain r3 s3 where w: "write_clusters ns ep 0 (zip cts ms) s2 = (r3, s3)" by fastforce
    have "s' = s2 \<or> s' = s3"
      using b False c p w by (auto simp: buildVectorIndex_def Let_def rot_def ms_def cf_def split: sum.splits)
    with run_cluster [OF c] run_json_at(1) [OF p] run_write_clusters [OF w] run_trans show ?thesis by metis
  qed
qed

lemma run_epoch: "write_epoch env uc ns ep prev m live s = (r, s') \<Longrightarrow> R s s'"
proof -
  assume b: "write_epoch env uc ns ep prev m live s = (r, s')"
  obtain r1 s1 where v: "buildVectorIndex env ns ep prev (mMetric m) live s = (r1, s1)" by fastforce
  note rv = run_vector [OF v]
  show ?thesis
  proof (cases r1)
    case (Inl e)
    with b v rv show ?thesis by (simp add: write_epoch_def)
  next
    case (Inr co)
    obtain r2 s2 where t: "(if mTextField m \<noteq> [] then buildBM25Index uc ns ep (mTextField m) live s1 else (Inr (), s1)) = (r2, s2)"
      by fastforce
    have rt: "R s1 s2"
      using t run_json_at(3) by (auto simp: buildBM25Index_def Let_def run_refl split: if_splits)
    obtain r3 s3 where a: "buildAttributeIndex ns ep (mTextField m) live (assignOrdinals live) co s2 = (r3, s3)" by fastforce
    have ra: "R s2 s3" using a run_json_at(5) by (simp add: buildAttributeIndex_def)
    obtain r4 s4 where d: "writeDocs ns ep live s3 = (r4, s4)" by fastforce
    have rd: "R s3 s4" using d run_json_at(4) by (simp add: writeDocs_def)
    have "s' = s2 \<or> s' = s3 \<or> s' = s4"
      using b v Inr t a d by (auto simp: write_epoch_def split: sum.splits)
    with rv rt ra rd run_trans show ?thesis by metis
  qed
qed

end

section \<open>A build makes only protocol steps\<close>

definition fair_run :: "db \<Rightarrow> db \<Rightarrow> bool" where
  "fair_run s s' \<longleftrightarrow> (db_fair s \<longrightarrow> psteps (mem_of s) (mem_of s') \<and> db_fair s')"

lemma Store_Put_steps:
  assumes "Store_Put (indexKey ns ep ob) b s = (r, s')"
  shows "fair_run s s'"
proof -
  have d: "deliver (\<lambda>m. MemStore_Put m (indexKey ns ep ob) b) (sBackend s) = (r, sBackend s')"
    using assms by (simp add: Store_Put_def on_backend_eq Backend_Put_def)
  have "psteps m (snd (MemStore_Put m (indexKey ns ep ob) b))" for m
  proof -
    obtain e m' where "MemStore_Put m (indexKey ns ep ob) b = (Inr e, m')"
      by (cases "store_obj m (indexKey ns ep ob) b") (auto simp: MemStore_Put_def)
    then show ?thesis by (auto intro: pstep.index)
  qed
  with d deliver_fair show ?thesis unfolding fair_run_def by metis
qed

interpretation build_steps: epoch_run fair_run
proof
  show "fair_run s s" for s by (simp add: fair_run_def)
  show "fair_run s s1 \<Longrightarrow> fair_run s1 s2 \<Longrightarrow> fair_run s s2" for s s1 s2
    by (auto simp: fair_run_def intro: rtranclp_trans)
  show get: "Store_Get key s = (r, s1) \<Longrightarrow> fair_run s s1" for key s r s1
    using Store_Get_fair by (auto simp: fair_run_def)
  show "fair_run s s1" if "GetCached key s = (q, s1)" for key s q s1
    using that
  proof (cases rule: GetCached_cases)
    case (nvme_hit b s2)
    then have "sBackend s2 = sBackend s" by (metis snd_conv disk_get_simps(1))
    with nvme_hit show ?thesis by (simp add: fair_run_def)
  next
    case (cold b e s2 s3)
    then have "sBackend s2 = sBackend s" by (metis snd_conv disk_get_simps(1))
    with cold get [OF cold(3)] show ?thesis by (simp add: fair_run_def)
  next
    case (failed e s2)
    then have "sBackend s2 = sBackend s" by (metis snd_conv disk_get_simps(1))
    with failed get [OF failed(3)] show ?thesis by (simp add: fair_run_def)
  qed (simp add: fair_run_def)
qed (rule Store_Put_steps)

lemma publish_simps [simp]:
  "fork_of (publish ep w n mf) = fork_of mf" "mWALSeq (publish ep w n mf) = mWALSeq mf"
  "mVersion (publish ep w n mf) = mVersion mf" "mIndexedUpTo (publish ep w n mf) = w"
  "mDocCount (publish ep w n mf) = n" "mParent (publish ep w n mf) = mParent mf"
  "mForkWALSeq (publish ep w n mf) = mForkWALSeq mf" "mForkIndexEpoch (publish ep w n mf) = mForkIndexEpoch mf"
  "mDimension (publish ep w n mf) = mDimension mf" "mMetric (publish ep w n mf) = mMetric mf"
  "mTextField (publish ep w n mf) = mTextField mf" "mIndexEpoch (publish ep w n mf) = ep"
  by (simp_all add: publish_def fork_of_def IsBranch_def)

lemma publish_may_become:
  assumes "pinv m" "manifest_at m ns = Some m0" "0 \<le> n"
  shows "may_become m ns (publish epoch (mWALSeq m0) n)"
  unfolding may_become_def
proof (intro allI impI)
  fix m' mf
  assume m': "psteps m m'" "pinv m'" "manifest_at m' ns = Some mf" "counters_ok mf"
  from extD(2) [OF psteps_ext [OF m'(1) assms(1)] assms(2)] m'(3) have le: "mWALSeq m0 \<le> mWALSeq mf"
    by (auto simp: manifest_le_def)
  from pinv_node [OF assms(1,2)] obtain rank where "node_ok m rank ns m0" .
  then have "counters_ok m0" by (simp add: node_ok_def)
  then have pos: "0 \<le> mWALSeq m0" by (simp add: counters_ok_def)
  from pinv_node [OF m'(2,3)] obtain rank' where "node_ok m' rank' ns mf" .
  then have "has_segs m' ns (fork_of mf) (mWALSeq mf)" by (simp add: node_ok_def)
  then show "mVersion (publish epoch (mWALSeq m0) n mf) = mVersion mf \<and> manifest_le mf (publish epoch (mWALSeq m0) n mf) \<and>
    counters_ok (publish epoch (mWALSeq m0) n mf) \<and> has_segs m' ns (fork_of mf) (mWALSeq (publish epoch (mWALSeq m0) n mf))"
    using le pos assms(3) m'(4) by (simp add: manifest_le_def counters_ok_def)
qed

lemma BuildIndex_fair:
  assumes "db_fair s" "BuildIndex env uc ns s = (r, s')"
  shows "psteps (mem_of s) (mem_of s') \<and> db_fair s' \<and>
    (r = Inr () \<longrightarrow> (\<exists>m0 n m1 mf. psteps (mem_of s) m1 \<and> manifest_at m1 ns = Some m0 \<and>
      manifest_at (mem_of s') ns = Some (bump (publish (mIndexEpoch m0 + 1) (mWALSeq m0) n mf)) \<and>
      0 \<le> n \<and> mWALSeq m0 \<le> mWALSeq mf))"
proof -
  obtain r1 s1 where l: "LoadManifest ns s = (r1, s1)" by fastforce
  note f1 = LoadManifest_fair [OF assms(1) l]
  show ?thesis
  proof (cases r1)
    case (Inl e)
    with assms(2) l f1 show ?thesis by (auto simp: BuildIndex_def)
  next
    case (Inr x)
    obtain m0 etag where x: "x = (m0, etag)" by fastforce
    with f1 Inr have at: "manifest_at (mem_of s1) ns = Some m0" by (auto intro: manifest_at_Some)
    have p1: "psteps (mem_of s) (mem_of s1)" "db_fair s1" using f1 by auto
    obtain r2 s2 where v: "resolveReadView ns m0 s1 = (r2, s2)" by fastforce
    have R2: "fair_run s1 s2" by (rule build_steps.run_resolve [OF v])
    show ?thesis
    proof (cases r2)
      case i2: (Inl e)
      with assms(2) l Inr x v have "r = Inl e" "s' = s2" by (simp_all add: BuildIndex_def Let_def)
      with R2 p1 show ?thesis by (auto simp: fair_run_def intro: rtranclp_trans)
    next
      case i2: (Inr vw)
      obtain r3 s3 where lv: "MaterializeLiveView vw 0 (mWALSeq m0) s2 = (r3, s3)" by fastforce
      have R3: "fair_run s1 s3" by (rule build_steps.run_trans [OF R2 build_steps.run_live [OF lv]])
      show ?thesis
      proof (cases r3)
        case i3: (Inl e)
        with assms(2) l Inr x v i2 lv have "r = Inl e" "s' = s3" by (simp_all add: BuildIndex_def Let_def)
        with R3 p1 show ?thesis by (auto simp: fair_run_def intro: rtranclp_trans)
      next
        case i3: (Inr live)
        let ?prev = "if IsBranch m0 then 0 else mIndexEpoch m0"
        obtain r4 s4 where w: "write_epoch env uc ns (mIndexEpoch m0 + 1) ?prev m0 live s3 = (r4, s4)" by fastforce
        have R4: "fair_run s1 s4" by (rule build_steps.run_trans [OF R3 build_steps.run_epoch [OF w]])
        with p1 have p4: "psteps (mem_of s1) (mem_of s4)" "db_fair s4" by (auto simp: fair_run_def)
        have p04: "psteps (mem_of s) (mem_of s4)" using p1(1) p4(1) by (rule rtranclp_trans)
        show ?thesis
        proof (cases r4)
          case i4: (Inl e)
          with assms(2) l Inr x v i2 lv i3 w have "r = Inl e" "s' = s4" by (simp_all add: BuildIndex_def Let_def)
          with p4 p04 show ?thesis by auto
        next
          case i4: (Inr u)
          let ?mut = "publish (mIndexEpoch m0 + 1) (mWALSeq m0) (int (length live))"
          obtain r5 s5 where sv: "SaveManifestCAS ns ?mut s4 = (r5, s5)" by fastforce
          have "may_become (mem_of s1) ns ?mut"
            by (rule publish_may_become [OF fair_pinv [OF p1(2)] at]) simp
          from may_become_later [OF this p4(1)] have may: "may_become (mem_of s4) ns ?mut" .
          note f5 = SaveManifestCAS_fair [OF p4(2) sv may]
          have s5: "s' = s5" "r = Inr () \<longleftrightarrow> (\<exists>y. r5 = Inr y)"
            using assms(2) l Inr x v i2 lv i3 w i4 sv by (auto simp: BuildIndex_def Let_def split: sum.splits)
          have "\<exists>mf. manifest_at (mem_of s5) ns = Some (bump (?mut mf)) \<and> mWALSeq m0 \<le> mWALSeq mf" if "r5 = Inr y" for y
          proof -
            from f5 that obtain mem mf where mf: "psteps (mem_of s4) mem" "manifest_at mem ns = Some mf"
              "manifest_at (mem_of s5) ns = Some (bump (?mut mf))" by blast
            have "psteps (mem_of s1) mem" using p4(1) mf(1) by (rule rtranclp_trans)
            from extD(2) [OF psteps_ext [OF this fair_pinv [OF p1(2)]] at] mf(2)
            have "mWALSeq m0 \<le> mWALSeq mf" by (auto simp: manifest_le_def)
            with mf(3) show ?thesis by blast
          qed
          moreover have "psteps (mem_of s) (mem_of s5)" using p04 f5 by (auto intro: rtranclp_trans)
          ultimately show ?thesis using s5 f5 p1(1) at by (metis of_nat_0_le_iff)
        qed
      qed
    qed
  qed
qed

section \<open>A failed build leaves no trace\<close>

text \<open>
  \<open>outside m0 m\<close>: \<open>m\<close> agrees with \<open>m0\<close> on every object that is not part of an index epoch.  \<open>calm\<close>: so
  it stays whatever the others do, and no reply is lost (a lost reply hides a write that happened).
\<close>

definition outside :: "wire MemStore \<Rightarrow> wire MemStore \<Rightarrow> bool" where
  "outside m0 m \<longleftrightarrow> memstore_ok m \<and>
     (\<forall>key. (\<forall>ns ep ob. key \<noteq> indexKey ns ep ob) \<longrightarrow> MemStore_Get m key = MemStore_Get m0 key)"

definition calm :: "wire MemStore \<Rightarrow> db \<Rightarrow> bool" where
  "calm m0 s \<longleftrightarrow> kept (outside m0) (sBackend s) \<and> (\<forall>ev \<in> set (bevents (sBackend s)). outcome ev \<noteq> ReplyLost)"

definition frame_run :: "wire MemStore \<Rightarrow> db \<Rightarrow> db \<Rightarrow> bool" where
  "frame_run m0 s s' \<longleftrightarrow> (calm m0 s \<longrightarrow> calm m0 s')"

lemma next_event_calm:
  assumes "next_event b = (x, b')" "\<forall>ev \<in> set (bevents b). outcome ev \<noteq> ReplyLost"
  shows "x \<noteq> ReplyLost \<and> (\<forall>ev \<in> set (bevents b'). outcome ev \<noteq> ReplyLost)"
  using assms by (auto simp: next_event_def split: list.splits event.splits)

lemma deliver_calm:
  assumes "calm m0 s" "deliver op (sBackend s) = (r, sBackend s')"
    and "\<And>m. outside m0 m \<Longrightarrow> r \<noteq> Inl ErrOther \<longrightarrow> fst (op m) = r \<Longrightarrow> outside m0 (snd (op m))"
  shows "calm m0 s'"
  using assms(2)
proof (cases rule: deliver_cases)
  case (served b0 m)
  with assms(1) next_event_kept have k: "kept (outside m0) b0" by (auto simp: calm_def)
  have e: "\<forall>ev \<in> set (bevents b0). outcome ev \<noteq> ReplyLost"
    using next_event_calm [OF served(1)] assms(1) by (auto simp: calm_def)
  have "outside m0 m" using assms(3) [OF keptD [OF k]] served(2) by auto
  with k e served(3) kept_update show ?thesis by (auto simp: calm_def)
next
  case (lost b0)
  with assms(1) next_event_kept next_event_calm [OF lost(1)] show ?thesis by (auto simp: calm_def)
next
  case (unanswered b0 r' m)
  with assms(1) next_event_calm [OF unanswered(1)] show ?thesis by (auto simp: calm_def)
qed

lemma get_calm: "Store_Get key s = (r, s1) \<Longrightarrow> frame_run m0 s s1"
proof -
  assume "Store_Get key s = (r, s1)"
  then have d: "deliver (\<lambda>m. (MemStore_Get m key, m)) (sBackend s) = (r, sBackend s1)"
    by (simp add: Store_Get_def on_backend_eq Backend_Get_def)
  show ?thesis unfolding frame_run_def using deliver_calm [OF _ d] by auto
qed

lemma put_calm: "Store_Put (indexKey ns ep ob) b s = (r, s1) \<Longrightarrow> frame_run m0 s s1"
proof -
  assume "Store_Put (indexKey ns ep ob) b s = (r, s1)"
  then have d: "deliver (\<lambda>m. MemStore_Put m (indexKey ns ep ob) b) (sBackend s) = (r, sBackend s1)"
    by (simp add: Store_Put_def on_backend_eq Backend_Put_def)
  have "outside m0 (snd (MemStore_Put m (indexKey ns ep ob) b))" if m: "outside m0 m" for m
  proof -
    obtain r m' where p: "MemStore_Put m (indexKey ns ep ob) b = (r, m')" by fastforce
    from MemStore_Put_Inr [OF _ this] m obtain e where "memstore_ok m'" "wrote MemStore_Get used_etags m (indexKey ns ep ob) b e m'"
      by (auto simp: outside_def)
    with wrote_get m p show ?thesis by (fastforce simp: outside_def)
  qed
  then show ?thesis unfolding frame_run_def using deliver_calm [OF _ d] by blast
qed

lemma calm_backend: "sBackend s' = sBackend s \<Longrightarrow> calm m0 s' = calm m0 s"
  by (simp add: calm_def)

interpretation build_frame: epoch_run "frame_run m0" for m0
proof
  show "frame_run m0 s s" for s by (simp add: frame_run_def)
  show "frame_run m0 s s1 \<Longrightarrow> frame_run m0 s1 s2 \<Longrightarrow> frame_run m0 s s2" for s s1 s2
    by (simp add: frame_run_def)
  show "frame_run m0 s s1" if "GetCached key s = (q, s1)" for key s q s1
    using that
  proof (cases rule: GetCached_cases)
    case (nvme_hit b s2)
    then have "sBackend s2 = sBackend s" by (metis snd_conv disk_get_simps(1))
    with nvme_hit show ?thesis by (simp add: frame_run_def calm_def)
  next
    case (cold b e s2 s3)
    then have "sBackend s2 = sBackend s" by (metis snd_conv disk_get_simps(1))
    with cold get_calm [OF cold(3), of m0] show ?thesis by (simp add: frame_run_def calm_def)
  next
    case (failed e s2)
    then have "sBackend s2 = sBackend s" by (metis snd_conv disk_get_simps(1))
    with failed get_calm [OF failed(3), of m0] show ?thesis by (simp add: frame_run_def calm_def)
  qed (simp add: frame_run_def calm_def)
qed (rule get_calm put_calm; assumption)+

lemma save_error_calm:
  "calm m0 s \<Longrightarrow> save_manifest_loop n ns mutate s = (Inl e, s') \<Longrightarrow> calm m0 s'"
proof (induction n arbitrary: s)
  case (Suc n)
  obtain r1 s1 where l: "LoadManifest ns s = (r1, s1)" by fastforce
  have c1: "calm m0 s1" using build_frame.run_load [OF l, of m0] Suc.prems(1) by (simp add: frame_run_def)
  show ?case
  proof (cases r1)
    case (Inl e1)
    with Suc.prems(2) l c1 show ?thesis by simp
  next
    case (Inr x)
    obtain m etag where x: "x = (m, etag)" by fastforce
    let ?m = "(mutate m)\<lparr>mVersion := mVersion (mutate m) + 1\<rparr>"
    obtain r2 s2 where p: "Store_PutCAS (manifestKey ns) (WManifest ?m) etag s1 = (r2, s2)" by fastforce
    then have d: "deliver (\<lambda>m. MemStore_PutCAS m (manifestKey ns) (WManifest ?m) etag) (sBackend s1) = (r2, sBackend s2)"
      by (simp add: Store_PutCAS_def on_backend_eq Backend_PutCAS_def)
    show ?thesis
    proof (cases r2)
      case (Inr y)
      with Suc.prems(2) l \<open>r1 = Inr x\<close> x p show ?thesis by (simp add: Let_def)
    next
      case i2: (Inl e2)
      have c2: "calm m0 s2"
        using d
      proof (cases rule: deliver_cases)
        case (served b0 m')
        then have "m' = bstore b0" using MemStore_PutCAS_Inl i2 by fastforce
        with served have "sBackend s2 = b0" by simp
        with served(1) c1 next_event_kept next_event_calm [OF served(1)] show ?thesis by (auto simp: calm_def)
      next
        case (lost b0)
        with c1 next_event_kept next_event_calm [OF lost(1)] show ?thesis by (auto simp: calm_def)
      next
        case (unanswered b0 r' m')
        with c1 next_event_calm [OF unanswered(1)] show ?thesis by (auto simp: calm_def)
      qed
      from Suc.prems(2) l Inr x p i2 Suc.IH [OF c2] c2 show ?thesis by (auto simp: Let_def split: if_splits)
    qed
  qed
qed simp

lemma BuildIndex_error_calm:
  assumes "calm m0 s" "BuildIndex env uc ns s = (Inl e, s')" "\<And>n ep ob. key \<noteq> indexKey n ep ob"
  shows "MemStore_Get (mem_of s') key = MemStore_Get m0 key"
proof -
  have R: "frame_run m0 s s2 \<Longrightarrow> calm m0 s2" for s2 using assms(1) by (simp add: frame_run_def)
  obtain r1 s1 where l: "LoadManifest ns s = (r1, s1)" by fastforce
  note c1 = build_frame.run_load [OF l, of m0]
  have "calm m0 s'"
  proof (cases r1)
    case (Inl e)
    with assms(2) l R [OF c1] show ?thesis by (simp add: BuildIndex_def)
  next
    case (Inr x)
    obtain m etag where x: "x = (m, etag)" by fastforce
    obtain r2 s2 where v: "resolveReadView ns m s1 = (r2, s2)" by fastforce
    note c2 = build_frame.run_trans [OF c1 build_frame.run_resolve [OF v]]
    show ?thesis
    proof (cases r2)
      case i2: (Inl e)
      with assms(2) l Inr x v R [OF c2] show ?thesis by (simp add: BuildIndex_def Let_def)
    next
      case i2: (Inr vw)
      obtain r3 s3 where lv: "MaterializeLiveView vw 0 (mWALSeq m) s2 = (r3, s3)" by fastforce
      note c3 = build_frame.run_trans [OF c2 build_frame.run_live [OF lv]]
      show ?thesis
      proof (cases r3)
        case i3: (Inl e)
        with assms(2) l Inr x v i2 lv R [OF c3] show ?thesis by (simp add: BuildIndex_def Let_def)
      next
        case i3: (Inr live)
        let ?prev = "if IsBranch m then 0 else mIndexEpoch m"
        obtain r4 s4 where w: "write_epoch env uc ns (mIndexEpoch m + 1) ?prev m live s3 = (r4, s4)" by fastforce
        note c4 = build_frame.run_trans [OF c3 build_frame.run_epoch [OF w]]
        obtain r5 s5 where sv: "SaveManifestCAS ns (publish (mIndexEpoch m + 1) (mWALSeq m) (int (length live))) s4 = (r5, s5)"
          by fastforce
        show ?thesis
        proof (cases r4)
          case i4: (Inl e)
          with assms(2) l Inr x v i2 lv i3 w R [OF c4] show ?thesis by (simp add: BuildIndex_def Let_def)
        next
          case i4: (Inr u)
          then obtain e5 where "r5 = Inl e5" "s' = s5"
            using assms(2) l Inr x v i2 lv i3 w sv by (auto simp: BuildIndex_def Let_def split: sum.splits)
          with sv save_error_calm [OF R [OF c4]] show ?thesis by (auto simp: SaveManifestCAS_def)
        qed
      qed
    qed
  qed
  then show ?thesis using assms(3) keptD by (fastforce simp: calm_def outside_def)
qed



section \<open>The attribute index is exact\<close>

lemma bucket_index_attr:
  "bucket (index_attr tf ord (f, v) values) field key =
     (if f = field \<and> f \<noteq> tf \<and> valueKey v = Some key then bitmap_add (of_nat ord) (bucket values field key)
      else bucket values field key)"
  by (auto simp: index_attr_def bucket_def Let_def update_conv' split: option.splits simp del: valueKey.simps)

definition buckets_ok :: "string \<Rightarrow> bitmaps \<Rightarrow> (string \<Rightarrow> vkey \<Rightarrow> 32 word set) \<Rightarrow> bool" where
  "buckets_ok tf values S \<longleftrightarrow> distinct (map fst values) \<and> tf \<notin> fst ` set values \<and>
     (\<forall>field key. b_ok (bucket values field key) \<and> bset (bucket values field key) = S field key)"

lemma index_attr_ok:
  assumes "buckets_ok tf values S"
  shows "buckets_ok tf (index_attr tf ord (f, v) values)
    (\<lambda>field key. S field key \<union> (if f = field \<and> f \<noteq> tf \<and> valueKey v = Some key then {of_nat ord} else {}))"
proof -
  have "distinct (map fst (index_attr tf ord (f, v) values))"
    using assms by (auto simp: buckets_ok_def index_attr_def Let_def distinct_update simp del: valueKey.simps split: option.splits)
  moreover have "tf \<notin> fst ` set (index_attr tf ord (f, v) values)"
    using assms by (auto simp: buckets_ok_def index_attr_def Let_def dom_update simp del: valueKey.simps split: option.splits)
  ultimately show ?thesis using assms bitmap_add_ok
    by (auto simp: buckets_ok_def bucket_index_attr simp del: valueKey.simps)
qed

text \<open>The scalar values of a document under a field, as bucket keys.\<close>

definition has_key :: "string \<Rightarrow> attrs \<Rightarrow> string \<Rightarrow> vkey \<Rightarrow> bool" where
  "has_key tf ats field key \<longleftrightarrow> field \<noteq> tf \<and> (case map_of ats field of None \<Rightarrow> False | Some v \<Rightarrow> valueKey v = Some key)"

lemma index_attrs_ok:
  assumes "buckets_ok tf vs S" "wf_map ats"
  shows "buckets_ok tf (fold (index_attr tf ord) ats vs)
     (\<lambda>field key. S field key \<union> (if has_key tf ats field key then {of_nat ord} else {}))"
  using assms
proof (induction ats arbitrary: vs S)
  case (Cons a ats)
  obtain f v where a: "a = (f, v)" by fastforce
  then have "map_of ats f = None" using Cons.prems(2) by (simp add: wf_map_def map_of_eq_None_iff)
  then have "(\<lambda>field key. (S field key \<union> (if f = field \<and> f \<noteq> tf \<and> valueKey v = Some key then {of_nat ord} else {})) \<union>
      (if has_key tf ats field key then {of_nat ord} else {})) =
    (\<lambda>field key. S field key \<union> (if has_key tf (a # ats) field key then {of_nat ord :: 32 word} else {}))"
    by (intro ext) (auto simp: a has_key_def simp del: valueKey.simps)
  with Cons.IH [OF index_attr_ok [OF Cons.prems(1), of ord f v]] Cons.prems(2)
  show ?case by (simp add: a wf_map_def del: valueKey.simps)
qed (simp add: has_key_def)

definition index_docs :: "string \<Rightarrow> live \<Rightarrow> (string, int) gomap \<Rightarrow> string \<times> nat \<Rightarrow>
    string list \<times> int list \<times> bitmaps \<Rightarrow> string list \<times> int list \<times> bitmaps" where
  "index_docs tf live cof = (\<lambda>(i, ord) (ords, clusters, values).
     (ords[ord := i], clusters[ord := (case map_of cof i of Some c \<Rightarrow> c | None \<Rightarrow> - 1)],
      fold (index_attr tf ord) (attrs_of live i) values))"

lemma fold_index_docs:
  assumes "distinct (map snd xs)" "\<forall>i \<in> fst ` set xs. wf_map (attrs_of live i)" "buckets_ok tf vs S"
    and "\<forall>ord \<in> snd ` set xs. ord < length ords" "length cs = length ords"
    and "fold (index_docs tf live cof) xs (ords, cs, vs) = (ords', cs', vs')"
  shows "length ords' = length ords \<and> length cs' = length ords \<and>
    (\<forall>(i, ord) \<in> set xs. ords' ! ord = i \<and> cs' ! ord = (case map_of cof i of Some c \<Rightarrow> c | None \<Rightarrow> - 1)) \<and>
    (\<forall>ord. ord \<notin> snd ` set xs \<longrightarrow> ords' ! ord = ords ! ord \<and> cs' ! ord = cs ! ord) \<and>
    buckets_ok tf vs' (\<lambda>field key. S field key \<union> {of_nat ord |i ord. (i, ord) \<in> set xs \<and> has_key tf (attrs_of live i) field key})"
  using assms
proof (induction xs arbitrary: ords cs vs S)
  case (Cons x xs)
  obtain i ord where x: "x = (i, ord)" by fastforce
  let ?o = "ords[ord := i]" and ?c = "cs[ord := (case map_of cof i of Some c \<Rightarrow> c | None \<Rightarrow> - 1)]"
    and ?v = "fold (index_attr tf ord) (attrs_of live i) vs"
  have b: "buckets_ok tf ?v (\<lambda>field key. S field key \<union> (if has_key tf (attrs_of live i) field key then {of_nat ord} else {}))"
    using index_attrs_ok [OF Cons.prems(3)] Cons.prems(2) x by simp
  have f: "fold (index_docs tf live cof) xs (?o, ?c, ?v) = (ords', cs', vs')"
    using Cons.prems(6) by (simp add: x index_docs_def)
  have s: "(\<lambda>field key. (S field key \<union> (if has_key tf (attrs_of live i) field key then {of_nat ord} else {})) \<union>
      {of_nat ord |i ord. (i, ord) \<in> set xs \<and> has_key tf (attrs_of live i) field key}) =
    (\<lambda>field key. S field key \<union> {of_nat ord |i ord. (i, ord) \<in> set (x # xs) \<and> has_key tf (attrs_of live i) field key})"
    by (intro ext) (auto simp: x)
  have new: "ord \<notin> snd ` set xs" "ord < length ords" "ord < length cs" using Cons.prems(1,4,5) x by auto
  have p: "distinct (map snd xs)" "\<forall>i \<in> fst ` set xs. wf_map (attrs_of live i)" "\<forall>ord \<in> snd ` set xs. ord < length ?o"
    "length ?c = length ?o" using Cons.prems(1,2,4,5) by simp_all
  note ih = Cons.IH [OF p(1,2) b p(3,4) f, unfolded s]
  have "\<forall>(j, o') \<in> set (x # xs). ords' ! o' = j \<and> cs' ! o' = (case map_of cof j of Some c \<Rightarrow> c | None \<Rightarrow> - 1)"
    using ih new unfolding x by (simp add: nth_list_update_eq)
  moreover have "ords' ! o' = ords ! o' \<and> cs' ! o' = cs ! o'" if "o' \<notin> snd ` set (x # xs)" for o'
    using ih that unfolding x by (simp add: nth_list_update_neq)
  ultimately show ?case using ih by simp
qed (auto simp: buckets_ok_def)

lemma bucket_keys: "map_of values field = Some fv \<Longrightarrow> bucket values field key = (case map_of fv key of None \<Rightarrow> newBitmap | Some b \<Rightarrow> b)"
  by (simp add: bucket_def)

lemma assignOrdinals_pairs:
  "map snd (assignOrdinals live) = [0..<length live]" "map fst (assignOrdinals live) = sort (map fst live)"
  "(i, ord) \<in> set (assignOrdinals live) \<longleftrightarrow> ord < length live \<and> i = sort (map fst live) ! ord"
proof -
  have e: "map snd (assignOrdinals live) = map fst (enumerate 0 (sort (map fst live)))"
    "map fst (assignOrdinals live) = map snd (enumerate 0 (sort (map fst live)))"
    unfolding assignOrdinals_def map_map by (rule map_cong [OF refl], force)+
  show "map snd (assignOrdinals live) = [0..<length live]" "map fst (assignOrdinals live) = sort (map fst live)"
    unfolding e by simp_all
  have "(i, ord) \<in> set (assignOrdinals live) \<longleftrightarrow> (ord, i) \<in> set (enumerate 0 (sort (map fst live)))"
    by (auto simp: assignOrdinals_def)
  then show "(i, ord) \<in> set (assignOrdinals live) \<longleftrightarrow> ord < length live \<and> i = sort (map fst live) ! ord"
    by (auto simp: in_set_enumerate_eq)
qed

lemma attrsFile_fold:
  "attrsFile tf live ordinals cof =
     (let (ords, clusters, values) = fold (index_docs tf live cof) ordinals (replicate (length live) [], replicate (length live) 0, [])
      in \<lparr>aOrds = ords, aClusterOf = clusters, aValues = map (\<lambda>(field, fv). (field, map (\<lambda>(key, bm). (key, toSorted bm)) fv))
            (filter (\<lambda>(field, fv). keep_field (length live) fv) values)\<rparr>)"
  by (simp add: attrsFile_def Let_def index_docs_def)

lemma sorted_ordinals:
  assumes "n \<le> 2 ^ 32"
  shows "sorted_wrt (<) (map of_nat (filter P [0..<n]) :: 32 word list)"
    "set (map of_nat (filter P [0..<n]) :: 32 word list) = of_nat ` {ord. ord < n \<and> P ord}"
proof -
  have "sorted_wrt (\<lambda>a b. (of_nat a :: 32 word) < of_nat b) (filter P [0..<n])"
  proof (rule sorted_wrt_mono_rel [of _ "(<)"])
    show "sorted_wrt (<) (filter P [0..<n])" by (simp add: sorted_wrt_filter)
    show "of_nat a < (of_nat b :: 32 word)" if "a \<in> set (filter P [0..<n])" "b \<in> set (filter P [0..<n])" "a < b" for a b
    proof -
      have "a < 2 ^ 32" "b < 2 ^ 32" using that assms by auto
      then show ?thesis using that(3) by (simp add: word_less_nat_alt unat_of_nat take_bit_nat_eq_self)
    qed
  qed
  then show "sorted_wrt (<) (map of_nat (filter P [0..<n]) :: 32 word list)" by (simp add: sorted_wrt_map)
qed auto

lemma sorted_eqI: "sorted_wrt (<) xs \<Longrightarrow> sorted_wrt (<) ys \<Longrightarrow> set xs = set ys \<Longrightarrow> xs = (ys :: 'a :: linorder list)"
  by (metis sorted_list_of_set.idem_if_sorted_distinct strict_sorted_iff)

text \<open>What a bucket of the file stands for.\<close>

definition posting_list :: "(vkey, 32 word list) gomap \<Rightarrow> vkey \<Rightarrow> 32 word list" where
  "posting_list fv key = (case map_of fv key of None \<Rightarrow> [] | Some os \<Rightarrow> os)"

lemma toSorted_bucket:
  "posting_list (map (\<lambda>(key, bm). (key, toSorted bm)) fv) key = toSorted (case map_of fv key of None \<Rightarrow> newBitmap | Some b \<Rightarrow> b)"
  by (simp add: posting_list_def map_of_map newBitmap_def toSorted_def bitmap_each_def split: option.splits)

lemma attrsFile_spec:
  assumes "wf_map live" "\<forall>(i, d) \<in> set live. wf_map (dAttributes d)" "length live \<le> 2 ^ 32"
    and "mset ordinals = mset (assignOrdinals live)"
  shows "aOrds (attrsFile tf live ordinals cof) = sort (map fst live) \<and>
    aClusterOf (attrsFile tf live ordinals cof) = map (\<lambda>i. case map_of cof i of Some c \<Rightarrow> c | None \<Rightarrow> - 1) (sort (map fst live)) \<and>
    (\<forall>field fv key. map_of (aValues (attrsFile tf live ordinals cof)) field = Some fv \<longrightarrow> field \<noteq> tf \<and>
      posting_list fv key = map of_nat (filter (\<lambda>ord. has_key tf (attrs_of live (sort (map fst live) ! ord)) field key) [0..<length live]))"
proof -
  let ?n = "length live" and ?ids = "sort (map fst live)"
  obtain ords cs vs where f: "fold (index_docs tf live cof) ordinals (replicate ?n [], replicate ?n 0, []) = (ords, cs, vs)"
    by (metis prod_cases3)
  have el: "set ordinals = set (assignOrdinals live)" using assms(4) by (rule mset_eq_setD)
  have mem: "(i, ord) \<in> set ordinals \<longleftrightarrow> ord < ?n \<and> i = ?ids ! ord" for i ord
    unfolding el by (rule assignOrdinals_pairs(3))
  have "mset (map snd ordinals) = mset (map snd (assignOrdinals live))" using assms(4) by simp
  then have d: "distinct (map snd ordinals)" unfolding assignOrdinals_pairs(1) by (metis distinct_upt mset_eq_imp_distinct_iff)
  have w: "\<forall>i \<in> fst ` set ordinals. wf_map (attrs_of live i)"
    using assms(2) by (fastforce simp: attrs_of_def wf_map_def split: option.splits dest: map_of_SomeD)
  have b0: "buckets_ok tf [] (\<lambda>field key. {})"
    by (simp add: buckets_ok_def bucket_def newBitmap_def bset_def)
  have l: "\<forall>ord \<in> snd ` set ordinals. ord < length (replicate ?n ([] :: string))" using mem by auto
  note r = fold_index_docs [OF d w b0 l _ f, simplified]
  then have len: "length ords = ?n" "length cs = ?n" by auto
  have at: "ords ! ord = ?ids ! ord" "cs ! ord = (case map_of cof (?ids ! ord) of Some c \<Rightarrow> c | None \<Rightarrow> - 1)" if "ord < ?n" for ord
    using r mem [of "?ids ! ord" ord] that by auto
  have o: "ords = ?ids" by (rule nth_equalityI) (simp_all add: len at)
  have c: "cs = map (\<lambda>i. case map_of cof i of Some c \<Rightarrow> c | None \<Rightarrow> - 1) ?ids" by (rule nth_equalityI) (simp_all add: len at)
  have b: "buckets_ok tf vs (\<lambda>field key. {of_nat ord |i ord. (i, ord) \<in> set ordinals \<and> has_key tf (attrs_of live i) field key})"
    using r by blast
  have v: "field \<noteq> tf \<and> posting_list fv key = map of_nat (filter (\<lambda>ord. has_key tf (attrs_of live (?ids ! ord)) field key) [0..<?n])"
    if fv: "map_of (aValues (attrsFile tf live ordinals cof)) field = Some fv" for field fv key
  proof -
    have wv: "wf_map vs" using b by (simp add: buckets_ok_def wf_map_def)
    obtain fb where fb: "map_of (filter (\<lambda>(field, fv). keep_field ?n fv) vs) field = Some fb"
      "fv = map (\<lambda>(key, bm). (key, toSorted bm)) fb"
      using fv by (auto simp: attrsFile_fold f map_of_map)
    then have m: "map_of vs field = Some fb" using wv by (auto simp: wf_map_def dest!: map_of_SomeD)
    have "field \<noteq> tf" using b m by (force simp: buckets_ok_def dest: map_of_SomeD)
    have bk: "b_ok (bucket vs field key)"
      "bset (bucket vs field key) = {of_nat ord |i ord. (i, ord) \<in> set ordinals \<and> has_key tf (attrs_of live i) field key}"
      using b by (auto simp: buckets_ok_def)
    have "posting_list fv key = toSorted (bucket vs field key)" by (simp add: fb(2) toSorted_bucket bucket_keys [OF m])
    moreover have bs: "bset (bucket vs field key) = of_nat ` {ord. ord < ?n \<and> has_key tf (attrs_of live (?ids ! ord)) field key}"
      unfolding bk(2) using mem by auto
    have "toSorted (bucket vs field key) = map of_nat (filter (\<lambda>ord. has_key tf (attrs_of live (?ids ! ord)) field key) [0..<?n])"
      by (rule sorted_eqI [OF _ sorted_ordinals(1) [OF assms(3)]])
        (simp_all only: toSorted_ok [OF bk(1)] sorted_ordinals(2) [OF assms(3)] bs)
    ultimately show ?thesis using \<open>field \<noteq> tf\<close> by simp
  qed
  have "aOrds (attrsFile tf live ordinals cof) = ords" "aClusterOf (attrsFile tf live ordinals cof) = cs"
    by (simp_all add: attrsFile_fold f)
  with o c v show ?thesis by metis
qed

text \<open>
  The attribute file of an epoch is exact, in whatever order Go ranges over its maps: the ordinals
  number the live ids in sorted order, \<open>ClusterOf\<close> gives each its cluster (-1 without a vector), and in
  every field that was kept, which is never the text field, the list under a value key holds, in order,
  exactly the ordinals of the documents that have that value there.  So a filter compiled to these lists
  selects neither too much nor too little.
\<close>

theorem attrsFile_exact:
  assumes "wf_map live" "\<forall>(i, d) \<in> set live. wf_map (dAttributes d)" "length live \<le> 2 ^ 32"
    and "mset ordinals = mset (assignOrdinals live)"
  shows "aOrds (attrsFile tf live ordinals cof) = sort (map fst live) \<and>
    aClusterOf (attrsFile tf live ordinals cof) = map (\<lambda>i. case map_of cof i of Some c \<Rightarrow> c | None \<Rightarrow> - 1) (sort (map fst live)) \<and>
    (\<forall>field fv key. map_of (aValues (attrsFile tf live ordinals cof)) field = Some fv \<longrightarrow> field \<noteq> tf \<and>
      posting_list fv key = map of_nat (filter (\<lambda>ord. has_key tf (attrs_of live (sort (map fst live) ! ord)) field key) [0..<length live]))"
  by (rule attrsFile_spec [OF assms])

section \<open>Witnesses\<close>

definition demo_attrs :: live where
  "demo_attrs = [(''b'', \<lparr>dID = ''b'', dVector = None, dAttributes = [(''lang'', AStr ''go'')], dDeleted = False\<rparr>),
     (''a'', \<lparr>dID = ''a'', dVector = None, dAttributes = [(''lang'', AStr ''go''), (''body'', AStr ''x'')], dDeleted = False\<rparr>)]"

theorem attrsFile_exact_witness:
  "aOrds (attrsFile ''body'' demo_attrs (rev (assignOrdinals demo_attrs)) [(''a'', 5)]) = [''a'', ''b''] \<and>
   aClusterOf (attrsFile ''body'' demo_attrs (rev (assignOrdinals demo_attrs)) [(''a'', 5)]) = [5, -1] \<and>
   (\<exists>fv. map_of (aValues (attrsFile ''body'' demo_attrs (rev (assignOrdinals demo_attrs)) [(''a'', 5)])) ''lang'' = Some fv \<and>
      posting_list fv (KeyS ''go'') = [0, 1] \<and> posting_list fv (KeyS ''c'') = [])"
proof -
  let ?af = "attrsFile ''body'' demo_attrs (rev (assignOrdinals demo_attrs)) [(''a'', 5)]"
  have k: "sort (map fst demo_attrs) = [''a'', ''b'']" by code_simp
  have hyp: "wf_map demo_attrs" "\<forall>(i, d) \<in> set demo_attrs. wf_map (dAttributes d)" "length demo_attrs \<le> 2 ^ 32"
    "mset (rev (assignOrdinals demo_attrs)) = mset (assignOrdinals demo_attrs)"
    by (auto simp: demo_attrs_def wf_map_def)
  note e = attrsFile_exact [OF hyp, of "''body''" "[(''a'', 5)]"]
  have "map_of (aValues ?af) ''lang'' \<noteq> None" by code_simp
  then obtain fv where fv: "map_of (aValues ?af) ''lang'' = Some fv" by blast
  have "posting_list fv key = map of_nat (filter (\<lambda>ord. has_key ''body'' (attrs_of demo_attrs ([''a'', ''b''] ! ord)) ''lang'' key) [0, 1])" for key
    using e fv unfolding k by (simp add: demo_attrs_def upt_rec)
  then show ?thesis using e fv unfolding k by (simp add: has_key_def attrs_of_def demo_attrs_def)
qed

definition demo_env :: genv where
  "demo_env = \<lparr>gSource = (\<lambda>seed. no_draws), gRange1 = id, gRange2 = id\<rparr>"

text \<open>A namespace with one committed text-only write.\<close>

definition written_db :: db where
  "written_db = snd (Upsert ''n'' [demo_doc ''a''] (snd (CreateManifest ''n'' cfg0 fresh_db)))"

lemma written_fair: "db_fair written_db"
proof -
  have "db_fair (snd (CreateManifest ''n'' cfg0 fresh_db))"
    using CreateManifest_fair [OF fresh_fair prod.collapse [symmetric]] by blast
  from Upsert_fair [OF this prod.collapse [symmetric]] show ?thesis unfolding written_db_def by blast
qed


text \<open>The put of the documents is lost on its way.\<close>

definition cut_db :: db where
  "cut_db = written_db\<lparr>sBackend := (sBackend written_db)\<lparr>bevents :=
     [Event id Served, Event id Served, Event id Served, Event id RequestLost]\<rparr>\<rparr>"


end
