(* ===== verification/Query.thy ===== *)
theory Query
  imports Epoch
begin

text \<open>
  Queries: \<open>query.go\<close>.  A query loads the manifest, resolves the branch chain, gathers candidates from
  the index epoch (through the attribute bitmaps when the filter can be compiled to them), overlays the
  unindexed tail of the log, filters, sorts and cuts.  Two queries are fused by reciprocal rank.

  A slice expression with a bound out of range panics, which ends the request: the error \<open>panicked\<close>.
  Attribute maps that are empty are taken to be nil, as decoding leaves them (\<open>omitempty\<close>).
\<close>

section \<open>Constants and parameters\<close>

definition defaultNProbe :: int where "defaultNProbe = 3"
definition defaultTopK :: int where "defaultTopK = 10"
definition shortlistMultiplier :: int where "shortlistMultiplier = 4"
definition rrfK :: int where "rrfK = 60"
definition hybridShortlistMultiplier :: int where "hybridShortlistMultiplier = 5"
definition filterFirstThreshold :: flt where "filterFirstThreshold = fround F64 (5 / 100)"

text \<open>From outside: the random source, \<open>math.Log\<close>, the unicode tables, and the order of one map range.\<close>

record qenv =
  vSource :: "int \<Rightarrow> rng"
  vLog :: "flt \<Rightarrow> flt"
  vUnicode :: unicode
  vRange :: "int list \<Rightarrow> int list"

definition panicked :: err where "panicked = QueryErr ''panic''"

text \<open>\<open>if len(xs) > k { xs = xs[:k] }\<close>\<close>

definition cut :: "int \<Rightarrow> 'a list \<Rightarrow> 'a list option" where
  "cut k xs = (if int (length xs) > k then (if k < 0 then None else Some (take (nat k) xs)) else Some xs)"

definition lookup :: "('k, 'v) gomap \<Rightarrow> 'k \<Rightarrow> 'v \<Rightarrow> 'v" where
  "lookup m k d = (case map_of m k of None \<Rightarrow> d | Some v \<Rightarrow> v)"

section \<open>Orders\<close>

definition nearer :: "flt \<times> string \<Rightarrow> flt \<times> string \<Rightarrow> bool" where
  "nearer a b = (if \<not> flt_eq (fst a) (fst b) then flt_lt (fst a) (fst b) else snd a < snd b)"

definition higher :: "flt \<times> string \<Rightarrow> flt \<times> string \<Rightarrow> bool" where
  "higher a b = (if \<not> flt_eq (fst a) (fst b) then flt_lt (fst b) (fst a) else snd a < snd b)"

definition by_dist :: "QueryResult \<Rightarrow> QueryResult \<Rightarrow> bool" where
  "by_dist a b = nearer (rDist a, rID a) (rDist b, rID b)"

definition by_score :: "QueryResult \<Rightarrow> QueryResult \<Rightarrow> bool" where
  "by_score a b = higher (rScore a, rID a) (rScore b, rID b)"

definition by_rrf :: "QueryResult \<Rightarrow> QueryResult \<Rightarrow> bool" where
  "by_rrf a b = higher (rRRF a, rID a) (rRRF b, rID b)"

section \<open>Reciprocal rank fusion\<close>

definition empty_result :: "string \<Rightarrow> QueryResult" where
  "empty_result i = \<lparr>rID = i, rDist = Fin 0, rScore = Fin 0, rRRF = Fin 0, rAttributes = []\<rparr>"

text \<open>\<open>get\<close>: the entry of the map, or a new one with the attributes of this hit.\<close>

definition fused_get :: "(string, QueryResult) gomap \<Rightarrow> QueryResult \<Rightarrow> QueryResult" where
  "fused_get fused r = lookup fused (rID r) ((empty_result (rID r))\<lparr>rAttributes := rAttributes r\<rparr>)"

definition rrf_term :: "nat \<Rightarrow> flt" where
  "rrf_term i = f_div (Fin 1) (of_int64 (rrfK + (int i + 1)))"

definition fuse_vec :: "nat \<times> QueryResult \<Rightarrow> (string, QueryResult) gomap \<Rightarrow> (string, QueryResult) gomap" where
  "fuse_vec ir fused = (let (i, r) = ir; f = fused_get fused r;
      f = f\<lparr>rDist := rDist r, rRRF := f_add (rRRF f) (rrf_term i)\<rparr>;
      f = (if rAttributes f = [] then f\<lparr>rAttributes := rAttributes r\<rparr> else f)
    in AList.update (rID r) f fused)"

definition fuse_text :: "nat \<times> QueryResult \<Rightarrow> (string, QueryResult) gomap \<Rightarrow> (string, QueryResult) gomap" where
  "fuse_text ir fused = (let (i, r) = ir; f = fused_get fused r;
      f = f\<lparr>rScore := rScore r, rRRF := f_add (rRRF f) (rrf_term i)\<rparr>;
      f = (if rAttributes f = [] then f\<lparr>rAttributes := rAttributes r\<rparr> else f)
    in AList.update (rID r) f fused)"

definition fuseRRF :: "QueryResult list \<Rightarrow> QueryResult list \<Rightarrow> int \<Rightarrow> QueryResult list option" where
  "fuseRRF vecResults textResults topK =
     (let fused = fold fuse_vec (enumerate 0 vecResults) [];
          fused = fold fuse_text (enumerate 0 textResults) fused
      in cut topK (sort_by by_rrf (map snd fused)))"

section \<open>The planner\<close>

record vectorPlan =
  vpUsable :: bool
  vpFilterFirst :: bool
  vpMatchAll :: bool
  vpCands :: bitmap
  vpClusters :: "int list"
  vpAttrs :: "AttrsFile option"

definition no_plan :: vectorPlan where
  "no_plan = \<lparr>vpUsable = False, vpFilterFirst = False, vpMatchAll = False, vpCands = newBitmap,
     vpClusters = [], vpAttrs = None\<rparr>"

fun compileFilter :: "AttrsFile \<Rightarrow> Filter \<Rightarrow> bitmap option" where
  "compileFilter af (Filter op field v sub) =
     (if op = [] \<or> op = ''all'' then None
      else if op = ''eq'' then
        (case map_of (aValues af) field of
           None \<Rightarrow> None
         | Some fv \<Rightarrow> (case valueKey v of
             None \<Rightarrow> None
           | Some key \<Rightarrow> Some (bitmapFromSorted (lookup fv key []))))
      else if op = ''and'' then
        (case those (map (compileFilter af) sub) of
           Some (bm # bms) \<Rightarrow> Some (foldl bitmap_and bm bms)
         | _ \<Rightarrow> None)
      else if op = ''or'' then
        (if sub = [] then None
         else case those (map (compileFilter af) sub) of
           Some bms \<Rightarrow> Some (foldl bitmap_or newBitmap bms)
         | None \<Rightarrow> None)
      else None)"

definition loadAttrs :: "string \<Rightarrow> int \<Rightarrow> db \<Rightarrow> (err + AttrsFile option) \<times> db" where
  "loadAttrs ns epoch s = (case GetCached (attrsKey ns epoch) s of
     (Inl e, s) \<Rightarrow> ((if e = ErrNotFound then Inr None else Inl (StoreErr e)), s)
   | (Inr (WAttrs af), s) \<Rightarrow> (Inr (Some af), s)
   | (Inr _, s) \<Rightarrow> (Inl DecodeErr, s))"

text \<open>The clusters that hold a candidate.\<close>

definition plan_clusters :: "AttrsFile \<Rightarrow> bitmap \<Rightarrow> int list" where
  "plan_clusters af cands = fold (\<lambda>ord cs.
     if unat ord < length (aClusterOf af) \<and> aClusterOf af ! unat ord \<ge> 0
     then List.insert (aClusterOf af ! unat ord) cs else cs) (toSorted cands) []"

definition planVectorQuery :: "string \<Rightarrow> int \<Rightarrow> Filter \<Rightarrow> db \<Rightarrow> (err + vectorPlan) \<times> db" where
  "planVectorQuery indexNS indexEpoch flter s =
     (if fOp flter = [] \<or> fOp flter = ''all'' then (Inr no_plan, s)
      else (case loadAttrs indexNS indexEpoch s of
        (Inl e, s) \<Rightarrow> (Inl e, s)
      | (Inr None, s) \<Rightarrow> (Inr no_plan, s)
      | (Inr (Some af), s) \<Rightarrow> (case compileFilter af flter of
          None \<Rightarrow> (Inr no_plan, s)
        | Some cands \<Rightarrow>
            (let n = length (aOrds af) in
             (Inr \<lparr>vpUsable = True,
                vpFilterFirst = (n > 0 \<and> flt_lt (f_div (of_int64 (int (bitmap_len cands))) (of_int64 (int n))) filterFirstThreshold),
                vpMatchAll = False, vpCands = cands, vpClusters = plan_clusters af cands, vpAttrs = Some af\<rparr>, s)))))"

section \<open>Candidates from the index\<close>

type_synonym cands = "(string, flt) gomap \<times> (string, attrs) gomap"

definition put_cand :: "string \<Rightarrow> vec \<Rightarrow> ClusterEntry \<Rightarrow> cands \<Rightarrow> cands" where
  "put_cand metric query x da = (AList.update (eID x) (Distance metric query (eVector x)) (fst da),
     AList.update (eID x) (eAttrs x) (snd da))"

text \<open>The filter-first plan: the wanted ids per cluster, then one fetch per cluster.\<close>

definition want :: "AttrsFile \<Rightarrow> 32 word \<Rightarrow> (int, string list) gomap \<Rightarrow> (int, string list) gomap" where
  "want af ord wanted =
     (if unat ord \<ge> length (aClusterOf af) then wanted
      else (let c = aClusterOf af ! unat ord in
        if c < 0 then wanted
        else AList.update c (List.insert (aOrds af ! unat ord) (lookup wanted c [])) wanted))"

definition want_panics :: "AttrsFile \<Rightarrow> 32 word list \<Rightarrow> bool" where
  "want_panics af ords \<longleftrightarrow> list_ex (\<lambda>ord. unat ord < length (aClusterOf af) \<and>
     aClusterOf af ! unat ord \<ge> 0 \<and> unat ord \<ge> length (aOrds af)) ords"

fun fetch_wanted :: "string \<Rightarrow> int \<Rightarrow> string \<Rightarrow> vec \<Rightarrow> (int, string list) gomap \<Rightarrow> int list \<Rightarrow> cands \<Rightarrow> db
    \<Rightarrow> (err + cands) \<times> db" where
  "fetch_wanted indexNS epoch metric query wanted [] da s = (Inr da, s)"
| "fetch_wanted indexNS epoch metric query wanted (c # cs) da s = (case GetCached (clusterKey indexNS epoch c) s of
     (Inl e, s) \<Rightarrow> (Inl (StoreErr e), s)
   | (Inr (WCluster clf), s) \<Rightarrow> fetch_wanted indexNS epoch metric query wanted cs
       (fold (put_cand metric query) (filter (\<lambda>mem. eID mem \<in> set (lookup wanted c [])) (clMembers clf)) da) s
   | (Inr _, s) \<Rightarrow> (Inl DecodeErr, s))"

definition filterFirstCandidates :: "qenv \<Rightarrow> string \<Rightarrow> int \<Rightarrow> string \<Rightarrow> vec \<Rightarrow> vectorPlan \<Rightarrow> cands \<Rightarrow> db \<Rightarrow> (err + cands) \<times> db" where
  "filterFirstCandidates env indexNS epoch metric query plan da s = (case vpAttrs plan of
     None \<Rightarrow> (Inl panicked, s)
   | Some af \<Rightarrow>
       (let ords = toSorted (vpCands plan) in
        if want_panics af ords then (Inl panicked, s)
        else (let wanted = fold (want af) ords [] in
          fetch_wanted indexNS epoch metric query wanted (vRange env (map fst wanted)) da s)))"

text \<open>
  The scores of one cluster's members, lower is better: by the estimator when the epoch has a rotation,
  otherwise by the negated agreement of the sign codes.
\<close>

definition member_scores :: "string \<Rightarrow> vec \<Rightarrow> Rotation option \<Rightarrow> nat \<Rightarrow> ClusterFile \<Rightarrow> rng \<Rightarrow> (flt \<times> ClusterEntry) list \<times> rng" where
  "member_scores metric query rot dimn clf g = (case rot of
     Some rot \<Rightarrow> (case EncodeQuery query (clCentroid clf) rot g of (qc, g) \<Rightarrow>
       (map (\<lambda>mem. (case eRaBitQ mem of
            Some code \<Rightarrow> EstimateDistance metric code qc
          | None \<Rightarrow> Distance metric query (eVector mem), mem)) (clMembers clf), g))
   | None \<Rightarrow> (let qCode = ResidualCode query (clCentroid clf) in
       (map (\<lambda>mem. (fneg (of_int64 (Agreement qCode (eCode mem) (int dimn))), mem)) (clMembers clf), g)))"

fun scan_probes :: "string \<Rightarrow> int \<Rightarrow> string \<Rightarrow> vec \<Rightarrow> Rotation option \<Rightarrow> nat \<Rightarrow> (nat \<Rightarrow> bool) \<Rightarrow> nat list \<Rightarrow>
    (flt \<times> ClusterEntry) list \<Rightarrow> rng \<Rightarrow> db \<Rightarrow> (err + (flt \<times> ClusterEntry) list) \<times> db" where
  "scan_probes indexNS epoch metric query rot dimn skip [] shortlist g s = (Inr shortlist, s)"
| "scan_probes indexNS epoch metric query rot dimn skip (c # cs) shortlist g s =
     (if skip c then scan_probes indexNS epoch metric query rot dimn skip cs shortlist g s
      else (case GetCached (clusterKey indexNS epoch (int c)) s of
        (Inl e, s) \<Rightarrow> (Inl (StoreErr e), s)
      | (Inr (WCluster clf), s) \<Rightarrow> (case member_scores metric query rot dimn clf g of (xs, g) \<Rightarrow>
          scan_probes indexNS epoch metric query rot dimn skip cs (shortlist @ xs) g s)
      | (Inr _, s) \<Rightarrow> (Inl DecodeErr, s)))"

definition entry_before :: "flt \<times> ClusterEntry \<Rightarrow> flt \<times> ClusterEntry \<Rightarrow> bool" where
  "entry_before a b = nearer (fst a, eID (snd a)) (fst b, eID (snd b))"

text \<open>\<open>rabitq\<close> chooses the score; the skip test is the plan's prune.\<close>

definition vectorCandidatesFromIndex :: "qenv \<Rightarrow> string \<Rightarrow> int \<Rightarrow> string \<Rightarrow> vec \<Rightarrow> int \<Rightarrow> int \<Rightarrow> vectorPlan \<Rightarrow> cands \<Rightarrow> db
    \<Rightarrow> (err + cands) \<times> db" where
  "vectorCandidatesFromIndex env indexNS epoch metric query nProbe topK plan da s =
     (if vpFilterFirst plan then filterFirstCandidates env indexNS epoch metric query plan da s
      else (case GetCached (centroidsKey indexNS epoch) s of
        (Inl e, s) \<Rightarrow> ((if e = ErrNotFound then Inr da else Inl (StoreErr e)), s)
      | (Inr (WCentroids cf), s) \<Rightarrow>
          (if cfCentroids cf = [] then (Inr da, s)
           else (let probes = fst (probeClusters cf metric query nProbe);
                     skip = (\<lambda>c. vpUsable plan \<and> int c \<notin> set (vpClusters plan))
             in case scan_probes indexNS epoch metric query (cfRotation cf) (cfDimension cf) skip probes []
                      (vSource env rotationSeed) s of
               (Inl e, s) \<Rightarrow> (Inl e, s)
             | (Inr shortlist, s) \<Rightarrow>
                 (let limit = wrap64 (topK * shortlistMultiplier);
                      kept = (if int (length shortlist) > limit then cut limit (sort_by entry_before shortlist) else Some shortlist)
                  in case kept of
                    None \<Rightarrow> (Inl panicked, s)
                  | Some shortlist \<Rightarrow> (Inr (fold (put_cand metric query) (map snd shortlist) da), s))))
      | (Inr _, s) \<Rightarrow> (Inl DecodeErr, s)))"

definition PrefilterShortlist :: "qenv \<Rightarrow> string \<Rightarrow> Manifest \<Rightarrow> vec \<Rightarrow> int \<Rightarrow> int \<Rightarrow> bool \<Rightarrow> db \<Rightarrow> (err + string list) \<times> db" where
  "PrefilterShortlist env ns m query nProbe limit rabitq s =
     (if mIndexEpoch m = 0 then (Inr [], s)
      else (case GetCached (centroidsKey ns (mIndexEpoch m)) s of
        (Inl e, s) \<Rightarrow> ((if e = ErrNotFound then Inr [] else Inl (StoreErr e)), s)
      | (Inr (WCentroids cf), s) \<Rightarrow>
          (if cfCentroids cf = [] then (Inr [], s)
           else if rabitq \<and> cfRotation cf = None then (Inl (QueryErr ''no rotation''), s)
           else (case scan_probes ns (mIndexEpoch m) (mMetric m) query (if rabitq then cfRotation cf else None)
                    (cfDimension cf) (\<lambda>c. False) (fst (probeClusters cf (mMetric m) query nProbe)) []
                    (vSource env rotationSeed) s of
             (Inl e, s) \<Rightarrow> (Inl e, s)
           | (Inr xs, s) \<Rightarrow> (case cut limit (sort_by entry_before xs) of
               None \<Rightarrow> (Inl panicked, s)
             | Some xs \<Rightarrow> (Inr (map (\<lambda>(x, mem). eID mem) xs), s))))
      | (Inr _, s) \<Rightarrow> (Inl DecodeErr, s)))"

section \<open>The two legs\<close>

definition drop_cand :: "string \<Rightarrow> cands \<Rightarrow> cands" where
  "drop_cand i da = (AList.delete i (fst da), AList.delete i (snd da))"

text \<open>One live document of the tail over the candidates, and the tombstones after them.\<close>

definition overlay_vec :: "string \<Rightarrow> vec \<Rightarrow> string \<times> Document \<Rightarrow> cands \<Rightarrow> cands" where
  "overlay_vec metric query e da = (case dVector (snd e) of
     None \<Rightarrow> drop_cand (fst e) da
   | Some v \<Rightarrow> (AList.update (fst e) (Distance metric query v) (fst da),
       AList.update (fst e) (dAttributes (snd e)) (snd da)))"

text \<open>The candidates of the index, none when there is no epoch.\<close>

definition gather_vec :: "qenv \<Rightarrow> Manifest \<Rightarrow> readView \<Rightarrow> QueryParams \<Rightarrow> vec \<Rightarrow> int \<Rightarrow> db \<Rightarrow> (err + cands) \<times> db" where
  "gather_vec env m v p query topK s =
     (let nProbe = (if qNProbe p \<le> 0 then defaultNProbe else qNProbe p) in
      if rvIndexEpoch v > 0 then
        (case planVectorQuery (rvIndexNS v) (rvIndexEpoch v) (qFilter p) s of
           (Inl e, s) \<Rightarrow> (Inl e, s)
         | (Inr plan, s) \<Rightarrow> vectorCandidatesFromIndex env (rvIndexNS v) (rvIndexEpoch v) (mMetric m)
             query nProbe topK plan ([], []) s)
      else (Inr ([], []), s))"

definition vec_hits :: "Filter \<Rightarrow> cands \<Rightarrow> QueryResult list" where
  "vec_hits flter da = map (\<lambda>(i, d). (empty_result i)\<lparr>rDist := d, rAttributes := lookup (snd da) i []\<rparr>)
     (filter (\<lambda>(i, d). Filter_Match flter (lookup (snd da) i [])) (fst da))"

definition query_vec :: "QueryParams \<Rightarrow> vec" where
  "query_vec p = (case rVector (qRankBy p) of None \<Rightarrow> [] | Some q \<Rightarrow> q)"

definition runVectorQuery :: "qenv \<Rightarrow> Manifest \<Rightarrow> readView \<Rightarrow> QueryParams \<Rightarrow> int \<Rightarrow> db \<Rightarrow> (err + QueryResult list) \<times> db" where
  "runVectorQuery env m v p topK s =
     (let query = query_vec p in
      if int (length query) \<noteq> mDimension m then (Inl (BadDimension [] (length query) (mDimension m)), s)
      else (case gather_vec env m v p query topK s of
        (Inl e, s) \<Rightarrow> (Inl e, s)
      | (Inr da, s) \<Rightarrow> (case MaterializeView v (mIndexedUpTo m) (mWALSeq m) s of
          (Inl e, s) \<Rightarrow> (Inl e, s)
        | (Inr (live, deleted), s) \<Rightarrow>
            (let da = fold (overlay_vec (mMetric m) query) live da;
                 da = fold drop_cand (map fst deleted) da
             in case cut topK (sort_by by_dist (vec_hits (qFilter p) da)) of
                  None \<Rightarrow> (Inl panicked, s)
                | Some results \<Rightarrow> (Inr results, s)))))"

definition empty_bm25 :: BM25File where
  "empty_bm25 = \<lparr>bN = 0, bAvgDL = Fin 0, bDocLen = [], bIndex = []\<rparr>"

definition loadBM25Epoch :: "string \<Rightarrow> int \<Rightarrow> db \<Rightarrow> (err + BM25File \<times> (string, attrs) gomap) \<times> db" where
  "loadBM25Epoch ns epoch s = (case GetCached (bm25Key ns epoch) s of
     (Inl e, s) \<Rightarrow> ((if e = ErrNotFound then Inr (empty_bm25, []) else Inl (StoreErr e)), s)
   | (Inr (WBM25 idx), s) \<Rightarrow> (case GetCached (docsKey ns epoch) s of
       (Inl e, s) \<Rightarrow> (Inl (StoreErr e), s)
     | (Inr (WDocs df), s) \<Rightarrow> (Inr (idx, dfDocs df), s)
     | (Inr _, s) \<Rightarrow> (Inl DecodeErr, s))
   | (Inr _, s) \<Rightarrow> (Inl DecodeErr, s))"

definition indexed_hits :: "(string, flt) gomap \<Rightarrow> (string, attrs) gomap \<Rightarrow> cands" where
  "indexed_hits hits docs = fold (\<lambda>(i, score) da.
     (AList.update i score (fst da), AList.update i (lookup docs i []) (snd da))) hits ([], [])"

definition overlay_text :: "qenv \<Rightarrow> string \<Rightarrow> BM25File \<Rightarrow> string list \<Rightarrow> string \<times> Document \<Rightarrow> cands \<Rightarrow> cands" where
  "overlay_text env textField idx queryTerms e sa =
     (let score = ScoreDoc (vUnicode env) (vLog env) idx (textFieldValue (dAttributes (snd e)) textField) queryTerms in
      if flt_le score (Fin 0) then drop_cand (fst e) sa
      else (AList.update (fst e) score (fst sa), AList.update (fst e) (dAttributes (snd e)) (snd sa)))"

definition gather_text :: "qenv \<Rightarrow> readView \<Rightarrow> string list \<Rightarrow> db \<Rightarrow> (err + BM25File \<times> cands) \<times> db" where
  "gather_text env v queryTerms s =
     (if rvIndexEpoch v > 0 then
        (case loadBM25Epoch (rvIndexNS v) (rvIndexEpoch v) s of
           (Inl e, s) \<Rightarrow> (Inl e, s)
         | (Inr (idx, docs), s) \<Rightarrow> (Inr (idx, indexed_hits (Score (vLog env) idx queryTerms) docs), s))
      else (Inr (empty_bm25, ([], [])), s))"

definition text_hits :: "Filter \<Rightarrow> cands \<Rightarrow> QueryResult list" where
  "text_hits flter sa = map (\<lambda>(i, x). (empty_result i)\<lparr>rScore := x, rAttributes := lookup (snd sa) i []\<rparr>)
     (filter (\<lambda>(i, x). Filter_Match flter (lookup (snd sa) i [])) (fst sa))"

definition runBM25Query :: "qenv \<Rightarrow> Manifest \<Rightarrow> readView \<Rightarrow> QueryParams \<Rightarrow> int \<Rightarrow> db \<Rightarrow> (err + QueryResult list) \<times> db" where
  "runBM25Query env m v p topK s =
     (if mTextField m = [] then (Inl (QueryErr ''no text field''), s)
      else (let queryTerms = Tokenize (vUnicode env) (rText (qRankBy p)) in
        case gather_text env v queryTerms s of
          (Inl e, s) \<Rightarrow> (Inl e, s)
        | (Inr (idx, sa), s) \<Rightarrow> (case MaterializeView v (mIndexedUpTo m) (mWALSeq m) s of
            (Inl e, s) \<Rightarrow> (Inl e, s)
          | (Inr (live, deleted), s) \<Rightarrow>
              (let sa = fold (overlay_text env (mTextField m) idx queryTerms) live sa;
                   sa = fold drop_cand (map fst deleted) sa
               in case cut topK (sort_by by_score (text_hits (qFilter p) sa)) of
                    None \<Rightarrow> (Inl panicked, s)
                  | Some results \<Rightarrow> (Inr results, s)))))"

section \<open>RunQuery\<close>

definition runHybridQuery :: "qenv \<Rightarrow> Manifest \<Rightarrow> readView \<Rightarrow> QueryParams \<Rightarrow> int \<Rightarrow> db \<Rightarrow> (err + QueryResult list) \<times> db" where
  "runHybridQuery env m v p topK s =
     (let window = wrap64 (topK * hybridShortlistMultiplier) in
      case runVectorQuery env m v p window s of
        (Inl e, s) \<Rightarrow> (Inl e, s)
      | (Inr vecResults, s) \<Rightarrow> (case runBM25Query env m v p window s of
          (Inl e, s) \<Rightarrow> (Inl e, s)
        | (Inr textResults, s) \<Rightarrow> (case fuseRRF vecResults textResults topK of
            None \<Rightarrow> (Inl panicked, s)
          | Some results \<Rightarrow> (Inr results, s))))"

definition RunQuery :: "qenv \<Rightarrow> string \<Rightarrow> QueryParams \<Rightarrow> db \<Rightarrow> (err + QueryResult list) \<times> db" where
  "RunQuery env ns p s = (case LoadManifest ns s of
     (Inl e, s) \<Rightarrow> (Inl e, s)
   | (Inr (m, etag), s) \<Rightarrow>
       (let vec = IsVector (qRankBy p); txt = IsText (qRankBy p) in
        if \<not> vec \<and> \<not> txt then (Inl (QueryErr ''no rank mode''), s)
        else (let topK = (if qTopK p \<le> 0 then defaultTopK else qTopK p) in
          case resolveReadView ns m s of
            (Inl e, s) \<Rightarrow> (Inl e, s)
          | (Inr v, s) \<Rightarrow>
              (if vec \<and> txt then runHybridQuery env m v p topK s
               else if vec then runVectorQuery env m v p topK s
               else runBM25Query env m v p topK s))))"

definition Namespace_Query :: "qenv \<Rightarrow> string \<Rightarrow> QueryParams \<Rightarrow> db \<Rightarrow> (err + QueryResult list) \<times> db" where
  "Namespace_Query env name p s = RunQuery env name p s"

end
