(* ===== verification/QueryPlan.thy ===== *)
theory QueryPlan
  imports Query
begin

text \<open>
  The planner is exact: a filter that compiles to bitmaps selects the ordinals of exactly the documents
  that \<open>Filter.Match\<close> accepts, apart from one value, the negative zero.
\<close>

section \<open>Values as keys\<close>

text \<open>Values on which the printed key and \<open>==\<close> agree: not NaN, which JSON cannot carry, and not -0.\<close>

definition plain :: "aval \<Rightarrow> bool" where
  "plain v \<longleftrightarrow> (case numericValue v of None \<Rightarrow> True | Some x \<Rightarrow> x \<noteq> NaN \<and> x \<noteq> NegZero)"

fun plain_filter :: "Filter \<Rightarrow> bool" where
  "plain_filter (Filter op field v sub) \<longleftrightarrow> plain v \<and> list_all plain_filter sub"

lemma flt_eq_plain: "x \<noteq> NegZero \<Longrightarrow> y \<noteq> NegZero \<Longrightarrow> flt_eq x y \<longleftrightarrow> x = y \<and> x \<noteq> NaN"
  by (cases x; cases y) auto

lemma DeepEqual_str: "DeepEqual a (AStr t) \<longleftrightarrow> a = AStr t"
  by (cases a) auto

lemma DeepEqual_bool: "DeepEqual a (ABool b) \<longleftrightarrow> a = ABool b"
  by (cases a) auto

lemma key_match:
  assumes "plain a" "plain b" "valueKey b = Some key"
  shows "equalValues a b \<longleftrightarrow> valueKey a = Some key"
proof (cases "numericValue b")
  case None
  then consider t where "b = AStr t" "key = KeyS t" | x where "b = ABool x" "key = KeyB x"
    using assms(3) by (cases b) auto
  then show ?thesis
    by cases (cases a; auto simp: equalValues_def DeepEqual_str DeepEqual_bool)+
next
  case (Some y)
  then have k: "key = KeyN y" using assms(3) by simp
  show ?thesis
  proof (cases "numericValue a")
    case None
    then show ?thesis using Some k by (cases a) (auto simp: equalValues_def)
  next
    case (Some x)
    with \<open>numericValue b = Some y\<close> assms(1,2) k show ?thesis
      by (auto simp: equalValues_def plain_def flt_eq_plain)
  qed
qed

section \<open>Compiled filters\<close>

text \<open>A bitmap stands for a set of the first \<open>n\<close> ordinals.\<close>

definition selects :: "nat \<Rightarrow> (nat \<Rightarrow> bool) \<Rightarrow> bitmap \<Rightarrow> bool" where
  "selects n P bm \<longleftrightarrow> b_ok bm \<and> bset bm = of_nat ` {ord. ord < n \<and> P ord}"

lemma of_nat_inj: "n \<le> 2 ^ 32 \<Longrightarrow> inj_on (of_nat :: nat \<Rightarrow> 32 word) {..<n}"
  by (rule inj_onI) (auto simp: word_of_nat_eq_iff take_bit_nat_eq_self)

lemma selects_and:
  assumes "n \<le> 2 ^ 32" "selects n P b" "selects n Q e"
  shows "selects n (\<lambda>ord. P ord \<and> Q ord) (bitmap_and b e)"
proof -
  have "of_nat ` {ord. ord < n \<and> P ord} \<inter> of_nat ` {ord. ord < n \<and> Q ord} =
      (of_nat ` ({ord. ord < n \<and> P ord} \<inter> {ord. ord < n \<and> Q ord}) :: 32 word set)"
    by (rule inj_on_image_Int [OF of_nat_inj [OF assms(1)], symmetric]) auto
  moreover have "{ord. ord < n \<and> P ord} \<inter> {ord. ord < n \<and> Q ord} = {ord. ord < n \<and> P ord \<and> Q ord}" by auto
  ultimately show ?thesis using assms(2,3) by (simp add: selects_def ids.inter)
qed

lemma selects_or:
  assumes "selects n P b" "selects n Q e"
  shows "selects n (\<lambda>ord. P ord \<or> Q ord) (bitmap_or b e)"
  using assms by (auto simp: selects_def ids.union)

lemma selects_none: "selects n (\<lambda>ord. False) newBitmap"
  by (simp add: selects_def newBitmap_def bset_def)

lemma foldl_and:
  assumes "n \<le> 2 ^ 32"
  shows "list_all2 (\<lambda>f bm. selects n (P f) bm) fs bms \<Longrightarrow> selects n Q b \<Longrightarrow>
    selects n (\<lambda>ord. Q ord \<and> list_all (\<lambda>f. P f ord) fs) (foldl bitmap_and b bms)"
proof (induction fs bms arbitrary: b Q rule: list_all2_induct)
  case (Cons f fs bm bms)
  from Cons.IH [OF selects_and [OF assms Cons.prems Cons.hyps(1)]] show ?case by (simp add: conj_assoc)
qed simp

lemma foldl_or:
  "list_all2 (\<lambda>f bm. selects n (P f) bm) fs bms \<Longrightarrow> selects n Q b \<Longrightarrow>
    selects n (\<lambda>ord. Q ord \<or> list_ex (\<lambda>f. P f ord) fs) (foldl bitmap_or b bms)"
proof (induction fs bms arbitrary: b Q rule: list_all2_induct)
  case (Cons f fs bm bms)
  from Cons.IH [OF selects_or [OF Cons.prems Cons.hyps(1)]] show ?case by (simp add: disj_assoc)
qed simp

lemma those_all2: "those (map g fs) = Some bms \<Longrightarrow> list_all2 (\<lambda>f bm. g f = Some bm) fs bms"
proof (induction fs arbitrary: bms)
  case (Cons f fs)
  then show ?case by (auto split: option.splits)
qed simp

text \<open>An attribute file is exact for the attribute maps \<open>ats\<close> of the first \<open>n\<close> ordinals.\<close>

definition exact_for :: "AttrsFile \<Rightarrow> string \<Rightarrow> nat \<Rightarrow> (nat \<Rightarrow> attrs) \<Rightarrow> bool" where
  "exact_for af tf n ats \<longleftrightarrow> n \<le> 2 ^ 32 \<and>
     (\<forall>field fv key. map_of (aValues af) field = Some fv \<longrightarrow> field \<noteq> tf \<and>
        posting_list fv key = map of_nat (filter (\<lambda>ord. has_key tf (ats ord) field key) [0..<n]))"

lemma exact_forD:
  assumes "exact_for af tf n ats" "map_of (aValues af) field = Some fv"
  shows "field \<noteq> tf" "set (lookup fv key []) = of_nat ` {ord. ord < n \<and> has_key tf (ats ord) field key}"
proof -
  have "lookup fv key [] = posting_list fv key" by (simp add: lookup_def posting_list_def)
  moreover have "posting_list fv key = map of_nat (filter (\<lambda>ord. has_key tf (ats ord) field key) [0..<n])"
    using assms by (simp add: exact_for_def)
  ultimately show "set (lookup fv key []) = of_nat ` {ord. ord < n \<and> has_key tf (ats ord) field key}" by auto
  show "field \<noteq> tf" using assms by (simp add: exact_for_def)
qed

lemma compileFilter_selects:
  assumes "exact_for af tf n ats" "\<forall>ord < n. \<forall>(k, v) \<in> set (ats ord). plain v"
  shows "plain_filter f \<Longrightarrow> compileFilter af f = Some bm \<Longrightarrow> selects n (\<lambda>ord. Filter_Match f (ats ord)) bm"
proof (induction f arbitrary: bm)
  case (Filter op field v sub)
  have n: "n \<le> 2 ^ 32" using assms(1) by (simp add: exact_for_def)
  have subs: "list_all2 (\<lambda>f bm. selects n (\<lambda>ord. Filter_Match f (ats ord)) bm) sub bms"
    if "those (map (compileFilter af) sub) = Some bms" for bms
    using those_all2 [OF that] Filter.IH Filter.prems(1)
    by (auto simp: list_all2_conv_all_nth list_all_length)
  consider (eq) "op = ''eq''" | (conj) "op = ''and''" | (disj) "op = ''or''"
    using Filter.prems(2) by (auto split: if_splits)
  then show ?case
  proof cases
    case eq
    with Filter.prems(2) obtain fv key where fv: "map_of (aValues af) field = Some fv" "valueKey v = Some key"
      "bm = bitmapFromSorted (lookup fv key [])"
      by (auto split: option.splits simp del: valueKey.simps)
    have "has_key tf (ats ord) field key \<longleftrightarrow> Filter_Match (Filter op field v sub) (ats ord)" if "ord < n" for ord
    proof (cases "map_of (ats ord) field")
      case (Some a)
      have "plain a" using map_of_SomeD [OF Some] assms(2) that by fastforce
      then show ?thesis using Some eq key_match [OF _ _ fv(2)] exact_forD(1) [OF assms(1) fv(1)] Filter.prems(1)
        by (simp add: has_key_def del: valueKey.simps)
    qed (use eq in \<open>simp add: has_key_def\<close>)
    then have "{ord. ord < n \<and> has_key tf (ats ord) field key} = {ord. ord < n \<and> Filter_Match (Filter op field v sub) (ats ord)}"
      by blast
    with exact_forD(2) [OF assms(1) fv(1), of key] show ?thesis
      by (simp only: selects_def fv(3) from_sorted simp_thms)
  next
    case conj
    with Filter.prems(2) obtain b bms where b: "those (map (compileFilter af) sub) = Some (b # bms)" "bm = foldl bitmap_and b bms"
      by (auto split: option.splits list.splits)
    from subs [OF b(1)] obtain f fs where s: "sub = f # fs" "selects n (\<lambda>ord. Filter_Match f (ats ord)) b"
      "list_all2 (\<lambda>f bm. selects n (\<lambda>ord. Filter_Match f (ats ord)) bm) fs bms"
      by (auto simp: list_all2_Cons2)
    from foldl_and [OF n s(3,2)] b(2) conj s(1) show ?thesis by simp
  next
    case disj
    with Filter.prems(2) obtain bms where b: "those (map (compileFilter af) sub) = Some bms" "bm = foldl bitmap_or newBitmap bms"
      by (auto split: option.splits if_splits)
    from foldl_or [OF subs [OF b(1)] selects_none] b(2) disj show ?thesis by simp
  qed
qed

lemma attrsFile_exact_for:
  assumes "wf_map live" "\<forall>(i, d) \<in> set live. wf_map (dAttributes d)" "length live \<le> 2 ^ 32"
    and "mset ordinals = mset (assignOrdinals live)"
  shows "exact_for (attrsFile tf live ordinals cof) tf (length live) (\<lambda>ord. attrs_of live (sort (map fst live) ! ord))"
  using attrsFile_spec [OF assms, of tf cof] assms(3) by (auto simp: exact_for_def)

lemma attrs_of_plain:
  assumes "\<forall>(i, d) \<in> set live. \<forall>(k, v) \<in> set (dAttributes d). plain v"
  shows "\<forall>ord < n. \<forall>(k, v) \<in> set (attrs_of live (f ord)). plain v"
proof -
  have "\<forall>(k, v) \<in> set (attrs_of live i). plain v" for i
  proof (cases "map_of live i")
    case (Some d)
    with assms map_of_SomeD [OF Some] show ?thesis unfolding attrs_of_def by fastforce
  qed (simp add: attrs_of_def)
  then show ?thesis by blast
qed

text \<open>
  C7. A compiled filter is the filter: over the attribute file that a build writes, in whatever order it
  ranged over its maps, the bitmap that \<open>compileFilter\<close> makes of any filter, nested as it may be, lists
  exactly the ordinals of the documents that \<open>Filter.Match\<close> accepts.  So neither pruning a cluster that
  holds no candidate nor gathering only the candidates can change the answer.  (For values other than
  the negative zero, see below.)
\<close>

theorem compileFilter_is_Match:
  assumes "wf_map live" "\<forall>(i, d) \<in> set live. wf_map (dAttributes d)" "length live \<le> 2 ^ 32"
    and "mset ordinals = mset (assignOrdinals live)"
    and "\<forall>(i, d) \<in> set live. \<forall>(k, v) \<in> set (dAttributes d). plain v" "plain_filter f"
    and "compileFilter (attrsFile tf live ordinals cof) f = Some bm"
  shows "toSorted bm = map of_nat (filter (\<lambda>ord. Filter_Match f (attrs_of live (sort (map fst live) ! ord))) [0..<length live])"
proof -
  note s = compileFilter_selects [OF attrsFile_exact_for [OF assms(1-4)] attrs_of_plain [OF assms(5)] assms(6,7)]
  then have "b_ok bm" "bset bm = of_nat ` {ord. ord < length live \<and> Filter_Match f (attrs_of live (sort (map fst live) ! ord))}"
    by (simp_all add: selects_def)
  then show ?thesis
    by (intro sorted_eqI [OF _ sorted_ordinals(1) [OF assms(3)]])
      (simp_all only: toSorted_ok sorted_ordinals(2) [OF assms(3)])
qed

text \<open>A nested filter over two documents, one of which it selects.\<close>

definition demo_filter :: Filter where
  "demo_filter = Filter ''or'' [] ANil
     [Filter ''and'' [] ANil [Filter ''eq'' ''lang'' (AStr ''go'') [], Filter ''eq'' ''n'' (AInt KInt 1) []],
      Filter ''eq'' ''lang'' (AStr ''c'') []]"

definition demo_live :: live where
  "demo_live = [(''b'', \<lparr>dID = ''b'', dVector = None, dAttributes = [(''lang'', AStr ''go''), (''n'', AF64 (Fin 1))], dDeleted = False\<rparr>),
     (''a'', \<lparr>dID = ''a'', dVector = None, dAttributes = [(''lang'', AStr ''go''), (''n'', AF64 (Fin 2))], dDeleted = False\<rparr>)]"

theorem compileFilter_is_Match_witness:
  "\<exists>bm. compileFilter (attrsFile [] demo_live (rev (assignOrdinals demo_live)) []) demo_filter = Some bm \<and> toSorted bm = [1]"
proof -
  have hyp: "wf_map demo_live" "\<forall>(i, d) \<in> set demo_live. wf_map (dAttributes d)" "length demo_live \<le> 2 ^ 32"
    "mset (rev (assignOrdinals demo_live)) = mset (assignOrdinals demo_live)"
    "\<forall>(i, d) \<in> set demo_live. \<forall>(k, v) \<in> set (dAttributes d). plain v"
    by (auto simp: demo_live_def wf_map_def plain_def)
  have f: "plain_filter demo_filter" by code_simp
  have "compileFilter (attrsFile [] demo_live (rev (assignOrdinals demo_live)) []) demo_filter \<noteq> None" by code_simp
  then obtain bm where bm: "compileFilter (attrsFile [] demo_live (rev (assignOrdinals demo_live)) []) demo_filter = Some bm" by blast
  have m: "filter (\<lambda>ord. Filter_Match demo_filter (attrs_of demo_live (sort (map fst demo_live) ! ord))) [0..<length demo_live] = [1]"
    by code_simp
  from compileFilter_is_Match [OF hyp f bm] bm show ?thesis unfolding m by simp
qed

text \<open>
  The negative zero: \<open>-0\<close> equals \<open>0\<close> for \<open>Filter.Match\<close>, but its key is another one, so the compiled
  filter misses a document that the scan would keep; a query for it can lose its answer when the
  attribute is indexed.
\<close>

theorem negative_zero_is_pruned:
  "let d = \<lparr>dID = ''a'', dVector = None, dAttributes = [(''n'', AF64 (Fin 0))], dDeleted = False\<rparr>;
       f = Filter ''eq'' ''n'' (AF64 NegZero) []
   in Filter_Match f (dAttributes d) \<and>
      map_option toSorted (compileFilter (attrsFile [] [(''a'', d)] (assignOrdinals [(''a'', d)]) []) f) = Some []"
  by code_simp

end
