(* ===== verification/Fusion.thy ===== *)
theory Fusion
  imports QueryPlan
begin

text \<open>
  Ranking: the orders of \<open>query.go\<close> as instances of \<open>slice_order\<close>, what \<open>sort\<close> followed by a cut keeps,
  and the functional specification of reciprocal rank fusion.
\<close>

section \<open>The best of a list\<close>

text \<open>\<open>ys\<close> is the best \<open>k\<close> of \<open>xs\<close>: sorted, and nothing left out ranks before anything kept.\<close>

definition best :: "('a \<Rightarrow> 'a \<Rightarrow> bool) \<Rightarrow> int \<Rightarrow> 'a list \<Rightarrow> 'a list \<Rightarrow> bool" where
  "best lt k xs ys \<longleftrightarrow> length ys = min (nat k) (length xs) \<and> mset ys \<subseteq># mset xs \<and>
     sorted_wrt (\<lambda>a b. \<not> lt b a) ys \<and> (\<forall>x \<in> set xs. x \<in> set ys \<or> (\<forall>y \<in> set ys. \<not> lt x y))"

context slice_order
begin

lemma cut_best:
  assumes "list_all carrier xs" "0 \<le> k"
  shows "\<exists>ys. cut k (sort_by lt xs) = Some ys \<and> best lt k xs ys"
proof -
  let ?zs = "sort_by lt xs"
  have s: "sorted_wrt (\<lambda>a b. \<not> lt b a) (take (nat k) ?zs @ drop (nat k) ?zs)"
    using sorted_sort_by [OF assms(1)] by simp
  have c: "cut k ?zs = Some (take (nat k) ?zs)" using assms(2) by (simp add: cut_def)
  have "x \<in> set (take (nat k) ?zs) \<or> x \<in> set (drop (nat k) ?zs)" if "x \<in> set xs" for x
    using that by (metis append_take_drop_id set_append set_sort_by Un_iff)
  with s have "\<forall>x \<in> set xs. x \<in> set (take (nat k) ?zs) \<or> (\<forall>y \<in> set (take (nat k) ?zs). \<not> lt x y)"
    unfolding sorted_wrt_append by blast
  moreover have "mset (take (nat k) ?zs) \<subseteq># mset xs"
    by (metis append_take_drop_id mset_append mset_sort_by mset_subset_eq_add_left)
  ultimately show ?thesis using s c by (auto simp: best_def sorted_wrt_append)
qed

lemma pullback: "slice_order (\<lambda>a b. lt (f a) (f b)) (\<lambda>a. carrier (f a))"
  by unfold_locales (blast dest: asym cotrans)+

end

interpretation nearer_order: slice_order nearer "\<lambda>a. fst a \<noteq> NaN"
proof
  fix x y z :: "flt \<times> string"
  assume nan: "fst x \<noteq> NaN" "fst y \<noteq> NaN"
  show "nearer x y \<Longrightarrow> \<not> nearer y x" using flt_lt_asym by (auto simp: nearer_def flt_eq_sym split: if_splits)
  assume "fst z \<noteq> NaN" "nearer x z"
  then show "nearer x y \<or> nearer y z"
    using nan by (auto simp: nearer_def flt_eq_iff split: if_splits dest: flt_lt_cotrans flt_lt_trans)
qed

interpretation higher_order: slice_order higher "\<lambda>a. fst a \<noteq> NaN"
proof
  fix x y z :: "flt \<times> string"
  assume nan: "fst x \<noteq> NaN" "fst y \<noteq> NaN"
  show "higher x y \<Longrightarrow> \<not> higher y x" using flt_lt_asym by (auto simp: higher_def flt_eq_sym split: if_splits)
  assume "fst z \<noteq> NaN" "higher x z"
  then show "higher x y \<or> higher y z"
    using nan by (auto simp: higher_def flt_eq_iff split: if_splits dest: flt_lt_cotrans flt_lt_trans)
qed

interpretation dist_rank: slice_order by_dist "\<lambda>r. rDist r \<noteq> NaN"
  using nearer_order.pullback [of "\<lambda>r. (rDist r, rID r)"] by (simp add: by_dist_def [abs_def])

interpretation score_rank: slice_order by_score "\<lambda>r. rScore r \<noteq> NaN"
  using higher_order.pullback [of "\<lambda>r. (rScore r, rID r)"] by (simp add: by_score_def [abs_def])

interpretation rrf_rank: slice_order by_rrf "\<lambda>r. rRRF r \<noteq> NaN"
  using higher_order.pullback [of "\<lambda>r. (rRRF r, rID r)"] by (simp add: by_rrf_def [abs_def])

section \<open>The fused map\<close>

definition leg_at :: "nat \<Rightarrow> QueryResult list \<Rightarrow> string \<Rightarrow> (nat \<times> QueryResult) option" where
  "leg_at k xs i = find (\<lambda>(j, r). rID r = i) (enumerate k xs)"

abbreviation leg :: "QueryResult list \<Rightarrow> string \<Rightarrow> (nat \<times> QueryResult) option" where
  "leg \<equiv> leg_at 0"

lemma leg_at_simps [simp]:
  "leg_at k [] i = None" "leg_at k (x # xs) i = (if rID x = i then Some (k, x) else leg_at (Suc k) xs i)"
  by (simp_all add: leg_at_def)

lemma leg_at_None: "leg_at k xs i = None \<longleftrightarrow> i \<notin> rID ` set xs"
  by (induction xs arbitrary: k) auto

definition fresh_entry :: "QueryResult \<Rightarrow> QueryResult option \<Rightarrow> QueryResult" where
  "fresh_entry r f = (case f of None \<Rightarrow> (empty_result (rID r))\<lparr>rAttributes := rAttributes r\<rparr> | Some f \<Rightarrow> f)"

definition with_attrs :: "QueryResult \<Rightarrow> QueryResult \<Rightarrow> QueryResult" where
  "with_attrs r f = (if rAttributes f = [] then f\<lparr>rAttributes := rAttributes r\<rparr> else f)"

definition vec_entry :: "nat \<Rightarrow> QueryResult \<Rightarrow> QueryResult option \<Rightarrow> QueryResult" where
  "vec_entry j r f = with_attrs r ((fresh_entry r f)\<lparr>rDist := rDist r, rRRF := f_add (rRRF (fresh_entry r f)) (rrf_term j)\<rparr>)"

definition text_entry :: "nat \<Rightarrow> QueryResult \<Rightarrow> QueryResult option \<Rightarrow> QueryResult" where
  "text_entry j r f = with_attrs r ((fresh_entry r f)\<lparr>rScore := rScore r, rRRF := f_add (rRRF (fresh_entry r f)) (rrf_term j)\<rparr>)"

lemma fuse_entries:
  "fuse_vec (j, r) fused = AList.update (rID r) (vec_entry j r (map_of fused (rID r))) fused"
  "fuse_text (j, r) fused = AList.update (rID r) (text_entry j r (map_of fused (rID r))) fused"
  by (simp_all add: fuse_vec_def fuse_text_def vec_entry_def text_entry_def Let_def fused_get_def lookup_def
      fresh_entry_def with_attrs_def split: option.split)

lemma fold_entries:
  assumes "\<And>j r m. step (j, r) m = AList.update (rID r) (E j r (map_of m (rID r))) m"
  shows "distinct (map rID xs) \<Longrightarrow> map_of (fold step (enumerate k xs) m) i =
    (case leg_at k xs i of None \<Rightarrow> map_of m i | Some (j, r) \<Rightarrow> Some (E j r (map_of m i)))"
    "wf_map m \<Longrightarrow> wf_map (fold step (enumerate k xs) m)"
    "fst ` set (fold step (enumerate k xs) m) = rID ` set xs \<union> fst ` set m"
proof (induction xs arbitrary: k m)
  case (Cons x xs)
  { case 1
    have "leg_at (Suc k) xs (rID x) = None" using 1 by (simp add: leg_at_None)
    with 1 Cons(1) [of "Suc k" "step (k, x) m"] show ?case
      by (cases "i = rID x") (simp_all add: assms update_conv' split: option.split)
  next
    case 2
    with Cons(2) [of "step (k, x) m" "Suc k"] show ?case by (simp add: assms)
  next
    case 3
    from Cons(3) [of "Suc k" "step (k, x) m"] show ?case by (auto simp: assms dom_update)
  }
qed auto

definition rrf_score :: "QueryResult list \<Rightarrow> QueryResult list \<Rightarrow> string \<Rightarrow> flt" where
  "rrf_score vec txt i =
     (let s = Fin 0;
          s = (case leg vec i of None \<Rightarrow> s | Some (j, r) \<Rightarrow> f_add s (f_div (Fin 1) (of_int64 (61 + int j))))
      in case leg txt i of None \<Rightarrow> s | Some (j, r) \<Rightarrow> f_add s (f_div (Fin 1) (of_int64 (61 + int j))))"

lemma rrf_term_61: "f_div (Fin 1) (of_int64 (61 + int j)) = rrf_term j"
  by (simp add: rrf_term_def rrfK_def add.commute)

lemma rrf_term_nonneg: "nonneg (rrf_term j)"
proof -
  have "0 \<le> rat_of_int (rrfK + (int j + 1))" "\<not> rat_of_int (rrfK + (int j + 1)) < 0" by (simp_all add: rrfK_def)
  then have "nonneg (of_int64 (rrfK + (int j + 1)))" "of_int64 (rrfK + (int j + 1)) \<noteq> NegZero"
    unfolding of_int64_def using nonneg_fround by (blast, simp add: fround_def Let_def)
  then show ?thesis unfolding rrf_term_def
    by (cases "of_int64 (rrfK + (int j + 1))") (auto simp: fdiv_def signed_zero_def)
qed

lemma rrf_score_nonneg: "nonneg (rrf_score vec txt i)"
  by (auto simp: rrf_score_def rrf_term_61 Let_def split: option.split intro!: nonneg_fadd rrf_term_nonneg)

text \<open>What the fused map holds for an id.\<close>

definition fused_of :: "QueryResult list \<Rightarrow> QueryResult list \<Rightarrow> string \<Rightarrow> QueryResult option" where
  "fused_of vec txt i =
     (let f = (case leg vec i of None \<Rightarrow> None | Some (j, r) \<Rightarrow> Some (vec_entry j r None))
      in case leg txt i of None \<Rightarrow> f | Some (j, r) \<Rightarrow> Some (text_entry j r f))"

lemma leg_at_id: "leg_at k xs i = Some (j, r) \<Longrightarrow> rID r = i \<and> r \<in> set xs"
  by (induction xs arbitrary: k) (auto split: if_splits)

lemma entry_fields [simp]:
  "rID (with_attrs r f) = rID f" "rDist (with_attrs r f) = rDist f" "rScore (with_attrs r f) = rScore f" "rRRF (with_attrs r f) = rRRF f"
  by (simp_all add: with_attrs_def)

lemma fused_of_fields:
  assumes "fused_of vec txt i = Some f"
  shows "rID f = i" "rRRF f = rrf_score vec txt i"
    "rDist f = (case leg vec i of None \<Rightarrow> Fin 0 | Some (j, r) \<Rightarrow> rDist r)"
    "rScore f = (case leg txt i of None \<Rightarrow> Fin 0 | Some (j, r) \<Rightarrow> rScore r)"
  using assms by (auto simp: fused_of_def Let_def rrf_score_def rrf_term_61 vec_entry_def text_entry_def fresh_entry_def empty_result_def
      dest!: leg_at_id split: option.splits)

lemma fused_of_dom: "fused_of vec txt i \<noteq> None \<longleftrightarrow> i \<in> rID ` set vec \<union> rID ` set txt"
  using leg_at_None [of 0 vec i] leg_at_None [of 0 "txt" i] by (auto simp only: fused_of_def Let_def split: option.splits)

lemma fuse_fold:
  assumes "distinct (map rID vec)" "distinct (map rID txt)"
  shows "map_of (fold fuse_text (enumerate 0 txt) (fold fuse_vec (enumerate 0 vec) [])) = fused_of vec txt"
    "wf_map (fold fuse_text (enumerate 0 txt) (fold fuse_vec (enumerate 0 vec) []))"
proof -
  have w: "wf_map (fold fuse_vec (enumerate 0 vec) [])"
    by (rule fold_entries(2) [where E = vec_entry]) (simp_all add: fuse_entries)
  then show "wf_map (fold fuse_text (enumerate 0 txt) (fold fuse_vec (enumerate 0 vec) []))"
    by (rule fold_entries(2) [where E = text_entry, rotated]) (simp add: fuse_entries)
  show "map_of (fold fuse_text (enumerate 0 txt) (fold fuse_vec (enumerate 0 vec) [])) = fused_of vec txt"
    by (rule ext) (simp add: fused_of_def Let_def fold_entries(1) [where E = text_entry, OF fuse_entries(2) assms(2)]
      fold_entries(1) [where E = vec_entry, OF fuse_entries(1) assms(1)] split: option.split)
qed

text \<open>
  C13. Reciprocal rank fusion, for two legs that rank distinct documents, of any length, and in whatever
  order Go ranges over the fused map: the result is the best \<open>topK\<close> of all documents of either leg under
  the sum of \<open>1/(60 + rank)\<close> over the legs that hold the document, ties by id; each result carries that
  sum and the raw distance and score of its legs; a document left out never ranks before one kept.
\<close>

theorem fuseRRF_is_the_best:
  assumes "distinct (map rID vec)" "distinct (map rID txt)" "0 \<le> topK"
  shows "\<exists>all results. fuseRRF vec txt topK = Some results \<and> best by_rrf topK all results \<and>
    distinct (map rID all) \<and> rID ` set all = rID ` set vec \<union> rID ` set txt \<and>
    (\<forall>f \<in> set all. rRRF f = rrf_score vec txt (rID f) \<and>
       rDist f = (case leg vec (rID f) of None \<Rightarrow> Fin 0 | Some (j, r) \<Rightarrow> rDist r) \<and>
       rScore f = (case leg txt (rID f) of None \<Rightarrow> Fin 0 | Some (j, r) \<Rightarrow> rScore r))"
proof -
  define fused where "fused = fold fuse_text (enumerate 0 txt) (fold fuse_vec (enumerate 0 vec) [])"
  note m = fuse_fold [OF assms(1,2), folded fused_def]
  have kv: "fused_of vec txt i = Some f \<and> rID f = i" if "(i, f) \<in> set fused" for i f
    using map_of_is_SomeI [OF _ that] m fused_of_fields(1) by (simp add: wf_map_def)
  then have el: "f \<in> set (map snd fused) \<Longrightarrow> fused_of vec txt (rID f) = Some f" for f by fastforce
  have keys: "map rID (map snd fused) = map fst fused" using kv by (auto simp: case_prod_beta)
  have "fst ` set fused = rID ` set vec \<union> rID ` set txt"
    using fused_of_dom [of vec "txt"] m(1) by (auto simp: set_eq_iff dom_map_of_conv_image_fst [symmetric] dom_def)
  then have dom: "rID ` set (map snd fused) = rID ` set vec \<union> rID ` set txt"
    by (metis keys list.set_map)
  have num: "list_all (\<lambda>r. rRRF r \<noteq> NaN) (map snd fused)"
    using el fused_of_fields(2) rrf_score_nonneg by (auto simp: list_all_iff nonneg_def) (metis imageI nonneg_def set_map snd_conv)
  from rrf_rank.cut_best [OF num assms(3)] obtain results
    where r: "cut topK (sort_by by_rrf (map snd fused)) = Some results" "best by_rrf topK (map snd fused) results" by blast
  have "fuseRRF vec txt topK = Some results" using r(1) by (simp add: fuseRRF_def fused_def)
  moreover have "distinct (map rID (map snd fused))" unfolding keys using m(2) by (simp add: wf_map_def)
  ultimately show ?thesis using r(2) dom el fused_of_fields by blast
qed

definition hit :: "string \<Rightarrow> flt \<Rightarrow> QueryResult" where
  "hit i x = (empty_result i)\<lparr>rDist := x\<rparr>"

text \<open>Second in both legs beats first in one of them.\<close>

theorem fuseRRF_is_the_best_witness:
  "\<exists>r. fuseRRF [hit ''a'' (Fin 1), hit ''b'' (Fin 2)] [hit ''c'' (Fin 3), hit ''b'' (Fin 4)] 1 = Some [r] \<and> rID r = ''b'' \<and> rDist r = Fin 2"
proof -
  have d: "distinct (map rID [hit ''a'' (Fin 1), hit ''b'' (Fin 2)])" "distinct (map rID [hit ''c'' (Fin 3), hit ''b'' (Fin 4)])"
    by (simp_all add: hit_def empty_result_def)
  from fuseRRF_is_the_best [OF d, of 1] obtain results
    where r: "fuseRRF [hit ''a'' (Fin 1), hit ''b'' (Fin 2)] [hit ''c'' (Fin 3), hit ''b'' (Fin 4)] 1 = Some results" by auto
  have "map_option (map (\<lambda>r. (rID r, rDist r))) (fuseRRF [hit ''a'' (Fin 1), hit ''b'' (Fin 2)] [hit ''c'' (Fin 3), hit ''b'' (Fin 4)] 1) =
    Some [(''b'', Fin 2)]" by code_simp
  with r show ?thesis by auto
qed

end
