(* ===== verification/QueryRun.thy ===== *)
theory QueryRun
  imports Fusion
begin

text \<open>
  What a query answers: the newest version of every id wins over the index, a tombstone hides it, and
  without an epoch the answer is the exact one.
\<close>

section \<open>The tail over the candidates\<close>

text \<open>Both legs overlay alike: a live document of the tail has a rank value, or drops out.\<close>

definition overlay :: "(Document \<Rightarrow> flt option) \<Rightarrow> string \<times> Document \<Rightarrow> cands \<Rightarrow> cands" where
  "overlay rank e da = (case rank (snd e) of
     None \<Rightarrow> drop_cand (fst e) da
   | Some x \<Rightarrow> (AList.update (fst e) x (fst da), AList.update (fst e) (dAttributes (snd e)) (snd da)))"

definition text_rank :: "qenv \<Rightarrow> string \<Rightarrow> BM25File \<Rightarrow> string list \<Rightarrow> Document \<Rightarrow> flt option" where
  "text_rank env textField idx queryTerms d =
     (let score = ScoreDoc (vUnicode env) (vLog env) idx (textFieldValue (dAttributes d) textField) queryTerms
      in if flt_le score (Fin 0) then None else Some score)"

lemma overlay_vec_rank: "overlay_vec metric query = overlay (\<lambda>d. map_option (Distance metric query) (dVector d))"
  by (intro ext) (auto simp: overlay_vec_def overlay_def split: option.split)

lemma overlay_text_rank: "overlay_text env textField idx queryTerms = overlay (text_rank env textField idx queryTerms)"
  by (intro ext) (auto simp: overlay_text_def overlay_def text_rank_def Let_def)

text \<open>The candidates as a map from ids to rank value and attributes.\<close>

definition cand_of :: "cands \<Rightarrow> string \<Rightarrow> (flt \<times> attrs) option" where
  "cand_of da i = (case map_of (fst da) i of None \<Rightarrow> None | Some x \<Rightarrow> Some (x, lookup (snd da) i []))"

definition newest :: "(Document \<Rightarrow> flt option) \<Rightarrow> (string, Document) gomap \<Rightarrow> (string, bool) gomap \<Rightarrow> cands \<Rightarrow>
    string \<Rightarrow> (flt \<times> attrs) option" where
  "newest rank live deleted da i = (if map_of deleted i \<noteq> None then None
     else case map_of live i of
       Some d \<Rightarrow> map_option (\<lambda>x. (x, dAttributes d)) (rank d)
     | None \<Rightarrow> cand_of da i)"

lemma overlay_at:
  "cand_of (overlay rank (j, d) da) i = (if i = j then map_option (\<lambda>x. (x, dAttributes d)) (rank d) else cand_of da i)"
  by (auto simp: overlay_def cand_of_def drop_cand_def lookup_def update_conv' delete_conv' split: option.splits)

lemma fold_overlay:
  "wf_map live \<Longrightarrow> cand_of (fold (overlay rank) live da) i =
    (case map_of live i of Some d \<Rightarrow> map_option (\<lambda>x. (x, dAttributes d)) (rank d) | None \<Rightarrow> cand_of da i)"
proof (induction live arbitrary: da)
  case (Cons e live)
  obtain j d where e: "e = (j, d)" by fastforce
  have "map_of live j = None" using Cons.prems by (simp add: e wf_map_def map_of_eq_None_iff)
  with Cons show ?case by (auto simp: e overlay_at wf_map_def split: option.split)
qed simp

lemma drop_at: "cand_of (drop_cand j da) i = (if i = j then None else cand_of da i)"
  by (simp add: drop_cand_def cand_of_def lookup_def delete_conv' split: option.split)

lemma fold_drop: "cand_of (fold drop_cand is da) i = (if i \<in> set is then None else cand_of da i)"
  by (induction "is" arbitrary: da) (simp_all add: drop_at)

lemma cands_newest:
  assumes "wf_map live"
  shows "cand_of (fold drop_cand (map fst deleted) (fold (overlay rank) live da)) = newest rank live deleted da"
  by (rule ext) (auto simp: fold_drop fold_overlay [OF assms] newest_def map_of_eq_None_iff)

lemma overlay_wf: "wf_map (fst da) \<Longrightarrow> wf_map (fst (overlay rank e da))"
  by (auto simp: overlay_def drop_cand_def split: option.split)

lemma cands_wf:
  "wf_map (fst da) \<Longrightarrow> wf_map (fst (fold drop_cand is (fold (overlay rank) live da)))"
proof -
  have "wf_map (fst da) \<Longrightarrow> wf_map (fst (fold (overlay rank) live da))" for da
    by (induction live arbitrary: da) (simp_all add: overlay_wf)
  moreover have "wf_map (fst da) \<Longrightarrow> wf_map (fst (fold drop_cand is da))" for da
    by (induction "is" arbitrary: da) (simp_all add: drop_cand_def)
  ultimately show "wf_map (fst da) \<Longrightarrow> ?thesis" by blast
qed

section \<open>Results from candidates\<close>

text \<open>\<open>all\<close> is the list of the hits: one per candidate that the filter accepts.\<close>

definition hits_of :: "(QueryResult \<Rightarrow> flt) \<Rightarrow> Filter \<Rightarrow> (string \<Rightarrow> (flt \<times> attrs) option) \<Rightarrow> QueryResult list \<Rightarrow> bool" where
  "hits_of val flter cand all \<longleftrightarrow> distinct (map rID all) \<and>
     (\<forall>i x a. (\<exists>r \<in> set all. rID r = i \<and> val r = x \<and> rAttributes r = a) \<longleftrightarrow> cand i = Some (x, a) \<and> Filter_Match flter a)"

lemma cand_of_mem:
  assumes "wf_map (fst da)"
  shows "(i, x) \<in> set (fst da) \<and> a = lookup (snd da) i [] \<longleftrightarrow> cand_of da i = Some (x, a)"
  using assms by (auto simp: cand_of_def wf_map_def split: option.splits dest: eq_key_imp_eq_value)

lemma vec_hits_of:
  assumes "wf_map (fst da)"
  shows "hits_of rDist flter (cand_of da) (vec_hits flter da)"
proof -
  have "map rID (vec_hits flter da) = map fst (filter (\<lambda>(i, d). Filter_Match flter (lookup (snd da) i [])) (fst da))"
    by (auto simp: vec_hits_def empty_result_def)
  then have "distinct (map rID (vec_hits flter da))" using wf_map_filter [OF assms] by (simp add: wf_map_def)
  moreover have "(\<exists>r \<in> set (vec_hits flter da). rID r = i \<and> rDist r = x \<and> rAttributes r = a) \<longleftrightarrow>
      (i, x) \<in> set (fst da) \<and> a = lookup (snd da) i [] \<and> Filter_Match flter a" for i x a
    unfolding vec_hits_def by (auto simp: empty_result_def simp del: Filter_Match.simps intro!: rev_image_eqI)
  ultimately show ?thesis unfolding hits_of_def cand_of_mem [OF assms, symmetric] by (simp add: conj_assoc)
qed

lemma text_hits_of:
  assumes "wf_map (fst da)"
  shows "hits_of rScore flter (cand_of da) (text_hits flter da)"
proof -
  have "map rID (text_hits flter da) = map fst (filter (\<lambda>(i, d). Filter_Match flter (lookup (snd da) i [])) (fst da))"
    by (auto simp: text_hits_def empty_result_def)
  then have "distinct (map rID (text_hits flter da))" using wf_map_filter [OF assms] by (simp add: wf_map_def)
  moreover have "(\<exists>r \<in> set (text_hits flter da). rID r = i \<and> rScore r = x \<and> rAttributes r = a) \<longleftrightarrow>
      (i, x) \<in> set (fst da) \<and> a = lookup (snd da) i [] \<and> Filter_Match flter a" for i x a
    unfolding text_hits_def by (auto simp: empty_result_def simp del: Filter_Match.simps intro!: rev_image_eqI)
  ultimately show ?thesis unfolding hits_of_def cand_of_mem [OF assms, symmetric] by (simp add: conj_assoc)
qed

section \<open>Well-formed maps along the way\<close>

definition wf_folded :: "folded \<Rightarrow> bool" where
  "wf_folded ld \<longleftrightarrow> wf_map (fst ld) \<and> wf_map (snd ld)"

lemma apply_seg_wf: "wf_folded ld \<Longrightarrow> wf_folded (apply_seg seg ld)"
proof -
  have "wf_folded ld \<Longrightarrow> wf_folded (fold apply_op ops ld)" for ops
    by (induction ops arbitrary: ld) (auto simp: wf_folded_def apply_op_def split: prod.splits)
  then show "wf_folded ld \<Longrightarrow> ?thesis" by (simp add: apply_seg_def)
qed

lemma materialize_loop_wf: "wf_folded ld \<Longrightarrow> materialize_loop n ns i ld s = (Inr ld', s') \<Longrightarrow> wf_folded ld'"
proof (induction n arbitrary: i ld s)
  case (Suc n)
  from Suc.prems(2) obtain seg s1 where "materialize_loop n ns (i + 1) (apply_seg seg ld) s1 = (Inr ld', s')"
    by (simp split: prod.splits sum.splits)
  from Suc.IH [OF apply_seg_wf [OF Suc.prems(1)] this] show ?case .
qed simp

lemma view_loop_wf: "wf_folded ld \<Longrightarrow> view_loop srcs a b ld s = (Inr ld', s') \<Longrightarrow> wf_folded ld'"
proof (induction srcs arbitrary: ld s)
  case (Cons src srcs)
  from Cons.prems(2) obtain ld1 s1 where l: "view_loop srcs a b ld1 s1 = (Inr ld', s')"
    and "materialize_loop (nat (minInt64 b (wsTo src) - maxInt64 a (wsFrom src))) (wsNs src) (maxInt64 a (wsFrom src)) ld s = (Inr ld1, s1)"
    by (auto simp: Let_def split: prod.splits sum.splits)
  from Cons.IH [OF materialize_loop_wf [OF Cons.prems(1) this(2)] l] show ?case .
qed simp

lemma MaterializeView_wf: "MaterializeView v a b s = (Inr (live, deleted), s') \<Longrightarrow> wf_map live"
  using view_loop_wf [of "([], [])"] by (fastforce simp: MaterializeView_def wf_folded_def)

lemma put_cand_wf: "wf_map (fst da) \<Longrightarrow> wf_map (fst (fold (put_cand metric query) xs da))"
  by (induction xs arbitrary: da) (auto simp: put_cand_def)

lemma fetch_wanted_wf:
  "fetch_wanted ns ep metric query wanted cs da s = (Inr da', s') \<Longrightarrow> wf_map (fst da) \<Longrightarrow> wf_map (fst da')"
proof (induction cs arbitrary: da s)
  case (Cons c cs)
  from Cons.prems(1) obtain s1 and clf :: ClusterFile where "fetch_wanted ns ep metric query wanted cs (fold (put_cand metric query)
      (filter (\<lambda>mem. eID mem \<in> set (lookup wanted c [])) (clMembers clf)) da) s1 = (Inr da', s')"
    by (auto split: prod.splits sum.splits wire.splits)
  from Cons.IH [OF this put_cand_wf [OF Cons.prems(2)]] show ?case .
qed simp

lemma gather_vec_wf: "gather_vec env m v p query topK s = (Inr da, s') \<Longrightarrow> wf_map (fst da)"
  by (auto simp: gather_vec_def vectorCandidatesFromIndex_def filterFirstCandidates_def Let_def
      split: prod.splits sum.splits wire.splits if_splits option.splits
      intro: put_cand_wf dest: fetch_wanted_wf)

lemma indexed_hits_wf: "wf_map (fst (indexed_hits hits docs))"
proof -
  have "wf_map (fst da) \<Longrightarrow> wf_map (fst (fold (\<lambda>(i, score) da.
     (AList.update i score (fst da), AList.update i (lookup docs i []) (snd da))) hits da))" for da :: cands
    by (induction hits arbitrary: da) auto
  from this [of "([], [])"] show ?thesis by (simp add: indexed_hits_def)
qed

lemma gather_text_wf: "gather_text env v terms s = (Inr (idx, sa), s') \<Longrightarrow> wf_map (fst sa)"
  by (auto simp: gather_text_def indexed_hits_wf split: prod.splits sum.splits if_splits)

section \<open>The legs\<close>

lemma runVectorQuery_run:
  assumes "runVectorQuery env m v p topK s = (Inr results, s')"
  shows "\<exists>da s1 live deleted all. gather_vec env m v p (query_vec p) topK s = (Inr da, s1) \<and>
    MaterializeView v (mIndexedUpTo m) (mWALSeq m) s1 = (Inr (live, deleted), s') \<and>
    hits_of rDist (qFilter p)
      (newest (\<lambda>d. map_option (Distance (mMetric m) (query_vec p)) (dVector d)) live deleted da) all \<and>
    cut topK (sort_by by_dist all) = Some results"
proof -
  let ?q = "query_vec p"
  from assms obtain da s1 live deleted where g: "gather_vec env m v p ?q topK s = (Inr da, s1)"
    and l: "MaterializeView v (mIndexedUpTo m) (mWALSeq m) s1 = (Inr (live, deleted), s')"
    and c: "cut topK (sort_by by_dist (vec_hits (qFilter p)
      (fold drop_cand (map fst deleted) (fold (overlay_vec (mMetric m) ?q) live da)))) = Some results"
    by (auto simp: runVectorQuery_def Let_def split: prod.splits sum.splits if_splits option.splits)
  note w = cands_wf [OF gather_vec_wf [OF g], of "map fst deleted" "\<lambda>d. map_option (Distance (mMetric m) ?q) (dVector d)" live]
  note h = vec_hits_of [OF w, of "qFilter p", unfolded cands_newest [OF MaterializeView_wf [OF l]]]
  from g l h c show ?thesis unfolding overlay_vec_rank by blast
qed

lemma runBM25Query_run:
  assumes "runBM25Query env m v p topK s = (Inr results, s')"
  shows "\<exists>idx sa s1 live deleted all.
    gather_text env v (Tokenize (vUnicode env) (rText (qRankBy p))) s = (Inr (idx, sa), s1) \<and>
    MaterializeView v (mIndexedUpTo m) (mWALSeq m) s1 = (Inr (live, deleted), s') \<and>
    hits_of rScore (qFilter p)
      (newest (text_rank env (mTextField m) idx (Tokenize (vUnicode env) (rText (qRankBy p)))) live deleted sa) all \<and>
    cut topK (sort_by by_score all) = Some results"
proof -
  let ?t = "Tokenize (vUnicode env) (rText (qRankBy p))"
  from assms obtain idx sa s1 live deleted where g: "gather_text env v ?t s = (Inr (idx, sa), s1)"
    and l: "MaterializeView v (mIndexedUpTo m) (mWALSeq m) s1 = (Inr (live, deleted), s')"
    and c: "cut topK (sort_by by_score (text_hits (qFilter p)
      (fold drop_cand (map fst deleted) (fold (overlay_text env (mTextField m) idx ?t) live sa)))) = Some results"
    by (auto simp: runBM25Query_def Let_def split: prod.splits sum.splits if_splits option.splits)
  note w = cands_wf [OF gather_text_wf [OF g], of "map fst deleted" "text_rank env (mTextField m) idx ?t" live]
  note h = text_hits_of [OF w, of "qFilter p", unfolded cands_newest [OF MaterializeView_wf [OF l]]]
  from g l h c show ?thesis unfolding overlay_text_rank by blast
qed

lemma cut_set: "cut k xs = Some ys \<Longrightarrow> set ys \<subseteq> set xs \<and> (0 \<le> k \<longrightarrow> int (length ys) \<le> k) \<and> (distinct (map f xs) \<longrightarrow> distinct (map f ys))"
  by (auto simp: cut_def distinct_take take_map [symmetric] split: if_splits dest: in_set_takeD)

text \<open>
  C4. Last writer wins, end to end: whatever the index holds, a vector query returns at most \<open>topK\<close>
  distinct ids; each passes the filter with the attributes it is returned with; none was deleted in the
  unindexed tail; and an id that the tail wrote is returned only with the vector distance and the
  attributes of its newest version, never with its indexed copy.  This holds under any interference,
  since the tail is read after the candidates.
\<close>

theorem runVectorQuery_newest_wins:
  assumes "runVectorQuery env m v p topK s = (Inr results, s')" "0 \<le> topK"
  shows "int (length results) \<le> topK \<and> distinct (map rID results) \<and>
    (\<exists>s1 live deleted. MaterializeView v (mIndexedUpTo m) (mWALSeq m) s1 = (Inr (live, deleted), s') \<and>
      (\<forall>r \<in> set results. Filter_Match (qFilter p) (rAttributes r) \<and> map_of deleted (rID r) = None \<and>
        (\<forall>d. map_of live (rID r) = Some d \<longrightarrow> rAttributes r = dAttributes d \<and>
           (\<exists>x. dVector d = Some x \<and> rDist r = Distance (mMetric m) (query_vec p) x))))"
proof -
  let ?rank = "\<lambda>d. map_option (Distance (mMetric m) (query_vec p)) (dVector d)"
  from runVectorQuery_run [OF assms(1)] obtain da s1 live deleted all
    where l: "MaterializeView v (mIndexedUpTo m) (mWALSeq m) s1 = (Inr (live, deleted), s')"
      and h: "hits_of rDist (qFilter p) (newest ?rank live deleted da) all"
      and c: "cut topK (sort_by by_dist all) = Some results" by blast
  have d: "distinct (map rID (sort_by by_dist all))" using h by (simp add: hits_of_def)
  note cs = cut_set [OF c, of rID]
  have "Filter_Match (qFilter p) (rAttributes r) \<and> map_of deleted (rID r) = None \<and>
      (\<forall>d. map_of live (rID r) = Some d \<longrightarrow> rAttributes r = dAttributes d \<and>
         (\<exists>x. dVector d = Some x \<and> rDist r = Distance (mMetric m) (query_vec p) x))" if "r \<in> set results" for r
  proof -
    have "r \<in> set all" using that cs by auto
    then have n: "newest ?rank live deleted da (rID r) = Some (rDist r, rAttributes r)" "Filter_Match (qFilter p) (rAttributes r)"
      using h unfolding hits_of_def by blast+
    then show ?thesis by (auto simp: newest_def split: if_splits option.splits)
  qed
  with cs d assms(2) l show ?thesis by blast
qed

section \<open>Without an epoch the answer is exact\<close>

definition ranked_live :: "(Document \<Rightarrow> flt option) \<Rightarrow> Document list \<Rightarrow> string \<Rightarrow> (flt \<times> attrs) option" where
  "ranked_live rank ops i = (case live_spec ops i of None \<Rightarrow> None | Some d \<Rightarrow> map_option (\<lambda>x. (x, dAttributes d)) (rank d))"

lemma newest_live:
  assumes "folds ops (live, deleted)"
  shows "newest rank live deleted ([], []) = ranked_live rank ops"
proof
  fix i
  have l: "map_of live i = live_spec ops i" "map_of deleted i = (if deleted_spec ops i then Some True else None)"
    using assms by (auto simp: folds_def)
  then show "newest rank live deleted ([], []) i = ranked_live rank ops i"
    using live_not_deleted [of ops i] by (auto simp: newest_def ranked_live_def cand_of_def split: option.splits)
qed

lemma cut_pos: "0 < k \<Longrightarrow> \<exists>ys. cut k xs = Some ys"
  by (simp add: cut_def)

lemma runVectorQuery_fresh:
  assumes "int (length (query_vec p)) = mDimension m" "rvIndexEpoch v \<le> 0" "0 < topK"
    and "MaterializeView v (mIndexedUpTo m) (mWALSeq m) s = (Inr (live, deleted), s)" "folds ops (live, deleted)"
  shows "\<exists>all results. runVectorQuery env m v p topK s = (Inr results, s) \<and>
    hits_of rDist (qFilter p) (ranked_live (\<lambda>d. map_option (Distance (mMetric m) (query_vec p)) (dVector d)) ops) all \<and>
    cut topK (sort_by by_dist all) = Some results"
proof -
  have g: "gather_vec env m v p (query_vec p) topK s = (Inr ([], []), s)" using assms(2) by (simp add: gather_vec_def)
  let ?da = "fold drop_cand (map fst deleted) (fold (overlay_vec (mMetric m) (query_vec p)) live ([], []))"
  from cut_pos [OF assms(3)] obtain results where "cut topK (sort_by by_dist (vec_hits (qFilter p) ?da)) = Some results" by blast
  then have "runVectorQuery env m v p topK s = (Inr results, s)"
    using assms(1,4) g by (simp add: runVectorQuery_def Let_def)
  with runVectorQuery_run [OF this] g assms(4) newest_live [OF assms(5)] show ?thesis by auto
qed

text \<open>What a rank mode answers: the best hits of \<open>cand\<close>, provided no value is NaN.\<close>

definition answers :: "(QueryResult \<Rightarrow> QueryResult \<Rightarrow> bool) \<Rightarrow> (QueryResult \<Rightarrow> flt) \<Rightarrow> Filter \<Rightarrow> int \<Rightarrow>
    (string \<Rightarrow> (flt \<times> attrs) option) \<Rightarrow> QueryResult list \<Rightarrow> bool" where
  "answers lt val flter topK cand results \<longleftrightarrow> (\<exists>all. hits_of val flter cand all \<and>
     cut topK (sort_by lt all) = Some results \<and> ((\<forall>r \<in> set all. val r \<noteq> NaN) \<longrightarrow> best lt topK all results))"

lemma answers_dist:
  assumes "hits_of rDist flter cand all" "cut topK (sort_by by_dist all) = Some results" "0 \<le> topK"
  shows "answers by_dist rDist flter topK cand results"
proof -
  have "best by_dist topK all results" if "\<forall>r \<in> set all. rDist r \<noteq> NaN"
    using dist_rank.cut_best [of all topK] that assms(2,3) by (auto simp: list_all_iff)
  with assms show ?thesis unfolding answers_def by blast
qed

lemma answers_score:
  assumes "hits_of rScore flter cand all" "cut topK (sort_by by_score all) = Some results" "0 \<le> topK"
  shows "answers by_score rScore flter topK cand results"
proof -
  have "best by_score topK all results" if "\<forall>r \<in> set all. rScore r \<noteq> NaN"
    using score_rank.cut_best [of all topK] that assms(2,3) by (auto simp: list_all_iff)
  with assms show ?thesis unfolding answers_def by blast
qed

lemma RunQuery_fresh:
  assumes "db_quiet s" "manifest_at (mem_of s) ns = Some m" "chain_ok (mem_of s) d ns m" "d \<le> maxBranchDepth"
    and "\<forall>v s1. resolveReadView ns m s = (Inr v, s1) \<longrightarrow> rvIndexEpoch v \<le> 0"
    and "rVector (qRankBy p) = Some q" "rText (qRankBy p) = []" "int (length q) = mDimension m"
  shows "\<exists>results. RunQuery env ns p s = (Inr results, s) \<and>
    answers by_dist rDist (qFilter p) (if qTopK p \<le> 0 then 10 else qTopK p)
      (ranked_live (\<lambda>d. map_option (Distance (mMetric m) q) (dVector d))
        (logical (mem_of s) d ns m (mIndexedUpTo m) (mWALSeq m))) results"
proof -
  let ?k = "if qTopK p \<le> 0 then 10 else qTopK p"
  from manifest_atE [OF assms(2)] obtain e where "MemStore_Get (mem_of s) (manifestKey ns) = Inr (WManifest m, e)" .
  note lm = LoadManifest_quiet [OF assms(1) this]
  from resolveReadView_quiet [OF assms(1,3,4)] obtain v where v: "resolveReadView ns m s = (Inr v, s)"
    and f: "\<And>from to. \<exists>ld. MaterializeView v from to s = (Inr ld, s) \<and> folds (logical (mem_of s) d ns m from to) ld" by blast
  from f obtain live deleted where l: "MaterializeView v (mIndexedUpTo m) (mWALSeq m) s = (Inr (live, deleted), s)"
    "folds (logical (mem_of s) d ns m (mIndexedUpTo m) (mWALSeq m)) (live, deleted)" by (metis surj_pair)
  have q: "query_vec p = q" using assms(6) by (simp add: query_vec_def)
  have "0 < ?k" by simp
  have "rvIndexEpoch v \<le> 0" using assms(5) v by blast
  from runVectorQuery_fresh [OF _ this \<open>0 < ?k\<close> l, of p env] assms(8) q obtain all results
    where r: "runVectorQuery env m v p ?k s = (Inr results, s)"
      "hits_of rDist (qFilter p) (ranked_live (\<lambda>d. map_option (Distance (mMetric m) q) (dVector d))
        (logical (mem_of s) d ns m (mIndexedUpTo m) (mWALSeq m))) all"
      "cut ?k (sort_by by_dist all) = Some results" by auto
  have "RunQuery env ns p s = (Inr results, s)"
    using lm v r(1) assms(6,7) by (simp add: RunQuery_def IsVector_def IsText_def Let_def defaultTopK_def split: if_splits)
  moreover note answers_dist [OF r(2,3)]
  ultimately show ?thesis by (auto split: if_splits)
qed

text \<open>
  C3. Query before index: on a namespace or branch with no epoch to read, alone in the store, a vector
  query always succeeds and is exhaustive search: over the whole logical log, across the branch chain,
  it ranks exactly the documents whose newest version is live, has a vector and passes the filter, by
  their exact distance, and returns the best \<open>topK\<close> of them (10 when none is asked for).
\<close>

theorem RunQuery_without_epoch_is_exact:
  assumes "db_quiet s" "manifest_at (mem_of s) ns = Some m" "chain_ok (mem_of s) d ns m" "d \<le> maxBranchDepth"
    and "\<forall>v s1. resolveReadView ns m s = (Inr v, s1) \<longrightarrow> rvIndexEpoch v \<le> 0"
    and "rVector (qRankBy p) = Some q" "rText (qRankBy p) = []" "int (length q) = mDimension m"
  shows "\<exists>results. RunQuery env ns p s = (Inr results, s) \<and>
    answers by_dist rDist (qFilter p) (if qTopK p \<le> 0 then 10 else qTopK p)
      (ranked_live (\<lambda>d. map_option (Distance (mMetric m) q) (dVector d))
        (logical (mem_of s) d ns m (mIndexedUpTo m) (mWALSeq m))) results"
  by (rule RunQuery_fresh [OF assms])

section \<open>Witnesses\<close>

text \<open>A root namespace of two segments: \<open>a\<close> is written twice, \<open>b\<close> has another language.\<close>

definition vdoc :: "string \<Rightarrow> vec \<Rightarrow> string \<Rightarrow> Document" where
  "vdoc i v lang = \<lparr>dID = i, dVector = Some v, dAttributes = [(''lang'', AStr lang)], dDeleted = False\<rparr>"

definition tail_manifest :: Manifest where
  "tail_manifest = (root_manifest \<lparr>cDimension = 2, cMetric = ''euclidean'', cTextField = []\<rparr>)\<lparr>mWALSeq := 2\<rparr>"

definition tail_mem :: "wire MemStore" where
  "tail_mem = fold (\<lambda>(k, b) m. snd (MemStore_Put m k b))
     [(manifestKey ''n'', WManifest tail_manifest),
      (walKey ''n'' 0, WSegment \<lparr>sSeq = 0, sOps = [vdoc ''a'' [Fin 3, Fin 4] ''go'', vdoc ''b'' [Fin 0, Fin 0] ''c'']\<rparr>),
      (walKey ''n'' 1, WSegment \<lparr>sSeq = 1, sOps = [vdoc ''a'' [Fin 0, Fin 1] ''go'']\<rparr>)] MemStore_New"

definition tail_db :: db where
  "tail_db = NewWithCapacity (\<lambda>k. k) \<lparr>bstore = tail_mem, bevents = []\<rparr> 0"

definition tail_query :: QueryParams where
  "tail_query = \<lparr>qRankBy = \<lparr>rVector = Some [Fin 0, Fin 0], rText = []\<rparr>,
     qFilter = Filter ''eq'' ''lang'' (AStr ''go'') [], qTopK = 0, qNProbe = 0\<rparr>"

definition tail_env :: qenv where
  "tail_env = \<lparr>vSource = \<lambda>seed. no_draws, vLog = id, vUnicode = ascii, vRange = id\<rparr>"

lemma tail_db_simps [simp]: "mem_of tail_db = tail_mem" "db_quiet tail_db"
  by (simp_all add: tail_db_def NewWithCapacity_def)

lemma tail_chain: "chain_ok tail_mem 0 ''n'' tail_manifest"
  by code_simp

theorem RunQuery_without_epoch_is_exact_witness:
  "\<exists>r. RunQuery tail_env ''n'' tail_query tail_db = (Inr [r], tail_db) \<and> rID r = ''a'' \<and> rDist r = Fin 1 \<and>
    answers by_dist rDist (qFilter tail_query) 10 (ranked_live (\<lambda>d. map_option (Distance ''euclidean'' [Fin 0, Fin 0]) (dVector d))
      (logical tail_mem 0 ''n'' tail_manifest 0 2)) [r]"
proof -
  have m: "manifest_at (mem_of tail_db) ''n'' = Some tail_manifest" by code_simp
  have "map_sum id rvIndexEpoch (fst (resolveReadView ''n'' tail_manifest tail_db)) = Inr 0" by code_simp
  then have v: "\<forall>v s1. resolveReadView ''n'' tail_manifest tail_db = (Inr v, s1) \<longrightarrow> rvIndexEpoch v \<le> 0" by auto
  have c: "chain_ok (mem_of tail_db) 0 ''n'' tail_manifest" using tail_chain by simp
  have q: "rVector (qRankBy tail_query) = Some [Fin 0, Fin 0]" "rText (qRankBy tail_query) = []" "qTopK tail_query \<le> 0"
    "int (length [Fin 0, Fin 0]) = mDimension tail_manifest" "mMetric tail_manifest = ''euclidean''"
    "mIndexedUpTo tail_manifest = 0" "mWALSeq tail_manifest = 2"
    by (simp_all add: tail_query_def tail_manifest_def root_manifest_def)
  from RunQuery_without_epoch_is_exact [OF _ m c _ v q(1,2,4), where env = tail_env] q
  obtain results where r: "RunQuery tail_env ''n'' tail_query tail_db = (Inr results, tail_db)"
    "answers by_dist rDist (qFilter tail_query) 10 (ranked_live (\<lambda>d. map_option (Distance ''euclidean'' [Fin 0, Fin 0]) (dVector d))
      (logical tail_mem 0 ''n'' tail_manifest 0 2)) results" by auto
  have "map_sum id (map (\<lambda>r. (rID r, rDist r))) (fst (RunQuery tail_env ''n'' tail_query tail_db)) = Inr [(''a'', Fin 1)]"
    by code_simp
  with r show ?thesis by auto
qed

theorem runVectorQuery_newest_wins_witness:
  "\<exists>v r s'. runVectorQuery tail_env tail_manifest v tail_query 1 tail_db = (Inr [r], s') \<and> rDist r = Fin 1 \<and>
    (\<exists>s1 live deleted. MaterializeView v 0 2 s1 = (Inr (live, deleted), s') \<and> map_of deleted (rID r) = None)"
proof -
  let ?v = "\<lparr>rvSources = [\<lparr>wsNs = ''n'', wsFrom = 0, wsTo = 2\<rparr>], rvIndexNS = ''n'', rvIndexEpoch = 0\<rparr>"
  have x: "map_sum id (map rDist) (fst (runVectorQuery tail_env tail_manifest ?v tail_query 1 tail_db)) = Inr [Fin 1]"
    by code_simp
  then obtain r where "fst (runVectorQuery tail_env tail_manifest ?v tail_query 1 tail_db) = Inr [r]" "rDist r = Fin 1"
    by (cases "fst (runVectorQuery tail_env tail_manifest ?v tail_query 1 tail_db)") auto
  then obtain s' where r: "runVectorQuery tail_env tail_manifest ?v tail_query 1 tail_db = (Inr [r], s')" "rDist r = Fin 1"
    by (metis prod.collapse)
  have "mIndexedUpTo tail_manifest = 0" "mWALSeq tail_manifest = 2" by (simp_all add: tail_manifest_def root_manifest_def)
  with runVectorQuery_newest_wins [OF r(1)] r show ?thesis by fastforce
qed

end
