(* ===== verification/Recall.thy ===== *)
theory Recall
  imports QueryRun
begin

text \<open>
  The filter-first plan against the objects that a build writes: it gathers every indexed vector whose
  document passes the filter, with its exact distance, and nothing else.
\<close>

section \<open>The cluster of an id\<close>

lemma fold_update_const: "map_of (fold (\<lambda>i. AList.update i v) ids m) i = (if i \<in> set ids then Some v else map_of m i)"
  by (induction ids arbitrary: m) (auto simp: update_conv')

lemma cluster_of_fold:
  assumes "distinct (concat M)"
  shows "(\<forall>c < length M. i \<in> set (M ! c) \<longrightarrow>
      map_of (fold (\<lambda>(c, ids) m. fold (\<lambda>i. AList.update i (int c)) ids m) (enumerate k M) m) i = Some (int (k + c))) \<and>
    (i \<notin> set (concat M) \<longrightarrow>
      map_of (fold (\<lambda>(c, ids) m. fold (\<lambda>i. AList.update i (int c)) ids m) (enumerate k M) m) i = map_of m i)"
  using assms
proof (induction M arbitrary: k m)
  case (Cons ids M)
  let ?m = "fold (\<lambda>i. AList.update i (int k)) ids m"
  have d: "distinct (concat M)" using Cons.prems by simp
  note ih = Cons.IH [OF d, of "Suc k" ?m]
  have "i \<notin> set (concat M)" if "i \<in> set ids" using that Cons.prems by auto
  then have "map_of (fold (\<lambda>(c, ids) m. fold (\<lambda>i. AList.update i (int c)) ids m) (enumerate (Suc k) M) ?m) i = Some (int k)"
    if "i \<in> set ids" using that ih by (auto simp: fold_update_const)
  with ih show ?case by (auto simp: fold_update_const less_Suc_eq_0_disj)
qed simp

lemma cluster_of_at:
  assumes "distinct (concat M)"
  shows "map_of (cluster_of M) i = Some x \<longleftrightarrow> (\<exists>c < length M. x = int c \<and> i \<in> set (M ! c))"
proof -
  note f = cluster_of_fold [OF assms, of i 0 "[]", folded cluster_of_def]
  show ?thesis
  proof (cases "i \<in> set (concat M)")
    case True
    then obtain ids where "ids \<in> set M" "i \<in> set ids" by auto
    then obtain c where c: "c < length M" "i \<in> set (M ! c)" by (metis in_set_conv_nth)
    then have m: "map_of (cluster_of M) i = Some (int c)" using f by simp
    have "c' = c" if "c' < length M" "i \<in> set (M ! c')" for c' using f that m by simp
    with m c show ?thesis by (metis option.inject)
  next
    case False
    with f show ?thesis by auto
  qed
qed

section \<open>Gathering the wanted members\<close>

lemma fold_put_cand:
  assumes "\<forall>x \<in> set xs. eVector x = V (eID x) \<and> eAttrs x = A (eID x)"
  shows "cand_of (fold (put_cand metric query) xs da) i =
    (if i \<in> eID ` set xs then Some (Distance metric query (V i), A i) else cand_of da i)"
  using assms
proof (induction xs arbitrary: da)
  case (Cons x xs)
  have "cand_of (put_cand metric query x da) i = (if i = eID x then Some (Distance metric query (V i), A i) else cand_of da i)"
    using Cons.prems by (simp add: put_cand_def cand_of_def lookup_def update_conv' split: option.split)
  with Cons show ?case by auto
qed simp

lemma fold_want:
  "wf_map w \<Longrightarrow> wf_map (fold (want af) ords w)"
  "set (lookup (fold (want af) ords w) c []) = set (lookup w c []) \<union>
     {aOrds af ! unat ord |ord. ord \<in> set ords \<and> unat ord < length (aClusterOf af) \<and> aClusterOf af ! unat ord = c \<and> 0 \<le> c}"
  "fst ` set (fold (want af) ords w) = fst ` set w \<union>
     {c. \<exists>ord \<in> set ords. unat ord < length (aClusterOf af) \<and> aClusterOf af ! unat ord = c \<and> 0 \<le> c}"
proof (induction ords arbitrary: w)
  case (Cons ord ords)
  { case 1
    with Cons(1) [of "want af ord w"] show ?case by (simp add: want_def Let_def)
  next
    case 2
    from Cons(2) [of "want af ord w"] show ?case
      by (auto simp: want_def Let_def lookup_def update_conv' split: option.splits if_splits)
  next
    case 3
    from Cons(3) [of "want af ord w"] show ?case
      by (auto simp: want_def Let_def dom_update)
  }
qed auto

lemma fetch_wanted_serves:
  assumes "cache_inv K T s" "fetch_wanted ns ep metric query wanted cs da s = (Inr da', s')"
    and "\<forall>c \<in> set cs. clusterKey ns ep c \<in> K \<and> (\<exists>clf. T (clusterKey ns ep c) = Some (WCluster clf) \<and>
      eID ` set (clMembers clf) = IDS c \<and> (\<forall>x \<in> set (clMembers clf). eVector x = V (eID x) \<and> eAttrs x = A (eID x)))"
  shows "cand_of da' i = (if \<exists>c \<in> set cs. i \<in> IDS c \<and> i \<in> set (lookup wanted c [])
    then Some (Distance metric query (V i), A i) else cand_of da i)"
  using assms
proof (induction cs arbitrary: da s)
  case (Cons c cs)
  obtain r s1 where g: "GetCached (clusterKey ns ep c) s = (r, s1)" by fastforce
  have "clusterKey ns ep c \<noteq> []" by (simp add: clusterKey_def indexPrefix_def)
  with GetCached_serves [OF Cons.prems(1) _ _ g] Cons.prems(3) have sv: "\<And>b. r = Inr b \<Longrightarrow> T (clusterKey ns ep c) = Some b"
    "cache_inv K T s1" by auto
  from Cons.prems(3) obtain clf :: ClusterFile where clf: "T (clusterKey ns ep c) = Some (WCluster clf)"
    "eID ` set (clMembers clf) = IDS c" "\<forall>x \<in> set (clMembers clf). eVector x = V (eID x) \<and> eAttrs x = A (eID x)" by auto
  let ?xs = "filter (\<lambda>x. eID x \<in> set (lookup wanted c [])) (clMembers clf)"
  have f: "fetch_wanted ns ep metric query wanted cs (fold (put_cand metric query) ?xs da) s1 = (Inr da', s')"
    using Cons.prems(2) g sv(1) clf(1) by (auto split: sum.splits wire.splits)
  have "cand_of (fold (put_cand metric query) ?xs da) i =
      (if i \<in> IDS c \<and> i \<in> set (lookup wanted c []) then Some (Distance metric query (V i), A i) else cand_of da i)"
    using fold_put_cand [of ?xs V A metric query da i] clf by auto
  with Cons.IH [OF sv(2) f] Cons.prems(3) show ?case by auto
qed simp

section \<open>The plan over a written epoch\<close>

text \<open>The live set of a build, and the objects that the build writes for it (\<open>buildVectorIndex\<close>, \<open>buildAttributeIndex\<close>).\<close>

definition live_ok :: "live \<Rightarrow> bool" where
  "live_ok live \<longleftrightarrow> wf_map live \<and> (\<forall>(i, d) \<in> set live. wf_map (dAttributes d)) \<and> length live \<le> 2 ^ 32 \<and>
     (\<forall>(i, d) \<in> set live. \<forall>(k, v) \<in> set (dAttributes d). plain v)"

definition epoch_at :: "(string \<Rightarrow> wire option) \<Rightarrow> string \<Rightarrow> int \<Rightarrow> string \<Rightarrow> live \<Rightarrow> (string, nat) gomap \<Rightarrow>
    vec list \<Rightarrow> string list list \<Rightarrow> (string, int) gomap \<Rightarrow> Rotation \<Rightarrow> bool" where
  "epoch_at T ns ep tf live ordinals centroids memberIDs versions rot \<longleftrightarrow>
     mset ordinals = mset (assignOrdinals live) \<and> mset (concat memberIDs) = mset (vector_ids live) \<and>
     T (attrsKey ns ep) = Some (WAttrs (attrsFile tf live ordinals (cluster_of memberIDs))) \<and>
     (\<forall>c < length memberIDs. T (clusterKey ns ep (int c)) = Some (WCluster \<lparr>clCluster = c, clCentroid = centroids ! c,
        clMembers = map (cluster_entry live versions rot (centroids ! c)) (memberIDs ! c)\<rparr>))"

lemma compileFilter_ords:
  assumes "live_ok live" "mset ordinals = mset (assignOrdinals live)" "plain_filter f"
    and "compileFilter (attrsFile tf live ordinals cof) f = Some bm"
  shows "toSorted bm = map of_nat (filter (\<lambda>ord. Filter_Match f (attrs_of live (sort (map fst live) ! ord))) [0..<length live])"
proof -
  have l: "wf_map live" "\<forall>(i, d) \<in> set live. wf_map (dAttributes d)" "length live \<le> 2 ^ 32"
    "\<forall>(i, d) \<in> set live. \<forall>(k, v) \<in> set (dAttributes d). plain v" using assms(1) by (auto simp: live_ok_def)
  note s = compileFilter_selects [OF attrsFile_exact_for [OF l(1-3) assms(2)] attrs_of_plain [OF l(4)] assms(3,4)]
  then have "b_ok bm" "bset bm = of_nat ` {ord. ord < length live \<and> Filter_Match f (attrs_of live (sort (map fst live) ! ord))}"
    by (simp_all add: selects_def)
  then show ?thesis
    by (intro sorted_eqI [OF _ sorted_ordinals(1) [OF l(3)]])
      (simp_all only: toSorted_ok sorted_ordinals(2) [OF l(3)])
qed

lemma vector_ids_live: "set (vector_ids live) \<subseteq> fst ` set live"
  by (auto simp: vector_ids_def)

lemma vector_ids_distinct: "wf_map live \<Longrightarrow> distinct (vector_ids live)"
  unfolding vector_ids_def distinct_sort using wf_map_filter [of live] by (simp add: wf_map_def)

lemma unat_image:
  assumes "\<And>x. x \<in> X \<Longrightarrow> unat (of_nat x :: 32 word) = x"
  shows "{F (unat w) |w. w \<in> (of_nat :: nat \<Rightarrow> 32 word) ` X \<and> P (unat w)} = {F x |x. x \<in> X \<and> P x}"
proof (intro set_eqI iffI)
  fix y
  assume "y \<in> {F x |x. x \<in> X \<and> P x}"
  then obtain x where "x \<in> X" "P x" "y = F x" by auto
  with assms show "y \<in> {F (unat w) |w. w \<in> (of_nat :: nat \<Rightarrow> 32 word) ` X \<and> P (unat w)}"
    by (intro CollectI exI [of _ "of_nat x"]) simp
qed (use assms in auto)

text \<open>The ordinals of the candidates that live in cluster \<open>c\<close> name the matching members of \<open>c\<close>.\<close>

lemma wanted_ids:
  assumes "live_ok live" "mset ordinals = mset (assignOrdinals live)" "mset (concat M) = mset (vector_ids live)"
    and "plain_filter f" "compileFilter (attrsFile tf live ordinals (cluster_of M)) f = Some bm"
    and "af = attrsFile tf live ordinals (cluster_of M)"
  shows "{aOrds af ! unat ord |ord. ord \<in> set (toSorted bm) \<and> unat ord < length (aClusterOf af) \<and> aClusterOf af ! unat ord = c \<and> 0 \<le> c} =
    {i. 0 \<le> c \<and> nat c < length M \<and> i \<in> set (M ! nat c) \<and> Filter_Match f (attrs_of live i)}" (is "?L = ?R")
proof -
  have l: "wf_map live" "\<forall>(i, d) \<in> set live. wf_map (dAttributes d)" "length live \<le> 2 ^ 32" using assms(1) by (auto simp: live_ok_def)
  let ?ids = "sort (map fst live)" and ?n = "length live"
  note a = attrsFile_spec [OF l assms(2), of tf "cluster_of M", folded assms(6)]
  have len: "length ?ids = ?n" by simp
  have u: "unat (of_nat ord :: 32 word) = ord" if "ord < ?n" for ord
    using that l(3) by (simp add: unat_of_nat take_bit_nat_eq_self)
  have d: "distinct (concat M)" using vector_ids_distinct [OF l(1)] assms(3) by (metis mset_eq_imp_distinct_iff)
  have L: "?L = {?ids ! ord |ord. ord < ?n \<and> Filter_Match f (attrs_of live (?ids ! ord)) \<and>
      (case map_of (cluster_of M) (?ids ! ord) of Some c \<Rightarrow> c | None \<Rightarrow> - 1) = c \<and> 0 \<le> c}"
  proof -
    have st: "set (toSorted bm) = of_nat ` {ord. ord < ?n \<and> Filter_Match f (attrs_of live (?ids ! ord))}"
      unfolding compileFilter_ords [OF assms(1,2,4,5)] by auto
    have "?L = {aOrds af ! ord |ord. ord \<in> {ord. ord < ?n \<and> Filter_Match f (attrs_of live (?ids ! ord))} \<and>
        (ord < length (aClusterOf af) \<and> aClusterOf af ! ord = c \<and> 0 \<le> c)}"
      unfolding st by (rule unat_image) (simp add: u)
    also have "\<dots> = {?ids ! ord |ord. ord < ?n \<and> Filter_Match f (attrs_of live (?ids ! ord)) \<and>
      (case map_of (cluster_of M) (?ids ! ord) of Some c \<Rightarrow> c | None \<Rightarrow> - 1) = c \<and> 0 \<le> c}"
      using a len by (intro Collect_cong ex_cong1) auto
    finally show ?thesis .
  qed
  have "{?ids ! ord |ord. ord < ?n \<and> P (?ids ! ord)} = {i \<in> fst ` set live. P i}" for P
    using set_conv_nth [of ?ids] len by auto
  from this [of "\<lambda>i. Filter_Match f (attrs_of live i) \<and> (case map_of (cluster_of M) i of Some c \<Rightarrow> c | None \<Rightarrow> - 1) = c \<and> 0 \<le> c"]
  have "?L = {i \<in> fst ` set live. Filter_Match f (attrs_of live i) \<and>
      (case map_of (cluster_of M) i of Some c \<Rightarrow> c | None \<Rightarrow> - 1) = c \<and> 0 \<le> c}" unfolding L by simp
  also have "\<dots> = {i \<in> fst ` set live. Filter_Match f (attrs_of live i) \<and> 0 \<le> c \<and> map_of (cluster_of M) i = Some c}"
    by (auto split: option.splits)
  also have "\<dots> = {i \<in> fst ` set live. Filter_Match f (attrs_of live i) \<and> 0 \<le> c \<and> nat c < length M \<and> i \<in> set (M ! nat c)}"
    unfolding cluster_of_at [OF d] by auto
  also have "\<dots> = ?R"
  proof -
    have "set (M ! k) \<subseteq> fst ` set live" if "k < length M" for k
    proof -
      have "set (concat M) = set (vector_ids live)" using assms(3) by (rule mset_eq_setD)
      with that vector_ids_live [of live] nth_mem [OF that] show ?thesis by auto
    qed
    then show ?thesis by auto
  qed
  finally show ?thesis .
qed

lemma plan_clusters_set:
  "set (plan_clusters af cands) = {c. \<exists>ord \<in> set (toSorted cands). unat ord < length (aClusterOf af) \<and> aClusterOf af ! unat ord = c \<and> 0 \<le> c}"
proof -
  have "set (fold (\<lambda>ord cs. if unat ord < length (aClusterOf af) \<and> aClusterOf af ! unat ord \<ge> 0
      then List.insert (aClusterOf af ! unat ord) cs else cs) ords cs) =
    set cs \<union> {c. \<exists>ord \<in> set ords. unat ord < length (aClusterOf af) \<and> aClusterOf af ! unat ord = c \<and> 0 \<le> c}"
    for ords :: "32 word list" and cs by (induction ords arbitrary: cs) auto
  from this [of "toSorted cands" "[]"] show ?thesis by (simp add: plan_clusters_def)
qed

lemma planVectorQuery_usable:
  assumes "planVectorQuery ns ep f s = (Inr plan, s1)" "vpUsable plan"
  obtains af cands where "GetCached (attrsKey ns ep) s = (Inr (WAttrs af), s1)" "compileFilter af f = Some cands"
    "vpCands plan = cands" "vpAttrs plan = Some af" "vpClusters plan = plan_clusters af cands"
  using assms by (auto simp: planVectorQuery_def loadAttrs_def no_plan_def Let_def
      split: if_splits prod.splits sum.splits wire.splits option.splits)

lemma planVectorQuery_first:
  assumes "planVectorQuery ns ep f s = (Inr plan, s1)" "vpFilterFirst plan"
  shows "vpUsable plan"
  using assms by (auto simp: planVectorQuery_def no_plan_def Let_def split: if_splits prod.splits sum.splits option.splits)

lemma epoch_plan:
  assumes "cache_inv K T s" "attrsKey ns ep \<in> K" "epoch_at T ns ep tf live ordinals centroids M versions rot" "live_ok live"
    and "plain_filter f" "planVectorQuery ns ep f s = (Inr plan, s1)" "vpUsable plan"
  shows "cache_inv K T s1 \<and> (\<exists>af. vpAttrs plan = Some af \<and>
    (\<forall>c. {aOrds af ! unat ord |ord. ord \<in> set (toSorted (vpCands plan)) \<and> unat ord < length (aClusterOf af) \<and>
        aClusterOf af ! unat ord = c \<and> 0 \<le> c} =
      {i. 0 \<le> c \<and> nat c < length M \<and> i \<in> set (M ! nat c) \<and> Filter_Match f (attrs_of live i)}) \<and>
    set (vpClusters plan) = {c. \<exists>ord \<in> set (toSorted (vpCands plan)). unat ord < length (aClusterOf af) \<and> aClusterOf af ! unat ord = c \<and> 0 \<le> c})"
proof -
  obtain af cands where g: "GetCached (attrsKey ns ep) s = (Inr (WAttrs af), s1)" and c: "compileFilter af f = Some cands"
    and p: "vpCands plan = cands" "vpAttrs plan = Some af" "vpClusters plan = plan_clusters af cands"
    by (rule planVectorQuery_usable [OF assms(6,7)])
  have "attrsKey ns ep \<noteq> []" by (simp add: attrsKey_def indexPrefix_def)
  from GetCached_serves [OF assms(1,2) this g] assms(3) have af: "af = attrsFile tf live ordinals (cluster_of M)" "cache_inv K T s1"
    by (auto simp: epoch_at_def)
  have e: "mset ordinals = mset (assignOrdinals live)" "mset (concat M) = mset (vector_ids live)"
    using assms(3) by (auto simp: epoch_at_def)
  from wanted_ids [OF assms(4) e assms(5) c [unfolded af(1)] af(1)] af(2) p show ?thesis
    by (simp add: plan_clusters_set)
qed


section \<open>Witness\<close>

text \<open>Twenty-one documents, of which one has a vector and matches; its cluster is the only one.\<close>

definition few_live :: live where
  "few_live = (''a'', \<lparr>dID = ''a'', dVector = Some [Fin 3], dAttributes = [(''lang'', AStr ''go'')], dDeleted = False\<rparr>) #
     map (\<lambda>c. ([c], \<lparr>dID = [c], dVector = None, dAttributes = [(''lang'', AStr ''c'')], dDeleted = False\<rparr>)) ''bcdefghijklmnopqrstu''"

definition few_filter :: Filter where
  "few_filter = Filter ''eq'' ''lang'' (AStr ''go'') []"

definition few_entry :: ClusterEntry where
  "few_entry = cluster_entry few_live [] \<lparr>rotDim = 1, rotRows = [[Fin 1]]\<rparr> [Fin 3] ''a''"

definition few_attrs :: AttrsFile where
  "few_attrs = attrsFile [] few_live (assignOrdinals few_live) (cluster_of [[''a'']])"

definition few_db :: db where
  "few_db = NewWithCapacity (\<lambda>k. k) \<lparr>bstore = fold (\<lambda>(k, b) m. snd (MemStore_Put m k b))
     [(attrsKey ''n'' 1, WAttrs few_attrs),
      (clusterKey ''n'' 1 0, WCluster \<lparr>clCluster = 0, clCentroid = [Fin 3], clMembers = [few_entry]\<rparr>)] MemStore_New, bevents = []\<rparr> 0"

definition few_bodies :: "string \<Rightarrow> wire option" where
  "few_bodies k = (case MemStore_Get (mem_of few_db) k of Inl e \<Rightarrow> None | Inr (b, etag) \<Rightarrow> Some b)"

lemma few_mem:
  "few_bodies (attrsKey ''n'' 1) = Some (WAttrs few_attrs)"
  "few_bodies (clusterKey ''n'' 1 0) = Some (WCluster \<lparr>clCluster = 0, clCentroid = [Fin 3], clMembers = [few_entry]\<rparr>)"
proof -
  have "attrsKey ''n'' 1 \<noteq> clusterKey ''n'' 1 0" by code_simp
  then show "few_bodies (attrsKey ''n'' 1) = Some (WAttrs few_attrs)"
    "few_bodies (clusterKey ''n'' 1 0) = Some (WCluster \<lparr>clCluster = 0, clCentroid = [Fin 3], clMembers = [few_entry]\<rparr>)"
    by (simp_all add: few_bodies_def few_db_def NewWithCapacity_def MemStore_Put_def MemStore_Get_def store_obj_def
      nextETag_def MemStore_New_def Let_def)
qed

lemma few_epoch: "epoch_at few_bodies ''n'' 1 [] few_live (assignOrdinals few_live) [[Fin 3]] [[''a'']] [] \<lparr>rotDim = 1, rotRows = [[Fin 1]]\<rparr>"
proof -
  have "vector_ids few_live = [''a'']" by code_simp
  then show ?thesis by (simp add: epoch_at_def few_mem few_attrs_def [symmetric] few_entry_def)
qed

lemma few_inv: "cache_inv ({attrsKey ''n'' 1} \<union> range (clusterKey ''n'' 1)) few_bodies few_db"
proof -
  have "kept (serves ({attrsKey ''n'' 1} \<union> range (clusterKey ''n'' 1)) few_bodies) (sBackend few_db)"
    by (simp add: kept_def serves_def few_bodies_def few_db_def NewWithCapacity_def)
  moreover have "dram few_db = []" "sDisk few_db = None"
    by (simp_all add: few_db_def NewWithCapacity_def dram_def)
  moreover have "lru_ok few_db" by (simp add: few_db_def)
  ultimately show ?thesis by (simp add: cache_inv_def)
qed


end
