(* ===== verification/Daemon.thy ===== *)
theory Daemon
  imports Epoch JobQueue
begin

text \<open>
  The indexing daemon of \<open>cmd/tpuf-indexer\<close>: claim a job, build the index while a heartbeat keeps the
  claim alive, complete the job.  The heartbeat goroutine runs beside the build; it is a client of the
  same store, so the build sees its requests among those of the others (the events of the backend).
  Timers and cancellation are observations: each turn of the loop is told whether the context had been
  cancelled.  Log lines are the outcomes.
\<close>

section \<open>One job\<close>

datatype outcome = ClaimFailed err | Nothing | BuildFailed err | CompleteFailed err | Processed

definition processJob :: "genv \<Rightarrow> unicode \<Rightarrow> string \<Rightarrow> string \<Rightarrow> db \<Rightarrow> outcome \<times> db" where
  "processJob env uc worker ns s = (case Namespace_Index env uc ns s of
     (Inl e, s) \<Rightarrow> (BuildFailed e, s)
   | (Inr _, s) \<Rightarrow> (case CompleteJob ns worker s of
       (Inl e, s) \<Rightarrow> (CompleteFailed e, s)
     | (Inr _, s) \<Rightarrow> (Processed, s)))"

text \<open>The heartbeat: \<open>select\<close> sees the cancellation or the next tick (with the clock at that time).\<close>

datatype tick = Cancelled | Tick clock

datatype heartbeat = Stopped | Lost | Beating

fun heartbeatLoop :: "string \<Rightarrow> string \<Rightarrow> tick list \<Rightarrow> db \<Rightarrow> heartbeat \<times> db" where
  "heartbeatLoop worker ns [] s = (Beating, s)"
| "heartbeatLoop worker ns (Cancelled # ts) s = (Stopped, s)"
| "heartbeatLoop worker ns (Tick clk # ts) s = (case HeartbeatJob clk ns worker s of
     (Inl e, s) \<Rightarrow> heartbeatLoop worker ns ts s
   | (Inr ok, s) \<Rightarrow> (if \<not> ok then (Lost, s) else heartbeatLoop worker ns ts s))"

definition heartbeat_every :: "int \<Rightarrow> int" where
  "heartbeat_every heartbeatTimeout = (let every = heartbeatTimeout div 3 in if every \<le> 0 then 10 ^ 9 else every)"

section \<open>The loop\<close>

record turn =
  tnErr :: bool
  tnSleep :: bool
  tnClock :: clock

fun daemon_loop :: "genv \<Rightarrow> unicode \<Rightarrow> string \<Rightarrow> int \<Rightarrow> turn list \<Rightarrow> db \<Rightarrow> (string \<times> outcome) list \<times> db" where
  "daemon_loop env uc worker timeout [] s = ([], s)"
| "daemon_loop env uc worker timeout (t # ts) s =
     (if tnErr t then ([], s)
      else (case ClaimNextJob (tnClock t) worker timeout s of
        (Inl e, s) \<Rightarrow> (if tnSleep t then ([([], ClaimFailed e)], s)
           else (case daemon_loop env uc worker timeout ts s of (outs, s) \<Rightarrow> (([], ClaimFailed e) # outs, s)))
      | (Inr None, s) \<Rightarrow> (if tnSleep t then ([([], Nothing)], s)
           else (case daemon_loop env uc worker timeout ts s of (outs, s) \<Rightarrow> (([], Nothing) # outs, s)))
      | (Inr (Some job), s) \<Rightarrow> (case processJob env uc worker (jNamespace job) s of
           (out, s) \<Rightarrow> (case daemon_loop env uc worker timeout ts s of (outs, s) \<Rightarrow> ((jNamespace job, out) # outs, s)))))"

section \<open>Every client is a client of the protocol\<close>

lemma HeartbeatJob_fair:
  assumes "db_fair s" "HeartbeatJob clk ns worker s = (r, s')"
  shows "psteps (mem_of s) (mem_of s') \<and> db_fair s'"
proof -
  obtain r1 c1 s1 where sv: "SaveQueueCAS (heartbeat_job ns worker) (False, clk) s = ((r1, c1), s1)"
    by (metis prod.exhaust)
  then have "s' = s1" using assms(2) by (auto simp: HeartbeatJob_def split: sum.splits prod.splits)
  with SaveQueueCAS_fair [OF assms(1) sv heartbeat_keeps] show ?thesis by blast
qed

lemma heartbeatLoop_fair:
  "db_fair s \<Longrightarrow> heartbeatLoop worker ns ts s = (h, s') \<Longrightarrow> psteps (mem_of s) (mem_of s') \<and> db_fair s'"
proof (induction worker ns ts s rule: heartbeatLoop.induct)
  case (3 worker ns clk ts s)
  obtain r s1 where b: "HeartbeatJob clk ns worker s = (r, s1)" by fastforce
  note f = HeartbeatJob_fair [OF "3.prems"(1) b]
  have "s' = s1 \<or> heartbeatLoop worker ns ts s1 = (h, s')" using "3.prems"(2) b by (auto split: sum.splits if_splits)
  then show ?case
  proof
    assume l: "heartbeatLoop worker ns ts s1 = (h, s')"
    have "psteps (mem_of s1) (mem_of s') \<and> db_fair s'"
    proof (cases r)
      case (Inl e)
      from "3.IH"(1) [OF b [symmetric] Inl _ l] f show ?thesis by blast
    next
      case (Inr ok)
      with "3.prems"(2) b l "3.IH"(2) [OF b [symmetric] Inr] f show ?thesis by (cases ok) auto
    qed
    with f show ?thesis by (metis rtranclp_trans)
  qed (use f in blast)
qed auto

lemma ClaimNextJob_fair:
  assumes "db_fair s" "ClaimNextJob clk worker timeout s = (r, s')"
  shows "psteps (mem_of s) (mem_of s') \<and> db_fair s'"
proof -
  define t where "t = (if timeout \<le> 0 then defaultHeartbeatTimeout else timeout)"
  obtain r1 s1 where e: "EnsureQueue s = (r1, s1)" by fastforce
  note f1 = EnsureQueue_fair [OF assms(1) e]
  obtain r2 c2 s2 where sv: "SaveQueueCAS (claim_job worker t) (None, clk) s1 = ((r2, c2), s2)" by (metis prod.exhaust)
  have "s' = s1 \<or> s' = s2"
    using assms(2) e sv by (auto simp: ClaimNextJob_def Let_def t_def split: sum.splits prod.splits)
  with f1 SaveQueueCAS_fair [OF _ sv claim_keeps] show ?thesis by (metis rtranclp_trans)
qed

lemma EnqueueReindex_fair:
  assumes "db_fair s" "EnqueueReindex clk ns w s = (r, s')"
  shows "psteps (mem_of s) (mem_of s') \<and> db_fair s'"
proof -
  obtain r1 s1 where e: "EnsureQueue s = (r1, s1)" by fastforce
  note f1 = EnsureQueue_fair [OF assms(1) e]
  obtain r2 c2 s2 where sv: "SaveQueueCAS (enqueue_job ns w) (False, clk) s1 = ((r2, c2), s2)" by (metis prod.exhaust)
  have "s' = s1 \<or> s' = s2"
    using assms(2) e sv by (auto simp: EnqueueReindex_def split: sum.splits prod.splits)
  with f1 SaveQueueCAS_fair [OF _ sv enqueue_keeps] show ?thesis by (metis rtranclp_trans)
qed

text \<open>After \<open>CompleteJob\<close> the worker owns no job of the namespace, whether it removed one or found none.\<close>

definition owns_no_job :: "wire MemStore \<Rightarrow> string \<Rightarrow> string \<Rightarrow> bool" where
  "owns_no_job m ns worker \<longleftrightarrow> (\<exists>q. queue_at m = Some q \<and> (\<forall>j \<in> set (qJobs q). \<not> (jNamespace j = ns \<and> jWorker j = worker)))"

lemma CompleteJob_fair:
  assumes "db_fair s" "CompleteJob ns worker s = (r, s')"
  shows "psteps (mem_of s) (mem_of s') \<and> db_fair s' \<and> ((\<exists>b. r = Inr b) \<longrightarrow> owns_no_job (mem_of s') ns worker)"
proof -
  obtain r1 c1 s1 where sv: "SaveQueueCAS (complete_job ns worker) False s = ((r1, c1), s1)" by (metis prod.exhaust)
  have s': "s' = s1" and r: "(\<exists>b. r = Inr b) \<longleftrightarrow> (\<exists>x. r1 = Inr x)"
    using assms(2) sv by (auto simp: CompleteJob_def split: sum.splits prod.splits)
  note f = SaveQueueCAS_fair [OF assms(1) sv complete_keeps]
  have "owns_no_job (mem_of s1) ns worker" if "r1 = Inr x" for x
  proof -
    obtain q' w where x: "x = (q', w)" by fastforce
    show ?thesis
    proof (cases w)
      case True
      with f that x obtain mem q0 q1 c0 where m: "psteps (mem_of s) mem" "queue_at mem = Some q0"
        "complete_job ns worker c0 q0 = (True, q1, c1)" "queue_at (mem_of s1) = Some (q1\<lparr>qVersion := qVersion q1 + 1\<rparr>)" by blast
      have "queue_ok q0" using queue_at_ok [OF _ m(2)] psteps_pinv [OF m(1)] fair_pinv [OF assms(1)] by blast
      then have d: "distinct (map jNamespace (qJobs q0))" by (simp add: queue_ok_def)
      from m(3) obtain i where i: "find_job (\<lambda>j. jNamespace j = ns \<and> jWorker j = worker) (qJobs q0) = Some i"
        "qJobs q1 = take i (qJobs q0) @ drop (Suc i) (qJobs q0)" by (auto simp: complete_job_def split: option.splits)
      from find_job_Some [OF i(1)] have it: "i < length (qJobs q0)" "jNamespace (qJobs q0 ! i) = ns" by auto
      have "map jNamespace (qJobs q0) = map jNamespace (take i (qJobs q0)) @ ns # map jNamespace (drop (Suc i) (qJobs q0))"
        using id_take_nth_drop [OF it(1)] it(2) by (metis list.simps(9) map_append)
      with d have "ns \<notin> set (map jNamespace (qJobs q1))" unfolding i(2) by auto
      with m(4) show ?thesis by (auto simp: owns_no_job_def)
    next
      case False
      with f that x obtain q0 c0 where "queue_at (mem_of s1) = Some q0" "complete_job ns worker c0 q0 = (False, q', c1)" by blast
      then show ?thesis using find_job_None by (fastforce simp: owns_no_job_def complete_job_def split: option.splits)
    qed
  qed
  with f s' r show ?thesis by blast
qed

section \<open>A completed job is an indexed namespace\<close>

lemma BuildIndex_covers:
  assumes "db_fair s" "BuildIndex env uc ns s = (Inr (), s')" "manifest_at (mem_of s) ns = Some m"
  shows "\<exists>m'. manifest_at (mem_of s') ns = Some m' \<and> mWALSeq m \<le> mIndexedUpTo m'"
proof -
  from BuildIndex_fair [OF assms(1,2)] obtain m0 n m1 mf where b: "psteps (mem_of s) m1" "manifest_at m1 ns = Some m0"
    "manifest_at (mem_of s') ns = Some (bump (publish (mIndexEpoch m0 + 1) (mWALSeq m0) n mf))" by blast
  from extD(2) [OF psteps_ext [OF b(1) fair_pinv [OF assms(1)]] assms(3)] b(2) have "mWALSeq m \<le> mWALSeq m0"
    by (auto simp: manifest_le_def)
  with b(3) show ?thesis by (simp add: bump_def)
qed

lemma processJob_fair:
  assumes "db_fair s" "processJob env uc worker ns s = (out, s')"
  shows "psteps (mem_of s) (mem_of s') \<and> db_fair s'"
proof -
  obtain r1 s1 where b: "Namespace_Index env uc ns s = (r1, s1)" by fastforce
  then have f1: "psteps (mem_of s) (mem_of s1) \<and> db_fair s1"
    using BuildIndex_fair [OF assms(1)] by (auto simp: Namespace_Index_def)
  obtain r2 s2 where c: "CompleteJob ns worker s1 = (r2, s2)" by fastforce
  have "s' = s1 \<or> s' = s2" using assms(2) b c by (auto simp: processJob_def split: sum.splits)
  with f1 CompleteJob_fair [OF _ c] show ?thesis by (metis rtranclp_trans)
qed

lemma daemon_loop_fair:
  "db_fair s \<Longrightarrow> daemon_loop env uc worker timeout ts s = (outs, s') \<Longrightarrow> psteps (mem_of s) (mem_of s') \<and> db_fair s'"
proof (induction ts arbitrary: s outs)
  case (Cons t ts)
  show ?case
  proof (cases "tnErr t")
    case False
    obtain r s1 where c: "ClaimNextJob (tnClock t) worker timeout s = (r, s1)" by fastforce
    note f1 = ClaimNextJob_fair [OF Cons.prems(1) c]
    have rest: "psteps (mem_of s) (mem_of s') \<and> db_fair s'"
      if "psteps (mem_of s) (mem_of s2) \<and> db_fair s2" "daemon_loop env uc worker timeout ts s2 = (outs2, s')" for s2 outs2
      using Cons.IH [of s2 outs2] that by (metis rtranclp_trans)
    show ?thesis
    proof (cases "\<exists>job. r = Inr (Some job)")
      case True
      then obtain job where job: "r = Inr (Some job)" by blast
      obtain out s2 where p: "processJob env uc worker (jNamespace job) s1 = (out, s2)" by fastforce
      have "psteps (mem_of s) (mem_of s2) \<and> db_fair s2"
        using f1 processJob_fair [OF _ p] by (metis rtranclp_trans)
      moreover obtain outs2 where "daemon_loop env uc worker timeout ts s2 = (outs2, s')"
        using Cons.prems(2) False c job p by (auto split: prod.splits)
      ultimately show ?thesis by (rule rest)
    next
      case other: False
      have "s' = s1 \<or> (\<exists>outs2. daemon_loop env uc worker timeout ts s1 = (outs2, s'))"
        using Cons.prems(2) False c other by (auto split: sum.splits option.splits if_splits prod.splits)
      with f1 rest [of s1] show ?thesis by blast
    qed
  qed (use Cons.prems in auto)
qed simp

text \<open>
  C10. A job that the daemon reports as processed was indexed: at some moment during the run the manifest's
  index covered every write committed before the job was taken up, and afterwards the worker owns no
  job of the namespace.  The other clients may do any step of the protocol at any time.
\<close>

theorem processJob_completes_only_when_indexed:
  assumes "db_fair s" "processJob env uc worker ns s = (Processed, s')" "manifest_at (mem_of s) ns = Some m"
  shows "(\<exists>mem m'. psteps (mem_of s) mem \<and> psteps mem (mem_of s') \<and> manifest_at mem ns = Some m' \<and>
      mWALSeq m \<le> mIndexedUpTo m') \<and> owns_no_job (mem_of s') ns worker"
proof -
  obtain r1 s1 where b: "Namespace_Index env uc ns s = (r1, s1)" by fastforce
  obtain r2 s2 where c: "CompleteJob ns worker s1 = (r2, s2)" by fastforce
  from assms(2) b c have r: "r1 = Inr ()" "\<exists>x. r2 = Inr x" "s' = s2"
    by (auto simp: processJob_def split: sum.splits)
  have b': "BuildIndex env uc ns s = (Inr (), s1)" using b r(1) by (simp add: Namespace_Index_def)
  note f1 = BuildIndex_fair [OF assms(1) b']
  with BuildIndex_covers [OF assms(1) b' assms(3)] CompleteJob_fair [OF _ c] r(2,3) show ?thesis by blast
qed

text \<open>An error of the build leaves the claimed job in the queue, for another worker to take over.\<close>

lemma processJob_failure_keeps_the_job:
  assumes "calm m0 s" "processJob env uc worker ns s = (BuildFailed e, s')"
  shows "MemStore_Get (mem_of s') queueKey = MemStore_Get m0 queueKey"
proof -
  obtain r1 s1 where b: "BuildIndex env uc ns s = (r1, s1)" by fastforce
  with assms(2) have "r1 = Inl e" "s' = s1"
    by (auto simp: processJob_def Namespace_Index_def split: sum.splits prod.splits)
  with BuildIndex_error_calm [OF assms(1), of env uc ns e s1 queueKey] b show ?thesis by (metis index_not_queue)
qed

section \<open>Concrete runs\<close>

text \<open>A worker has claimed the job of the write.\<close>

definition claimed_db :: db where
  "claimed_db = snd (ClaimNextJob [5, 6] ''w'' 0 (snd (EnqueueReindex [4] ''n'' 1 written_db)))"

lemma claimed_fair: "db_fair claimed_db"
  using EnqueueReindex_fair [OF written_fair prod.collapse [symmetric]] ClaimNextJob_fair [OF _ prod.collapse [symmetric]]
  unfolding claimed_db_def by blast

theorem processJob_completes_only_when_indexed_witness:
  "\<exists>mem m'. psteps (mem_of claimed_db) mem \<and> manifest_at mem ''n'' = Some m' \<and> 1 \<le> mIndexedUpTo m' \<and>
     owns_no_job (mem_of (snd (processJob demo_env ascii ''w'' ''n'' claimed_db))) ''n'' ''w''"
proof -
  let ?r = "processJob demo_env ascii ''w'' ''n'' claimed_db"
  have "fst ?r = Processed" by code_simp
  then have r: "?r = (Processed, snd ?r)" by (metis prod.collapse)
  have "map_option mWALSeq (manifest_at (mem_of claimed_db) ''n'') = Some 1" by code_simp
  then obtain m where m: "manifest_at (mem_of claimed_db) ''n'' = Some m" "mWALSeq m = 1" by auto
  from processJob_completes_only_when_indexed [OF claimed_fair r m(1)] m(2) show ?thesis by metis
qed

text \<open>
  While the worker builds, another client commits a second write and enqueues it; the job that is in
  progress absorbs the notification.  The build then covers the first write only, and completing the
  job removes it: the second write is committed, not indexed, and no job is left for it.
\<close>

definition second_write :: "wire MemStore \<Rightarrow> wire MemStore" where
  "second_write m = mem_of (snd (EnqueueReindex [7] ''n'' 2 (snd (Upsert ''n'' [demo_doc ''b''] (NewWithCapacity (\<lambda>k. k) \<lparr>bstore = m, bevents = []\<rparr> 0)))))"

definition notified_db :: db where
  "notified_db = claimed_db\<lparr>sBackend := (sBackend claimed_db)\<lparr>bevents := replicate 3 (Event id Served) @ [Event second_write Served]\<rparr>\<rparr>"

theorem completed_job_drops_a_notification:
  "case processJob demo_env ascii ''w'' ''n'' notified_db of (out, s) \<Rightarrow>
     out = Processed \<and> map_option qJobs (queue_at (mem_of s)) = Some [] \<and>
     map_option mWALSeq (manifest_at (mem_of s) ''n'') = Some 2 \<and>
     map_option mIndexedUpTo (manifest_at (mem_of s) ''n'') = Some 1"
  by code_simp

end
