(* ===== verification/Liveness.thy ===== *)
theory Liveness
  imports Durability
begin

text \<open>
  Progress of the write path: in a store that nobody else is using, a valid batch is committed by the
  one call, at the first free slot of the log, whatever stale segments earlier writers that died before
  publishing have left there; and only a run of \<open>maxUpsertAttempts\<close> such segments makes it give up.
\<close>

section \<open>Requests in a quiet store\<close>

lemma Store_PutIfAbsent_quiet:
  "db_quiet s \<Longrightarrow> MemStore_PutIfAbsent (mem_of s) key b = (r, m) \<Longrightarrow>
   Store_PutIfAbsent key b s = (r, s\<lparr>sBackend := \<lparr>bstore = m, bevents = []\<rparr>\<rparr>)"
  by (simp add: Store_PutIfAbsent_def on_backend_def Backend_PutIfAbsent_def deliver_quiet)

lemma Store_PutCAS_quiet:
  "db_quiet s \<Longrightarrow> MemStore_PutCAS (mem_of s) key b etag = (r, m) \<Longrightarrow>
   Store_PutCAS key b etag s = (r, s\<lparr>sBackend := \<lparr>bstore = m, bevents = []\<rparr>\<rparr>)"
  by (simp add: Store_PutCAS_def on_backend_def Backend_PutCAS_def deliver_quiet)

lemma same_backend: "db_quiet s \<Longrightarrow> s\<lparr>sBackend := \<lparr>bstore = mem_of s, bevents = []\<rparr>\<rparr> = s"
  by (cases s; cases "sBackend s") simp

abbreviation slot_free :: "wire MemStore \<Rightarrow> string \<Rightarrow> int \<Rightarrow> bool" where
  "slot_free m ns i \<equiv> MemStore_Get m (walKey ns i) = Inl ErrNotFound"

lemma slot_taken: "\<not> slot_free m ns i \<longleftrightarrow> (\<exists>x. MemStore_Get m (walKey ns i) = Inr x)"
  by (auto simp: MemStore_Get_def split: option.splits)

lemma AppendWAL_quiet:
  assumes "db_quiet s" "memstore_ok (mem_of s)" "list_all json_encodable docs"
  shows "\<not> slot_free (mem_of s) ns i \<Longrightarrow> AppendWAL ns i docs s = (Inl (StoreErr ErrPreconditionFailed), s)"
    and "slot_free (mem_of s) ns i \<Longrightarrow> \<exists>s' e. AppendWAL ns i docs s = (Inr (), s') \<and> db_quiet s' \<and> memstore_ok (mem_of s') \<and>
      wrote MemStore_Get used_etags (mem_of s) (walKey ns i) (WSegment \<lparr>sSeq = i, sOps = map json_doc docs\<rparr>) e (mem_of s')"
proof -
  show "AppendWAL ns i docs s = (Inl (StoreErr ErrPreconditionFailed), s)" if "\<not> slot_free (mem_of s) ns i"
    using that mem.absent_taken [OF assms(2)] Store_PutIfAbsent_quiet [OF assms(1)] same_backend [OF assms(1)] assms(3)
    by (fastforce simp: slot_taken AppendWAL_def)
  assume "slot_free (mem_of s) ns i"
  from mem.absent_free [OF assms(2) this] obtain e m' where m': "MemStore_PutIfAbsent (mem_of s) (walKey ns i)
      (WSegment \<lparr>sSeq = i, sOps = map json_doc docs\<rparr>) = (Inr e, m')" "memstore_ok m'"
    "wrote MemStore_Get used_etags (mem_of s) (walKey ns i) (WSegment \<lparr>sSeq = i, sOps = map json_doc docs\<rparr>) e m'" by blast
  with Store_PutIfAbsent_quiet [OF assms(1) m'(1)] assms(3)
  show "\<exists>s' e. AppendWAL ns i docs s = (Inr (), s') \<and> db_quiet s' \<and> memstore_ok (mem_of s') \<and>
      wrote MemStore_Get used_etags (mem_of s) (walKey ns i) (WSegment \<lparr>sSeq = i, sOps = map json_doc docs\<rparr>) e (mem_of s')"
    by (intro exI [of _ "s\<lparr>sBackend := \<lparr>bstore = m', bevents = []\<rparr>\<rparr>"] exI [of _ e]) (simp add: AppendWAL_def)
qed

section \<open>The claim loop stops at the first free slot\<close>

lemma claim_loop_reaches:
  assumes "db_quiet s" "memstore_ok (mem_of s)" "list_all json_encodable docs"
  shows "k < n \<Longrightarrow> \<forall>j < k. \<not> slot_free (mem_of s) ns (i + int j) \<Longrightarrow> slot_free (mem_of s) ns (i + int k) \<Longrightarrow>
    \<exists>s'. claim_loop n ns i docs s = (Inr (i + int k), s') \<and> AppendWAL ns (i + int k) docs s = (Inr (), s')"
proof (induction k arbitrary: n i)
  case 0
  then obtain n' where "n = Suc n'" by (cases n) auto
  with AppendWAL_quiet(2) [OF assms, of ns i] "0.prems"(3) show ?case by fastforce
next
  case (Suc k)
  then obtain n' where n: "n = Suc n'" "k < n'" by (cases n) auto
  have "\<not> slot_free (mem_of s) ns i" using Suc.prems(2) by fastforce
  then have "claim_loop n ns i docs s = claim_loop n' ns (i + 1) docs s"
    using AppendWAL_quiet(1) [OF assms] n(1) by simp
  moreover have "\<forall>j < k. \<not> slot_free (mem_of s) ns (i + 1 + int j)"
    using Suc.prems(2) by (auto simp: add.assoc dest: spec [of _ "Suc j" for j])
  ultimately show ?case using Suc.IH [of n' "i + 1"] n(2) Suc.prems(3) by (simp add: add.assoc)
qed

lemma claim_loop_exhausted:
  assumes "db_quiet s" "memstore_ok (mem_of s)" "list_all json_encodable docs"
  shows "\<forall>j < n. \<not> slot_free (mem_of s) ns (i + int j) \<Longrightarrow> claim_loop n ns i docs s = (Inl ExhaustedAppend, s)"
proof (induction n arbitrary: i)
  case (Suc n)
  have "\<not> slot_free (mem_of s) ns i" using Suc.prems by fastforce
  moreover have "\<forall>j < n. \<not> slot_free (mem_of s) ns (i + 1 + int j)"
    using Suc.prems by (auto simp: add.assoc dest: spec [of _ "Suc j" for j])
  ultimately show ?case using AppendWAL_quiet(1) [OF assms] Suc.IH by simp
qed simp

section \<open>The manifest follows\<close>

lemma SaveManifestCAS_quiet:
  assumes "db_quiet s" "memstore_ok (mem_of s)" "MemStore_Get (mem_of s) (manifestKey ns) = Inr (WManifest m, e)"
  shows "\<exists>s' e'. SaveManifestCAS ns f s = (Inr ((f m)\<lparr>mVersion := mVersion (f m) + 1\<rparr>), s') \<and> db_quiet s' \<and>
    wrote MemStore_Get used_etags (mem_of s) (manifestKey ns) (WManifest ((f m)\<lparr>mVersion := mVersion (f m) + 1\<rparr>)) e' (mem_of s')"
proof -
  let ?m = "(f m)\<lparr>mVersion := mVersion (f m) + 1\<rparr>"
  obtain n where n: "maxCASAttempts = Suc n" by (auto simp: maxCASAttempts_def numeral_eq_Suc)
  from mem.cas_match [OF assms(2,3)] obtain e' m' where m': "MemStore_PutCAS (mem_of s) (manifestKey ns) (WManifest ?m) e = (Inr e', m')"
    "wrote MemStore_Get used_etags (mem_of s) (manifestKey ns) (WManifest ?m) e' m'" by blast
  with LoadManifest_quiet [OF assms(1,3)] Store_PutCAS_quiet [OF assms(1) m'(1)] show ?thesis
    by (intro exI [of _ "s\<lparr>sBackend := \<lparr>bstore = m', bevents = []\<rparr>\<rparr>"] exI [of _ e']) (simp add: SaveManifestCAS_def n)
qed

lemma manifest_object: "manifest_at mem ns = Some m \<Longrightarrow> \<exists>e. MemStore_Get mem (manifestKey ns) = Inr (WManifest m, e)"
  by (auto simp: manifest_at_def split: sum.splits wire.splits prod.splits)

lemma Upsert_quiet:
  assumes "db_quiet s" "pinv (mem_of s)" "manifest_at (mem_of s) ns = Some m" "docs \<noteq> []"
    "validateDocs (mDimension m) docs = Inr ()" "list_all json_encodable docs" "k < maxUpsertAttempts"
    "\<forall>j < k. \<not> slot_free (mem_of s) ns (mWALSeq m + int j)" "slot_free (mem_of s) ns (mWALSeq m + int k)"
  shows "\<exists>s'. Upsert ns docs s = (Inr (), s') \<and> db_quiet s' \<and>
    manifest_at (mem_of s') ns = Some (bump (advance_to (mWALSeq m + int k) (liveDelta docs) m)) \<and>
    seg_at (mem_of s') ns (mWALSeq m + int k) = Some \<lparr>sSeq = mWALSeq m + int k, sOps = map json_doc docs\<rparr> \<and>
    (\<forall>key. key = manifestKey ns \<or> key = walKey ns (mWALSeq m + int k) \<or> MemStore_Get (mem_of s') key = MemStore_Get (mem_of s) key)"
proof -
  let ?i = "mWALSeq m + int k"
  from manifest_object [OF assms(3)] obtain e where e: "MemStore_Get (mem_of s) (manifestKey ns) = Inr (WManifest m, e)" ..
  have ok: "memstore_ok (mem_of s)" using assms(2) by (simp add: pinv_def)
  from pinv_node [OF assms(2,3)] obtain rank where "node_ok (mem_of s) rank ns m" .
  then have pos: "0 \<le> ?i" by (simp add: node_ok_def counters_ok_def)
  from claim_loop_reaches [OF assms(1) ok assms(6,7,8,9)] obtain s1 where
    s1: "claim_loop maxUpsertAttempts ns (mWALSeq m) docs s = (Inr ?i, s1)" "AppendWAL ns ?i docs s = (Inr (), s1)" by blast
  with AppendWAL_quiet(2) [OF assms(1) ok assms(6,9)] obtain e1 where q1: "db_quiet s1" "memstore_ok (mem_of s1)"
    and w1: "wrote MemStore_Get used_etags (mem_of s) (walKey ns ?i) (WSegment \<lparr>sSeq = ?i, sOps = map json_doc docs\<rparr>) e1 (mem_of s1)"
    by auto
  have m1: "MemStore_Get (mem_of s1) (manifestKey ns) = Inr (WManifest m, e)" using e pos by (simp add: wrote_get [OF w1])
  from SaveManifestCAS_quiet [OF q1 m1, of "advance_to ?i (liveDelta docs)"] obtain s2 e2 where
    s2: "SaveManifestCAS ns (advance_to ?i (liveDelta docs)) s1 = (Inr (bump (advance_to ?i (liveDelta docs) m)), s2)"
    and w2: "wrote MemStore_Get used_etags (mem_of s1) (manifestKey ns) (WManifest (bump (advance_to ?i (liveDelta docs) m))) e2 (mem_of s2)"
    and q2: "db_quiet s2" unfolding bump_def by blast
  have "Upsert ns docs s = (Inr (), s2)"
    using assms(4,5) LoadManifest_quiet [OF assms(1) e] s1(1) s2 by (simp add: Upsert_def commitBatch_def)
  moreover have "manifest_at (mem_of s2) ns = Some (bump (advance_to ?i (liveDelta docs) m))"
    by (simp add: manifest_at_def wrote_get [OF w2])
  moreover have "seg_at (mem_of s2) ns ?i = Some \<lparr>sSeq = ?i, sOps = map json_doc docs\<rparr>"
    using pos by (simp add: seg_at_def wrote_get [OF w2] wrote_get [OF w1])
  moreover have "\<forall>key. key = manifestKey ns \<or> key = walKey ns ?i \<or> MemStore_Get (mem_of s2) key = MemStore_Get (mem_of s) key"
    by (auto simp: wrote_get [OF w2] wrote_get [OF w1])
  ultimately show ?thesis using q2 by blast
qed

text \<open>
  C11. Progress. In a quiet store a valid, encodable batch is committed by the one call: at the first
  free slot at or after the manifest's position, provided it is among the next \<open>maxUpsertAttempts\<close>.
  The manifest is moved just past that slot (over the orphans before it), and no other object changes.
\<close>

theorem Upsert_reaches_a_free_slot:
  assumes "db_quiet s" "pinv (mem_of s)" "manifest_at (mem_of s) ns = Some m" "docs \<noteq> []"
    "validateDocs (mDimension m) docs = Inr ()" "list_all json_encodable docs" "k < maxUpsertAttempts"
    "\<forall>j < k. \<not> slot_free (mem_of s) ns (mWALSeq m + int j)" "slot_free (mem_of s) ns (mWALSeq m + int k)"
  shows "\<exists>s' m'. Upsert ns docs s = (Inr (), s') \<and> manifest_at (mem_of s') ns = Some m' \<and> mWALSeq m' = mWALSeq m + int k + 1 \<and>
    seg_at (mem_of s') ns (mWALSeq m + int k) = Some \<lparr>sSeq = mWALSeq m + int k, sOps = map json_doc docs\<rparr> \<and>
    (\<forall>key. key = manifestKey ns \<or> key = walKey ns (mWALSeq m + int k) \<or> MemStore_Get (mem_of s') key = MemStore_Get (mem_of s) key)"
proof -
  have "mWALSeq (bump (advance_to (mWALSeq m + int k) (liveDelta docs) m)) = mWALSeq m + int k + 1" by simp
  with Upsert_quiet [OF assms] show ?thesis by blast
qed

text \<open>Otherwise it gives up, and leaves the store as it was.\<close>

theorem Upsert_gives_up:
  assumes "db_quiet s" "pinv (mem_of s)" "manifest_at (mem_of s) ns = Some m" "docs \<noteq> []"
    "validateDocs (mDimension m) docs = Inr ()" "list_all json_encodable docs"
    "\<forall>j < maxUpsertAttempts. \<not> slot_free (mem_of s) ns (mWALSeq m + int j)"
  shows "Upsert ns docs s = (Inl ExhaustedAppend, s)"
  using manifest_object [OF assms(3)] LoadManifest_quiet [OF assms(1)] claim_loop_exhausted [OF assms(1) pinv_ok [OF assms(2)] assms(6,7)] assms(4,5)
  by (fastforce simp: Upsert_def commitBatch_def)

text \<open>A namespace in which another writer has died between its append and the manifest update.\<close>

definition orphan_db :: db where
  "orphan_db = (snd (CreateManifest ''n'' cfg0 fresh_db))\<lparr>sBackend :=
     \<lparr>bstore = rival (mem_of (snd (CreateManifest ''n'' cfg0 fresh_db))), bevents = []\<rparr>\<rparr>"

theorem Upsert_reaches_a_free_slot_witness:
  "\<exists>s' m'. Upsert ''n'' [demo_doc ''a''] orphan_db = (Inr (), s') \<and> manifest_at (mem_of s') ''n'' = Some m' \<and> mWALSeq m' = 2"
proof -
  have "pinv (mem_of orphan_db)"
    using psteps_pinv [OF rival_steps psteps_pinv [OF created(1) pinv_New]] by (simp add: orphan_db_def)
  moreover have "manifest_at (mem_of orphan_db) ''n'' = Some (root_manifest cfg0)" by code_simp
  moreover have "validateDocs (mDimension (root_manifest cfg0)) [demo_doc ''a''] = Inr ()" by code_simp
  moreover have "list_all json_encodable [demo_doc ''a'']" by code_simp
  moreover have "\<not> slot_free (mem_of orphan_db) ''n'' 0" "slot_free (mem_of orphan_db) ''n'' 1" by code_simp+
  ultimately show ?thesis
    using Upsert_reaches_a_free_slot [of orphan_db "''n''" "root_manifest cfg0" "[demo_doc ''a'']" 1]
    by (simp add: orphan_db_def maxUpsertAttempts_def) metis
qed

end
