(* ===== verification/S3.thy ===== *)
theory S3
  imports Storage
begin

text \<open>
  The S3 adapter of \<open>s3.go\<close>.  The AWS SDK is a parameter: a client is the functions below on a state
  \<open>'c\<close> that stands for the service and the connection.  What the adapter relies on is
  \<open>s3_documented\<close>: GetObject answers 404 for a key that is absent, a conditional PutObject answers 412
  when its condition does not hold, and any request may fail on the way with an error that is neither.
\<close>

section \<open>The SDK\<close>

record 'b get_object =
  goBody :: "'b option"
  goETag :: "string option"

record 'b put_object =
  piBucket :: string
  piKey :: string
  piBody :: 'b
  piIfMatch :: "string option"
  piIfNoneMatch :: "string option"

text \<open>\<open>goBody\<close> is \<open>None\<close> when reading the body fails.  \<open>'p\<close> is a paginator.\<close>

record ('c, 'b, 'p) s3_client =
  GetObject :: "string \<Rightarrow> string \<Rightarrow> 'c \<Rightarrow> (sdk_error + 'b get_object) \<times> 'c"
  PutObject :: "'b put_object \<Rightarrow> 'c \<Rightarrow> (sdk_error + string option) \<times> 'c"
  NewPaginator :: "string \<Rightarrow> string \<Rightarrow> 'p"
  HasMorePages :: "'p \<Rightarrow> bool"
  NextPage :: "'p \<Rightarrow> 'c \<Rightarrow> (sdk_error + string option list) \<times> 'p \<times> 'c"

text \<open>\<open>aws.ToString\<close>: the string behind a pointer, or the empty one.\<close>

definition ToString :: "string option \<Rightarrow> string" where
  "ToString p = (case p of None \<Rightarrow> [] | Some x \<Rightarrow> x)"

section \<open>The adapter\<close>

record S3Config =
  scEndpoint :: string
  scBucket :: string
  scAccessKey :: string
  scSecretKey :: string
  scRegion :: string

record S3Settings =
  ssEndpoint :: string
  ssUsePathStyle :: bool
  ssRegion :: string
  ssCredentials :: "string \<times> string"
  ssBucket :: string

definition NewS3Store :: "S3Config \<Rightarrow> string + S3Settings" where
  "NewS3Store cfg =
     (if scEndpoint cfg = [] then Inl ''s3: endpoint is required''
      else if scBucket cfg = [] then Inl ''s3: bucket is required''
      else Inr \<lparr>ssEndpoint = scEndpoint cfg, ssUsePathStyle = True,
        ssRegion = (if scRegion cfg = [] then ''us-east-1'' else scRegion cfg),
        ssCredentials = (scAccessKey cfg, scSecretKey cfg), ssBucket = scBucket cfg\<rparr>)"

definition strings_Join :: "string list \<Rightarrow> string \<Rightarrow> string" where
  "strings_Join xs sep = (case xs of [] \<Rightarrow> [] | x # xs \<Rightarrow> foldl (\<lambda>a x. a @ sep @ x) x xs)"

text \<open>\<open>Getenv\<close> is the environment: the empty string for what is not set.\<close>

definition NewS3StoreFromEnv :: "(string \<Rightarrow> string) \<Rightarrow> string + S3Settings" where
  "NewS3StoreFromEnv Getenv =
     (let cfg = \<lparr>scEndpoint = Getenv ''TPUF_S3_ENDPOINT'', scBucket = Getenv ''TPUF_BUCKET'',
            scAccessKey = Getenv ''TPUF_S3_ACCESS_KEY'', scSecretKey = Getenv ''TPUF_S3_SECRET_KEY'',
            scRegion = Getenv ''TPUF_S3_REGION''\<rparr>;
          missing = (if scEndpoint cfg = [] then [''TPUF_S3_ENDPOINT''] else []);
          missing = (if scBucket cfg = [] then missing @ [''TPUF_BUCKET''] else missing);
          missing = (if scAccessKey cfg = [] then missing @ [''TPUF_S3_ACCESS_KEY''] else missing);
          missing = (if scSecretKey cfg = [] then missing @ [''TPUF_S3_SECRET_KEY''] else missing)
      in if missing \<noteq> [] then Inl (''s3: missing required env: '' @ strings_Join missing '', '')
         else NewS3Store cfg)"

definition classified :: "sdk_error \<Rightarrow> store_err" where
  "classified err = (case classify (Some err) of None \<Rightarrow> ErrOther | Some e \<Rightarrow> e)"

definition S3_Get :: "('c, 'b, 'p) s3_client \<Rightarrow> string \<Rightarrow> string \<Rightarrow> 'c \<Rightarrow> (store_err + 'b \<times> string) \<times> 'c" where
  "S3_Get cl bucket key c = (case GetObject cl bucket key c of
     (Inl err, c) \<Rightarrow> (Inl (classified err), c)
   | (Inr out, c) \<Rightarrow> (case goBody out of
       None \<Rightarrow> (Inl ErrOther, c)
     | Some body \<Rightarrow> (Inr (body, ToString (goETag out)), c)))"

definition S3_PutCAS :: "('c, 'b, 'p) s3_client \<Rightarrow> string \<Rightarrow> string \<Rightarrow> 'b \<Rightarrow> string \<Rightarrow> 'c \<Rightarrow> (store_err + string) \<times> 'c" where
  "S3_PutCAS cl bucket key body ifMatchETag c =
     (case PutObject cl \<lparr>piBucket = bucket, piKey = key, piBody = body, piIfMatch = Some ifMatchETag, piIfNoneMatch = None\<rparr> c of
        (Inl err, c) \<Rightarrow> (Inl (classified err), c)
      | (Inr etag, c) \<Rightarrow> (Inr (ToString etag), c))"

definition S3_PutIfAbsent :: "('c, 'b, 'p) s3_client \<Rightarrow> string \<Rightarrow> string \<Rightarrow> 'b \<Rightarrow> 'c \<Rightarrow> (store_err + string) \<times> 'c" where
  "S3_PutIfAbsent cl bucket key body c =
     (case PutObject cl \<lparr>piBucket = bucket, piKey = key, piBody = body, piIfMatch = None, piIfNoneMatch = Some ''*''\<rparr> c of
        (Inl err, c) \<Rightarrow> (Inl (classified err), c)
      | (Inr etag, c) \<Rightarrow> (Inr (ToString etag), c))"

definition S3_Put :: "('c, 'b, 'p) s3_client \<Rightarrow> string \<Rightarrow> string \<Rightarrow> 'b \<Rightarrow> 'c \<Rightarrow> (store_err + string) \<times> 'c" where
  "S3_Put cl bucket key body c =
     (case PutObject cl \<lparr>piBucket = bucket, piKey = key, piBody = body, piIfMatch = None, piIfNoneMatch = None\<rparr> c of
        (Inl err, c) \<Rightarrow> (Inl (classified err), c)
      | (Inr etag, c) \<Rightarrow> (Inr (ToString etag), c))"

text \<open>The paging loop: \<open>None\<close> if the paginator never ends.\<close>

partial_function (option) list_loop ::
    "('c, 'b, 'p) s3_client \<Rightarrow> string list \<Rightarrow> 'p \<Rightarrow> 'c \<Rightarrow> ((store_err + string list) \<times> 'c) option" where
  "list_loop cl keys p c =
     (if HasMorePages cl p then
        (case NextPage cl p c of
          (Inl err, p, c) \<Rightarrow> Some (Inl (classified err), c)
        | (Inr page, p, c) \<Rightarrow> list_loop cl (keys @ map ToString page) p c)
      else Some (Inr keys, c))"

declare list_loop.simps [code]

definition S3_List :: "('c, 'b, 'p) s3_client \<Rightarrow> string \<Rightarrow> string \<Rightarrow> 'c \<Rightarrow> ((store_err + string list) \<times> 'c) option" where
  "S3_List cl bucket pre c = list_loop cl [] (NewPaginator cl bucket pre) c"

section \<open>What the service documents\<close>

text \<open>
  \<open>objects c\<close> is the content of the bucket.  An error on the way (\<open>noise\<close>) carries another status, or
  none and a message in which the fallback of \<open>classify\<close> finds nothing; such a request may have been
  carried out or not.
\<close>

definition noise :: "sdk_error \<Rightarrow> bool" where
  "noise err \<longleftrightarrow> classified err = ErrOther"

definition holds :: "'b put_object \<Rightarrow> ('b \<times> string) option \<Rightarrow> bool" where
  "holds i obj \<longleftrightarrow> (case piIfMatch i of None \<Rightarrow> True
       | Some e \<Rightarrow> (case obj of None \<Rightarrow> False | Some (b, e') \<Rightarrow> e' = e)) \<and>
     (piIfNoneMatch i = None \<or> obj = None)"

definition s3_documented :: "('c, 'b, 'p) s3_client \<Rightarrow> string \<Rightarrow> ('c \<Rightarrow> string \<Rightarrow> ('b \<times> string) option) \<Rightarrow> bool" where
  "s3_documented cl bucket objects \<longleftrightarrow>
     (\<forall>key c r c'. GetObject cl bucket key c = (r, c') \<longrightarrow> objects c' = objects c \<and>
        ((\<exists>b e. r = Inr \<lparr>goBody = Some b, goETag = Some e\<rparr> \<and> objects c key = Some (b, e)) \<or>
         (\<exists>err. r = Inl err \<and> HTTPStatusCode err = Some 404 \<and> objects c key = None) \<or>
         (\<exists>err. r = Inl err \<and> noise err) \<or> (\<exists>e. r = Inr \<lparr>goBody = None, goETag = e\<rparr>))) \<and>
     (\<forall>i c r c'. piBucket i = bucket \<longrightarrow> PutObject cl i c = (r, c') \<longrightarrow>
        (\<exists>e. r = Inr (Some e) \<and> holds i (objects c (piKey i)) \<and> objects c' = (objects c)(piKey i \<mapsto> (piBody i, e))) \<or>
        (\<exists>err. r = Inl err \<and> HTTPStatusCode err = Some 412 \<and> \<not> holds i (objects c (piKey i)) \<and> objects c' = objects c) \<or>
        (\<exists>err. r = Inl err \<and> noise err \<and> (objects c' = objects c \<or>
           holds i (objects c (piKey i)) \<and> (\<exists>e. objects c' = (objects c)(piKey i \<mapsto> (piBody i, e))))))"

section \<open>The adapter keeps the contract of the object store\<close>

text \<open>
  The fate of a put: served (stored, or refused because the condition failed), or an error that the
  caller cannot mistake for a verdict, after which the put has happened or not.
\<close>

definition put_fate :: "bool \<Rightarrow> (string \<Rightarrow> ('b \<times> string) option) \<Rightarrow> string \<Rightarrow> 'b \<Rightarrow> store_err + string \<Rightarrow> (string \<Rightarrow> ('b \<times> string) option) \<Rightarrow> bool" where
  "put_fate ok held key b r held' \<longleftrightarrow>
     ok \<and> (\<exists>e. r = Inr e \<and> held' = held(key \<mapsto> (b, e))) \<or>
     \<not> ok \<and> r = Inl ErrPreconditionFailed \<and> held' = held \<or>
     r = Inl ErrOther \<and> (held' = held \<or> ok \<and> (\<exists>e. held' = held(key \<mapsto> (b, e))))"

lemma classified_status: "HTTPStatusCode err = Some 412 \<Longrightarrow> classified err = ErrPreconditionFailed"
    "HTTPStatusCode err = Some 404 \<Longrightarrow> classified err = ErrNotFound"
  by (simp_all add: classified_def classify_def)

lemma put_object_fate:
  assumes "s3_documented cl bucket objects" "piBucket i = bucket"
    and "(case PutObject cl i c of (Inl err, c) \<Rightarrow> (Inl (classified err), c) | (Inr etag, c) \<Rightarrow> (Inr (ToString etag), c)) = (r, c')"
  shows "put_fate (holds i (objects c (piKey i))) (objects c) (piKey i) (piBody i) r (objects c')"
proof -
  obtain r0 c0 where p: "PutObject cl i c = (r0, c0)" by fastforce
  from assms(1,2) p have "(\<exists>e. r0 = Inr (Some e) \<and> holds i (objects c (piKey i)) \<and> objects c0 = (objects c)(piKey i \<mapsto> (piBody i, e))) \<or>
      (\<exists>err. r0 = Inl err \<and> HTTPStatusCode err = Some 412 \<and> \<not> holds i (objects c (piKey i)) \<and> objects c0 = objects c) \<or>
      (\<exists>err. r0 = Inl err \<and> noise err \<and> (objects c0 = objects c \<or>
         holds i (objects c (piKey i)) \<and> (\<exists>e. objects c0 = (objects c)(piKey i \<mapsto> (piBody i, e)))))"
    unfolding s3_documented_def by blast
  then show ?thesis
    using assms(3) p classified_status by (auto simp: put_fate_def ToString_def noise_def)
qed


text \<open>
  \<open>pages_of cl p c pages c'\<close>: the paginator delivers these pages and then ends.  \<open>List\<close> returns their
  keys, in order; an error on any page discards what came before.
\<close>

inductive pages_of :: "('c, 'b, 'p) s3_client \<Rightarrow> 'p \<Rightarrow> 'c \<Rightarrow> string option list list \<Rightarrow> 'c \<Rightarrow> bool" for cl where
  last_page: "\<not> HasMorePages cl p \<Longrightarrow> pages_of cl p c [] c"
| next_page: "HasMorePages cl p \<Longrightarrow> NextPage cl p c = (Inr page, p', c') \<Longrightarrow> pages_of cl p' c' pages c'' \<Longrightarrow>
    pages_of cl p c (page # pages) c''"

lemma list_loop_pages:
  "pages_of cl p c pages c' \<Longrightarrow> list_loop cl keys p c = Some (Inr (keys @ map ToString (concat pages)), c')"
proof (induction arbitrary: keys rule: pages_of.induct)
  case (next_page p c page p' c' pages c'')
  then show ?case by (subst list_loop.simps) simp
qed (simp add: list_loop.simps)

lemma S3_List_pages:
  "pages_of cl (NewPaginator cl bucket pre) c pages c' \<Longrightarrow> S3_List cl bucket pre c = Some (Inr (map ToString (concat pages)), c')"
  by (simp add: S3_List_def list_loop_pages)

section \<open>Configuration\<close>

lemma NewS3StoreFromEnv_iff:
  "(\<exists>st. NewS3StoreFromEnv env = Inr st) \<longleftrightarrow>
     (\<forall>v \<in> {''TPUF_S3_ENDPOINT'', ''TPUF_BUCKET'', ''TPUF_S3_ACCESS_KEY'', ''TPUF_S3_SECRET_KEY''}. env v \<noteq> [])"
  by (simp add: NewS3StoreFromEnv_def NewS3Store_def Let_def)

section \<open>Concrete runs\<close>

text \<open>The in-memory store, behind a client that answers with statuses.\<close>

definition mem_objects :: "'b MemStore \<Rightarrow> string \<Rightarrow> ('b \<times> string) option" where
  "mem_objects m key = (case MemStore_Get m key of Inl _ \<Rightarrow> None | Inr x \<Rightarrow> Some x)"

definition mem_client :: "('b MemStore, 'b, unit) s3_client" where
  "mem_client = \<lparr>
     GetObject = (\<lambda>bucket key m. (case MemStore_Get m key of
        Inl _ \<Rightarrow> Inl \<lparr>HTTPStatusCode = Some 404, errMessage = ''NoSuchKey''\<rparr>
      | Inr (b, e) \<Rightarrow> Inr \<lparr>goBody = Some b, goETag = Some e\<rparr>, m)),
     PutObject = (\<lambda>i m. if holds i (mem_objects m (piKey i))
        then (case MemStore_Put m (piKey i) (piBody i) of (Inr e, m) \<Rightarrow> (Inr (Some e), m)
          | (Inl _, m) \<Rightarrow> (Inl \<lparr>HTTPStatusCode = Some 500, errMessage = []\<rparr>, m))
        else (Inl \<lparr>HTTPStatusCode = Some 412, errMessage = ''PreconditionFailed''\<rparr>, m)),
     NewPaginator = (\<lambda>_ _. ()), HasMorePages = (\<lambda>_. False), NextPage = (\<lambda>p m. (Inr [], p, m))\<rparr>"

lemma mem_objects_stored: "store_obj m k b = (e, m') \<Longrightarrow> mem_objects m' = (mem_objects m)(k \<mapsto> (b, e))"
  by (auto simp: fun_eq_iff mem_objects_def memstore_defs Let_def update_conv)

lemma mem_client_documented: "s3_documented mem_client bucket (mem_objects :: 'b MemStore \<Rightarrow> _)"
proof -
  have put: "mem_objects m' = (mem_objects m)(k \<mapsto> (b, e))" if "MemStore_Put m k b = (Inr e, m')" for m m' :: "'b MemStore" and k b e
    using that mem_objects_stored [of m k b] by (auto simp: MemStore_Put_def split: prod.splits)
  have ok: "\<exists>e m'. MemStore_Put m k b = (Inr e, m')" for m :: "'b MemStore" and k b
    by (simp add: MemStore_Put_def split: prod.splits)
  have get: "GetObject mem_client bucket key c = (r, c') \<Longrightarrow> mem_objects c' = mem_objects c \<and>
      ((\<exists>b e. r = Inr \<lparr>goBody = Some b, goETag = Some e\<rparr> \<and> mem_objects c key = Some (b, e)) \<or>
       (\<exists>err. r = Inl err \<and> HTTPStatusCode err = Some 404 \<and> mem_objects c key = None))" for key r and c c' :: "'b MemStore"
    by (auto simp: mem_client_def mem_objects_def split: sum.splits)
  have "(\<exists>e. r = Inr (Some e) \<and> holds i (mem_objects c (piKey i)) \<and> mem_objects c' = (mem_objects c)(piKey i \<mapsto> (piBody i, e))) \<or>
      (\<exists>err. r = Inl err \<and> HTTPStatusCode err = Some 412 \<and> \<not> holds i (mem_objects c (piKey i)) \<and> mem_objects c' = mem_objects c)"
    if "PutObject mem_client i c = (r, c')" for i r and c c' :: "'b MemStore"
  proof (cases "holds i (mem_objects c (piKey i))")
    case True
    obtain e m' where m: "MemStore_Put c (piKey i) (piBody i) = (Inr e, m')" using ok [of c "piKey i" "piBody i"] by blast
    with that True put [OF m] show ?thesis by (auto simp: mem_client_def)
  next
    case False
    with that show ?thesis by (auto simp: mem_client_def)
  qed
  with get show ?thesis unfolding s3_documented_def by blast
qed


text \<open>
  The fallback on the text of an error takes a refused connection for a failed precondition when the
  digits 412 occur anywhere in its message, here in a port number.
\<close>

theorem port_number_reads_as_failed_precondition:
  "classified \<lparr>HTTPStatusCode = None, errMessage = ''dial tcp 10.0.0.7:41200: connect: connection refused''\<rparr> = ErrPreconditionFailed"
  by code_simp

end
