(* ===== verification/Reader.thy ===== *)
theory Reader
  imports QueryRun
begin

text \<open>
  Queries only read.  Every step of a query is a read of the store or of the cache, so by the contract
  \<open>read_run\<close> the whole query stays within any relation that reads stay within; here the relation that
  the objects of the store change only by what the other clients do.
\<close>

section \<open>A query is made of reads\<close>

context read_run
begin

lemma run_attrs: "loadAttrs ns ep s = (r, s') \<Longrightarrow> R s s'"
  by (auto simp: loadAttrs_def split: prod.splits sum.splits wire.splits dest: run_cached)

lemma run_plan: "planVectorQuery ns ep f s = (r, s') \<Longrightarrow> R s s'"
  by (auto simp: planVectorQuery_def Let_def run_refl split: prod.splits sum.splits option.splits if_splits dest: run_attrs)

lemma run_fetch: "fetch_wanted ns ep metric q wanted cs da s = (r, s') \<Longrightarrow> R s s'"
proof (induction cs arbitrary: da s)
  case (Cons c cs)
  obtain r1 s1 where w: "GetCached (clusterKey ns ep c) s = (r1, s1)" by fastforce
  show ?case
  proof (cases "\<exists>clf. r1 = Inr (WCluster clf)")
    case True
    then obtain clf where clf: "r1 = Inr (WCluster clf)" by blast
    let ?da = "fold (put_cand metric q) (filter (\<lambda>x. eID x \<in> set (lookup wanted c [])) (clMembers clf)) da"
    have "fetch_wanted ns ep metric q wanted cs ?da s1 = (r, s')" using Cons.prems w clf by simp
    from run_trans [OF run_cached [OF w] Cons.IH [OF this]] show ?thesis .
  next
    case False
    with Cons.prems w have "s' = s1" by (auto split: sum.splits wire.splits)
    with run_cached [OF w] show ?thesis by simp
  qed
qed (simp add: run_refl)

lemma run_first: "filterFirstCandidates env ns ep metric q plan da s = (r, s') \<Longrightarrow> R s s'"
  by (auto simp: filterFirstCandidates_def Let_def run_refl split: option.splits if_splits dest: run_fetch)

lemma run_probes: "scan_probes ns ep metric q rot dimn skip cs xs g s = (r, s') \<Longrightarrow> R s s'"
proof (induction cs arbitrary: xs g s)
  case (Cons c cs)
  show ?case
  proof (cases "skip c")
    case True
    with Cons.prems Cons.IH show ?thesis by simp
  next
    case False
    obtain r1 s1 where w: "GetCached (clusterKey ns ep (int c)) s = (r1, s1)" by fastforce
    show ?thesis
    proof (cases "\<exists>clf. r1 = Inr (WCluster clf)")
      case True
      then obtain clf where clf: "r1 = Inr (WCluster clf)" by blast
      obtain ms g' where "member_scores metric q rot dimn clf g = (ms, g')" by fastforce
      with Cons.prems w clf False Cons.IH have "R s1 s'" by simp
      from run_trans [OF run_cached [OF w] this] show ?thesis .
    next
      case other: False
      with Cons.prems w False have "s' = s1" by (auto split: sum.splits wire.splits)
      with run_cached [OF w] show ?thesis by simp
    qed
  qed
qed (simp add: run_refl)

lemma run_candidates: "vectorCandidatesFromIndex env ns ep metric q nProbe topK plan da s = (r, s') \<Longrightarrow> R s s'"
proof -
  assume r: "vectorCandidatesFromIndex env ns ep metric q nProbe topK plan da s = (r, s')"
  show "R s s'"
  proof (cases "vpFilterFirst plan")
    case True
    with r show ?thesis by (auto simp: vectorCandidatesFromIndex_def dest: run_first)
  next
    case False
    obtain r1 s1 where w: "GetCached (centroidsKey ns ep) s = (r1, s1)" by fastforce
    show ?thesis
    proof (cases "\<exists>cf. r1 = Inr (WCentroids cf) \<and> cfCentroids cf \<noteq> []")
      case True
      then obtain cf where cf: "r1 = Inr (WCentroids cf)" "cfCentroids cf \<noteq> []" by blast
      let ?skip = "\<lambda>c. vpUsable plan \<and> int c \<notin> set (vpClusters plan)"
      obtain r2 s2 where p: "scan_probes ns ep metric q (cfRotation cf) (cfDimension cf) ?skip
          (fst (probeClusters cf metric q nProbe)) [] (vSource env rotationSeed) s1 = (r2, s2)" by fastforce
      with r w cf False have "s' = s2"
        by (auto simp: vectorCandidatesFromIndex_def Let_def split: sum.splits option.splits if_splits)
      with run_trans [OF run_cached [OF w] run_probes [OF p]] show ?thesis by simp
    next
      case other: False
      with r w False have "s' = s1" by (auto simp: vectorCandidatesFromIndex_def split: sum.splits wire.splits if_splits)
      with run_cached [OF w] show ?thesis by simp
    qed
  qed
qed

lemma run_gather_vec: "gather_vec env m v p q topK s = (r, s') \<Longrightarrow> R s s'"
proof -
  assume r: "gather_vec env m v p q topK s = (r, s')"
  show "R s s'"
  proof (cases "rvIndexEpoch v > 0")
    case True
    obtain r1 s1 where w: "planVectorQuery (rvIndexNS v) (rvIndexEpoch v) (qFilter p) s = (r1, s1)" by fastforce
    show ?thesis
    proof (cases r1)
      case (Inl e)
      with r w True run_plan [OF w] show ?thesis by (simp add: gather_vec_def)
    next
      case (Inr plan)
      with r w True have "R s1 s'" by (auto simp: gather_vec_def dest: run_candidates)
      from run_trans [OF run_plan [OF w] this] show ?thesis .
    qed
  qed (use r in \<open>simp add: gather_vec_def run_refl\<close>)
qed

lemma run_view_read: "MaterializeView v a b s = (r, s') \<Longrightarrow> R s s'"
  by (simp add: MaterializeView_def run_view)

lemma run_vector_query: "runVectorQuery env m v p topK s = (r, s') \<Longrightarrow> R s s'"
proof -
  assume r: "runVectorQuery env m v p topK s = (r, s')"
  obtain r1 s1 where g: "gather_vec env m v p (query_vec p) topK s = (r1, s1)" by fastforce
  obtain r2 s2 where l: "MaterializeView v (mIndexedUpTo m) (mWALSeq m) s1 = (r2, s2)" by fastforce
  from r g l have "s' = s \<or> s' = s1 \<or> s' = s2"
    by (auto simp: runVectorQuery_def Let_def split: if_splits sum.splits option.splits)
  with run_refl run_gather_vec [OF g] run_trans [OF run_gather_vec [OF g] run_view_read [OF l]] show ?thesis by blast
qed

lemma run_bm25_epoch: "loadBM25Epoch ns ep s = (r, s') \<Longrightarrow> R s s'"
proof -
  assume r: "loadBM25Epoch ns ep s = (r, s')"
  obtain r1 s1 where w: "GetCached (bm25Key ns ep) s = (r1, s1)" by fastforce
  obtain r2 s2 where d: "GetCached (docsKey ns ep) s1 = (r2, s2)" by fastforce
  from r w d have "s' = s1 \<or> s' = s2" by (auto simp: loadBM25Epoch_def split: sum.splits wire.splits)
  with run_cached [OF w] run_trans [OF run_cached [OF w] run_cached [OF d]] show ?thesis by blast
qed

lemma run_gather_text: "gather_text env v terms s = (r, s') \<Longrightarrow> R s s'"
  by (auto simp: gather_text_def run_refl split: prod.splits sum.splits if_splits dest: run_bm25_epoch)

lemma run_text_query: "runBM25Query env m v p topK s = (r, s') \<Longrightarrow> R s s'"
proof -
  assume r: "runBM25Query env m v p topK s = (r, s')"
  obtain r1 s1 where g: "gather_text env v (Tokenize (vUnicode env) (rText (qRankBy p))) s = (r1, s1)" by fastforce
  obtain r2 s2 where l: "MaterializeView v (mIndexedUpTo m) (mWALSeq m) s1 = (r2, s2)" by fastforce
  from r g l have "s' = s \<or> s' = s1 \<or> s' = s2"
    by (auto simp: runBM25Query_def Let_def split: if_splits sum.splits option.splits)
  with run_refl run_gather_text [OF g] run_trans [OF run_gather_text [OF g] run_view_read [OF l]] show ?thesis by blast
qed

lemma run_hybrid_query: "runHybridQuery env m v p topK s = (r, s') \<Longrightarrow> R s s'"
proof -
  assume r: "runHybridQuery env m v p topK s = (r, s')"
  let ?w = "wrap64 (topK * hybridShortlistMultiplier)"
  obtain r1 s1 where a: "runVectorQuery env m v p ?w s = (r1, s1)" by fastforce
  obtain r2 s2 where b: "runBM25Query env m v p ?w s1 = (r2, s2)" by fastforce
  from r a b have "s' = s1 \<or> s' = s2"
    by (auto simp: runHybridQuery_def Let_def split: sum.splits option.splits)
  with run_vector_query [OF a] run_trans [OF run_vector_query [OF a] run_text_query [OF b]] show ?thesis by blast
qed

lemma run_query: "RunQuery env ns p s = (r, s') \<Longrightarrow> R s s'"
proof -
  assume r: "RunQuery env ns p s = (r, s')"
  obtain r1 s1 where l: "LoadManifest ns s = (r1, s1)" by fastforce
  show "R s s'"
  proof (cases r1)
    case (Inl e)
    with r l run_load [OF l] show ?thesis by (simp add: RunQuery_def)
  next
    case (Inr x)
    obtain m e where x: "x = (m, e)" by fastforce
    obtain r2 s2 where v: "resolveReadView ns m s1 = (r2, s2)" by fastforce
    let ?k = "if qTopK p \<le> 0 then defaultTopK else qTopK p"
    have q: "s' = s1 \<or> s' = s2 \<or> (\<exists>v. runHybridQuery env m v p ?k s2 = (r, s') \<or> runVectorQuery env m v p ?k s2 = (r, s') \<or>
        runBM25Query env m v p ?k s2 = (r, s'))"
      using r l Inr x v by (auto simp: RunQuery_def Let_def split: sum.splits if_splits)
    have a: "R s s2" by (rule run_trans [OF run_load [OF l] run_resolve [OF v]])
    from q have "s' = s1 \<or> s' = s2 \<or> R s2 s'" by (blast intro: run_hybrid_query run_vector_query run_text_query)
    with run_load [OF l] a run_trans [OF a] show ?thesis by blast
  qed
qed

end

section \<open>Whose writes a reader sees\<close>

text \<open>
  \<open>only_others s s'\<close>: from \<open>s\<close> to \<open>s'\<close> some of the scheduled events have passed, and the objects are what
  the others made of them in these events.
\<close>

definition only_others :: "db \<Rightarrow> db \<Rightarrow> bool" where
  "only_others s s' \<longleftrightarrow> (\<exists>k. mem_of s' = fold others (take k (bevents (sBackend s))) (mem_of s) \<and>
     bevents (sBackend s') = drop k (bevents (sBackend s)))"

lemma only_others_backend: "sBackend s' = sBackend s \<Longrightarrow> only_others s s'"
  unfolding only_others_def by (rule exI [of _ 0]) simp

lemma only_others_trans:
  assumes "only_others s s1" "only_others s1 s2"
  shows "only_others s s2"
proof -
  from assms obtain k l where k: "mem_of s1 = fold others (take k (bevents (sBackend s))) (mem_of s)"
      "bevents (sBackend s1) = drop k (bevents (sBackend s))"
    and l: "mem_of s2 = fold others (take l (bevents (sBackend s1))) (mem_of s1)" "bevents (sBackend s2) = drop l (bevents (sBackend s1))"
    unfolding only_others_def by blast
  have "mem_of s2 = fold others (take (k + l) (bevents (sBackend s))) (mem_of s)"
    unfolding l(1) k take_add by simp
  moreover have "bevents (sBackend s2) = drop (k + l) (bevents (sBackend s))" using l(2) k(2) by (simp add: add.commute)
  ultimately show ?thesis unfolding only_others_def by blast
qed

lemma Store_Get_only_others:
  assumes "Store_Get key s = (r, s')"
  shows "only_others s s'"
proof -
  have d: "deliver (\<lambda>m. (MemStore_Get m key, m)) (sBackend s) = (r, sBackend s')"
    using assms by (simp add: Store_Get_def on_backend_eq Backend_Get_def)
  obtain x b0 where n: "next_event (sBackend s) = (x, b0)" by fastforce
  from d n have b: "sBackend s' = b0" by (cases x) (auto simp: deliver_def)
  show ?thesis
  proof (cases "bevents (sBackend s)")
    case Nil
    with n b show ?thesis by (intro only_others_backend) (simp add: next_event_def)
  next
    case (Cons ev es)
    obtain f y where ev: "ev = Event f y" by (cases ev)
    with Cons n b have "sBackend s' = \<lparr>bstore = f (mem_of s), bevents = es\<rparr>" by (simp add: next_event_def)
    then have "mem_of s' = f (mem_of s)" "bevents (sBackend s') = es" by simp_all
    with Cons ev show ?thesis unfolding only_others_def by (intro exI [of _ 1]) simp
  qed
qed

interpretation reader: read_run only_others
proof
  show "only_others s s" for s by (simp add: only_others_backend)
  show "only_others s s1 \<Longrightarrow> only_others s1 s2 \<Longrightarrow> only_others s s2" for s s1 s2 by (rule only_others_trans)
  show get: "Store_Get key s = (r, s1) \<Longrightarrow> only_others s s1" for key s r s1 by (rule Store_Get_only_others)
  show "only_others s s1" if "GetCached key s = (q, s1)" for key s q s1
    using that
  proof (cases rule: GetCached_cases)
    case (nvme_hit b s2)
    then have "sBackend s2 = sBackend s" by (metis snd_conv disk_get_simps(1))
    with nvme_hit show ?thesis by (intro only_others_backend) simp
  next
    case (cold b e s2 s3)
    then have b: "sBackend s2 = sBackend s" by (metis snd_conv disk_get_simps(1))
    from get [OF cold(3)] cold b show ?thesis by (simp add: only_others_def)
  next
    case (failed e s2)
    then have "sBackend s2 = sBackend s" by (metis snd_conv disk_get_simps(1))
    with failed get [OF failed(3)] show ?thesis by (simp add: only_others_def)
  qed (simp add: only_others_backend)
qed

text \<open>
  C5. A query never writes.  Whatever the query, the epoch, the cache and the other clients do, and
  whether it succeeds or fails, the objects of the store after it are exactly what the other clients
  made of them while it ran.
\<close>

theorem RunQuery_only_reads:
  "\<exists>k. mem_of (snd (RunQuery env ns p s)) = fold others (take k (bevents (sBackend s))) (mem_of s) \<and>
     bevents (sBackend (snd (RunQuery env ns p s))) = drop k (bevents (sBackend s))"
  using reader.run_query [of env ns p s, OF prod.collapse [symmetric]] by (simp add: only_others_def)

end
