(* ===== verification/Process.thy ===== *)
theory Process
  imports S3 Cache
begin

text \<open>
  What the commands share when they start: the environment, numbers from it, the choice of the store and
  its cache, and Go's \<open>flag\<close> package as the command line uses it.  The environment is a function that is
  empty where a variable is not set; the directory of the NVMe ring comes from outside.
\<close>

section \<open>Environment\<close>

type_synonym environ = "string \<Rightarrow> string"

definition envOr :: "environ \<Rightarrow> string \<Rightarrow> string \<Rightarrow> string" where
  "envOr Getenv key dflt = (if Getenv key \<noteq> [] then Getenv key else dflt)"

text \<open>\<open>strconv.Atoi\<close>: an optional sign and decimal digits, within the range of an \<open>int\<close>.\<close>

definition Atoi :: "string \<Rightarrow> int option" where
  "Atoi s =
     (let neg = (s \<noteq> [] \<and> hd s = CHR ''-'');
          ds = (if s \<noteq> [] \<and> (hd s = CHR ''-'' \<or> hd s = CHR ''+'') then tl s else s);
          n = (if neg then - int (str_val ds) else int (str_val ds))
      in if ds \<noteq> [] \<and> list_all is_digit ds \<and> - (2 ^ 63) \<le> n \<and> n < 2 ^ 63 then Some n else None)"

definition envInt :: "environ \<Rightarrow> string \<Rightarrow> int \<Rightarrow> int" where
  "envInt Getenv key dflt =
     (if Getenv key \<noteq> [] then (case Atoi (Getenv key) of None \<Rightarrow> dflt | Some n \<Rightarrow> n) else dflt)"

definition envIntOr :: "environ \<Rightarrow> string \<Rightarrow> int \<Rightarrow> int" where
  "envIntOr Getenv key dflt =
     (if Getenv key = [] then dflt
      else (case Atoi (Getenv key) of None \<Rightarrow> dflt | Some n \<Rightarrow> if n \<le> 0 then dflt else n))"

text \<open>\<open>envDuration\<close> of the daemon; \<open>time.ParseDuration\<close> is an argument.\<close>

definition envDuration :: "(string \<Rightarrow> int option) \<Rightarrow> environ \<Rightarrow> string \<Rightarrow> int \<Rightarrow> int" where
  "envDuration ParseDuration Getenv key dflt =
     (if Getenv key \<noteq> [] then
        (case ParseDuration (Getenv key) of None \<Rightarrow> dflt | Some d \<Rightarrow> if d > 0 then d else dflt)
      else dflt)"

section \<open>The store\<close>

datatype backend_kind = MemoryBackend | S3Backend S3Settings

definition newBackend :: "environ \<Rightarrow> string + backend_kind" where
  "newBackend Getenv = (let backend = envOr Getenv ''TPUF_BACKEND'' ''s3'' in
     if backend = ''memory'' then Inr MemoryBackend
     else if backend = ''s3'' then
       (case NewS3StoreFromEnv Getenv of
          Inl err \<Rightarrow> Inl (''connecting to s3 backend: '' @ err)
        | Inr st \<Rightarrow> Inr (S3Backend st))
     else Inl (''unknown TPUF_BACKEND '' @ backend))"

text \<open>The cache of a node and of the command line; \<open>dir\<close> is the directory that TPUF_NVME_DIR names.\<close>

definition node_newCache :: "(string \<Rightarrow> string) \<Rightarrow> environ \<Rightarrow> (string \<Rightarrow> 'b ringDir) \<Rightarrow> 'b Backend \<Rightarrow> ring_err + 'b Store" where
  "node_newCache h Getenv dirs backend =
     (let dram = envInt Getenv ''TPUF_CACHE_OBJECTS'' 0; dir = envOr Getenv ''TPUF_NVME_DIR'' [] in
      if dir = [] then Inr (NewWithCapacity h backend dram)
      else NewWithNVMe h backend dram (dirs dir) (envInt Getenv ''TPUF_NVME_SLOTS'' 1024))"

definition cli_newCache :: "(string \<Rightarrow> string) \<Rightarrow> environ \<Rightarrow> (string \<Rightarrow> 'b ringDir) \<Rightarrow> 'b Backend \<Rightarrow> ring_err + 'b Store" where
  "cli_newCache h Getenv dirs backend =
     (let dir = Getenv ''TPUF_NVME_DIR'' in
      if dir = [] then Inr (Store_New h backend)
      else NewWithNVMe h backend 0 (dirs dir) (envIntOr Getenv ''TPUF_NVME_SLOTS'' 1024))"

section \<open>Flags\<close>

text \<open>
  The loop of \<open>FlagSet.Parse\<close> for flags with a value: a flag is \<open>-name=value\<close> or \<open>-name value\<close>, with one
  dash or two; the first other argument, or \<open>--\<close>, ends the flags.  \<open>set\<close> is the \<open>Set\<close> method behind a
  name: \<open>None\<close> for a name that is not defined, \<open>Inl\<close> for a value that does not parse.
\<close>

datatype flag_err = BadFlagSyntax string | NotDefined string | NeedsArgument string | InvalidValue string string | ErrHelp

definition split_value :: "string \<Rightarrow> string \<times> string option" where
  "split_value name = (case name of [] \<Rightarrow> ([], None)
     | c # cs \<Rightarrow> (c # takeWhile (\<lambda>x. x \<noteq> CHR ''='') cs,
         (case dropWhile (\<lambda>x. x \<noteq> CHR ''='') cs of [] \<Rightarrow> None | _ # v \<Rightarrow> Some v)))"

fun flag_Parse :: "(string \<Rightarrow> ('f \<Rightarrow> string \<Rightarrow> 'f option) option) \<Rightarrow> string list \<Rightarrow> 'f \<Rightarrow> flag_err + 'f \<times> string list" where
  "flag_Parse setter [] f = Inr (f, [])"
| "flag_Parse setter (s # args) f =
     (if length s < 2 \<or> hd s \<noteq> CHR ''-'' then Inr (f, s # args)
      else if s = ''--'' then Inr (f, args)
      else (let name = (if s ! 1 = CHR ''-'' then drop 2 s else drop 1 s) in
        if name = [] \<or> hd name = CHR ''-'' \<or> hd name = CHR ''='' then Inl (BadFlagSyntax s)
        else (case split_value name of (name, val) \<Rightarrow>
          (case setter name of
             None \<Rightarrow> Inl (if name = ''help'' \<or> name = ''h'' then ErrHelp else NotDefined name)
           | Some st \<Rightarrow> (case val of
               Some v \<Rightarrow> (case st f v of None \<Rightarrow> Inl (InvalidValue v name) | Some f \<Rightarrow> flag_Parse setter args f)
             | None \<Rightarrow> (case args of
                 [] \<Rightarrow> Inl (NeedsArgument name)
               | v # args \<Rightarrow> (case st f v of None \<Rightarrow> Inl (InvalidValue v name) | Some f \<Rightarrow> flag_Parse setter args f)))))))"

text \<open>\<open>parseNamespaceFlags\<close>: the name comes first, then the flags, and nothing else.\<close>

datatype usage_err = NameRequired | NameFirst | FlagErr flag_err | ExtraArgument string

definition parseNamespaceFlags :: "(string \<Rightarrow> ('f \<Rightarrow> string \<Rightarrow> 'f option) option) \<Rightarrow> 'f \<Rightarrow> string list \<Rightarrow> usage_err + string \<times> 'f" where
  "parseNamespaceFlags setter f args = (case args of
     [] \<Rightarrow> Inl NameRequired
   | name # args \<Rightarrow>
       if prefix ''-'' name then Inl NameFirst
       else (case flag_Parse setter args f of
         Inl e \<Rightarrow> Inl (FlagErr e)
       | Inr (f, rest) \<Rightarrow> (case rest of [] \<Rightarrow> Inr (name, f) | x # _ \<Rightarrow> Inl (ExtraArgument x))))"

section \<open>What is parsed\<close>

text \<open>
  Arguments written as \<open>--name value\<close> pairs come back as the fold of their setters, whatever the values
  are (a value may start with a dash or be empty).
\<close>

definition flag_name :: "string \<Rightarrow> bool" where
  "flag_name n \<longleftrightarrow> n \<noteq> [] \<and> hd n \<noteq> CHR ''-'' \<and> CHR ''='' \<notin> set n"

definition flag_args :: "(string \<times> string) list \<Rightarrow> string list" where
  "flag_args nvs = concat (map (\<lambda>(n, v). [''--'' @ n, v]) nvs)"

fun apply_flags :: "(string \<Rightarrow> ('f \<Rightarrow> string \<Rightarrow> 'f option) option) \<Rightarrow> (string \<times> string) list \<Rightarrow> 'f \<Rightarrow> 'f option" where
  "apply_flags setter [] f = Some f"
| "apply_flags setter ((n, v) # nvs) f =
     Option.bind (setter n) (\<lambda>st. Option.bind (st f v) (apply_flags setter nvs))"

lemma split_value_name:
  assumes "flag_name n"
  shows "split_value n = (n, None)"
proof -
  from assms obtain c cs where n: "n = c # cs" "CHR ''='' \<notin> set cs" by (cases n) (auto simp: flag_name_def)
  have c: "\<forall>x \<in> set cs. x \<noteq> CHR ''=''" using n(2) by blast
  then have "takeWhile (\<lambda>x. x \<noteq> CHR ''='') cs = cs" by (simp only: takeWhile_eq_all_conv)
  moreover from c have "dropWhile (\<lambda>x. x \<noteq> CHR ''='') cs = []" by (simp only: dropWhile_eq_Nil_conv)
  ultimately show ?thesis unfolding n(1) split_value_def list.case prod.inject by (simp only: list.case simp_thms)
qed

lemma flag_Parse_pairs:
  "list_all (\<lambda>(n, v). flag_name n) nvs \<Longrightarrow> apply_flags setter nvs f = Some f' \<Longrightarrow>
   flag_Parse setter (flag_args nvs) f = Inr (f', [])"
proof (induction nvs arbitrary: f)
  case (Cons nv nvs)
  obtain n v where nv: "nv = (n, v)" by fastforce
  with Cons.prems obtain st f1 where s: "setter n = Some st" "st f v = Some f1" "apply_flags setter nvs f1 = Some f'"
    by (auto simp: bind_eq_Some_conv)
  have n: "flag_name n" using Cons.prems(1) nv by simp
  then have "n \<noteq> []" "hd n \<noteq> CHR ''-''" "hd n \<noteq> CHR ''=''" unfolding flag_name_def by (blast, blast, metis hd_in_set)
  with Cons.IH [OF _ s(3)] Cons.prems(1) s(1,2) nv split_value_name [OF n] show ?case by (simp add: flag_args_def)
qed (simp add: flag_args_def)

lemma parseNamespaceFlags_pairs:
  assumes "name \<noteq> []" "hd name \<noteq> CHR ''-''" "list_all (\<lambda>(n, v). flag_name n) nvs" "apply_flags setter nvs f = Some f'"
  shows "parseNamespaceFlags setter f (name # flag_args nvs) = Inr (name, f')"
  using assms(1,2) flag_Parse_pairs [OF assms(3,4)] by (cases name) (auto simp: parseNamespaceFlags_def)

lemma is_digit_sign: "\<not> is_digit (CHR ''-'')" "\<not> is_digit (CHR ''+'')"
  by (simp_all add: is_digit_def)

lemma Atoi_FormatInt:
  assumes "- (2 ^ 63) \<le> n" "n < 2 ^ 63"
  shows "Atoi (FormatInt n) = Some n"
proof -
  have d: "list_all is_digit (nat_str k)" for k using nat_str_digits [of _ k] by (simp add: list_all_iff)
  have "is_digit (hd (nat_str k))" for k using nat_str_digits [OF hd_in_set [OF nat_str_nonempty]] .
  then have h: "hd (nat_str k) \<noteq> CHR ''-''" "hd (nat_str k) \<noteq> CHR ''+''" for k
    by (metis (full_types) is_digit_sign)+
  show ?thesis using assms d h by (auto simp: Atoi_def FormatInt_def Let_def)
qed

end
