(* ===== verification/Server.thy ===== *)
theory Server
  imports Process QueryRun Liveness
begin

text \<open>
  The query node of \<open>cmd/tpuf-node\<close>: its HTTP handlers over the engine.  A request body is what decoding
  gives (\<open>None\<close> if it does not decode); a reply is the node's header, the status and the value that is
  rendered, or the error text.  Rendering as JSON and the server loop are not modelled.
\<close>

section \<open>Requests and replies\<close>

record 'a reply =
  rpNode :: string
  rpStatus :: nat
  rpBody :: "string + 'a"

record queryRequest =
  hqVector :: vec
  hqBM25 :: string
  hqTopK :: int
  hqNProbe :: int
  hqFilter :: "Filter option"

record queryResponse =
  hrNode :: string
  hrNamespace :: string
  hrCount :: nat
  hrResults :: "QueryResult list"

definition no_filter :: Filter where
  "no_filter = Filter [] [] ANil []"

text \<open>\<open>err.Error()\<close> is not modelled: the text of an engine error is left out.\<close>

definition writeEngineError :: "err \<Rightarrow> nat \<times> string" where
  "writeEngineError e = (if is_not_found e then (404, ''namespace not found'') else (500, []))"

section \<open>Handlers\<close>

definition handleQuery :: "qenv \<Rightarrow> string \<Rightarrow> string \<Rightarrow> queryRequest option \<Rightarrow> db \<Rightarrow> queryResponse reply \<times> db" where
  "handleQuery env nid ns body s =
     (let error = (\<lambda>st msg. \<lparr>rpNode = nid, rpStatus = st, rpBody = Inl msg\<rparr>) in
      case body of
        None \<Rightarrow> (error 400 ''decoding request'', s)
      | Some req \<Rightarrow>
          (let params = \<lparr>qRankBy = \<lparr>rVector = None, rText = []\<rparr>, qFilter = no_filter,
                 qTopK = hqTopK req, qNProbe = hqNProbe req\<rparr>;
               rank_by = (if hqVector req \<noteq> [] then Some \<lparr>rVector = Some (hqVector req), rText = []\<rparr>
                 else if hqBM25 req \<noteq> [] then Some \<lparr>rVector = None, rText = hqBM25 req\<rparr>
                 else None)
           in case rank_by of
             None \<Rightarrow> (error 400 ''request must set either vector or bm25'', s)
           | Some r \<Rightarrow>
               (let params = params\<lparr>qRankBy := r\<rparr>;
                    params = (case hqFilter req of None \<Rightarrow> params | Some f \<Rightarrow> params\<lparr>qFilter := f\<rparr>)
                in case Namespace_Query env ns params s of
                  (Inl e, s) \<Rightarrow> (case writeEngineError e of (st, msg) \<Rightarrow> (error st msg, s))
                | (Inr results, s) \<Rightarrow>
                    (\<lparr>rpNode = nid, rpStatus = 200, rpBody = Inr \<lparr>hrNode = nid, hrNamespace = ns,
                       hrCount = length results, hrResults = results\<rparr>\<rparr>, s))))"

definition handleInfo :: "string \<Rightarrow> string \<Rightarrow> db \<Rightarrow> Manifest reply \<times> db" where
  "handleInfo nid ns s = (case Info ns s of
     (Inl e, s) \<Rightarrow> (case writeEngineError e of (st, msg) \<Rightarrow> (\<lparr>rpNode = nid, rpStatus = st, rpBody = Inl msg\<rparr>, s))
   | (Inr m, s) \<Rightarrow> (\<lparr>rpNode = nid, rpStatus = 200, rpBody = Inr m\<rparr>, s))"

definition handleStats :: "string \<Rightarrow> db \<Rightarrow> (string \<times> CacheStats \<times> flt) reply" where
  "handleStats nid s = (let c = Store_Stats s in
     \<lparr>rpNode = nid, rpStatus = 200, rpBody = Inr (nid, c, HitRate c)\<rparr>)"

section \<open>A node reads every committed write\<close>

lemma log_ops_append: "log_ops m ns i (a + b) = log_ops m ns i a @ log_ops m ns (i + int a) b"
proof (induction a arbitrary: i)
  case (Suc a)
  have "log_ops m ns i (Suc a + b) = (case seg_at m ns i of None \<Rightarrow> [] | Some seg \<Rightarrow> sOps seg) @ log_ops m ns (i + 1) (a + b)"
    by simp
  with Suc [of "i + 1"] show ?case by (simp add: add.assoc)
qed simp

lemma log_ops_cong:
  "(\<And>j. i \<le> j \<Longrightarrow> j < i + int n \<Longrightarrow> seg_at m' ns j = seg_at m ns j) \<Longrightarrow> log_ops m' ns i n = log_ops m ns i n"
proof (induction n arbitrary: i)
  case (Suc n)
  have "seg_at m' ns i = seg_at m ns i" using Suc.prems [of i] by simp
  moreover have "log_ops m' ns (i + 1) n = log_ops m ns (i + 1) n" by (rule Suc.IH) (use Suc.prems in simp)
  ultimately show ?case by simp
qed simp

text \<open>The log after a write: the old one, the orphans before the slot, the batch.\<close>

lemma log_after_write:
  assumes "0 \<le> w" "\<And>j. 0 \<le> j \<Longrightarrow> j < w + int k \<Longrightarrow> seg_at m' ns j = seg_at m ns j" "seg_at m' ns (w + int k) = Some seg"
  shows "log_ops m' ns 0 (nat (w + int k + 1)) = log_ops m ns 0 (nat w) @ log_ops m ns w k @ sOps seg"
proof -
  have n: "nat (w + int k + 1) = nat w + (k + 1)" using assms(1) by linarith
  have "log_ops m' ns 0 (nat w) = log_ops m ns 0 (nat w)" by (rule log_ops_cong) (use assms(1,2) in auto)
  moreover have "log_ops m' ns w k = log_ops m ns w k" by (rule log_ops_cong) (use assms(1,2) in auto)
  ultimately show ?thesis unfolding n log_ops_append using assms(1,3) by simp
qed

lemma root_log: "\<not> IsBranch m \<Longrightarrow> 0 \<le> mWALSeq m \<Longrightarrow> logical st d ns m 0 (mWALSeq m) = log_ops st ns 0 (nat (mWALSeq m))"
  by (simp add: logical.simps fork_of_def)

lemma root_view_epoch:
  assumes "\<not> IsBranch m" "mIndexEpoch m \<le> 0" "resolveReadView ns m s = (Inr v, s')"
  shows "rvIndexEpoch v \<le> 0"
proof -
  obtain r1 s1 where a: "sources_loop (maxBranchDepth + 1) ns m [] s = (r1, s1)" by fastforce
  have i: "resolveIndex ns m s1 = (Inr (ns, 0), s1)" using assms(1,2) by (simp add: resolveIndex_def)
  show ?thesis
  proof (cases r1)
    case (Inl e)
    with assms(3) a show ?thesis by (simp add: resolveReadView_def del: sources_loop.simps)
  next
    case (Inr revs)
    with assms(3) a i have "v = \<lparr>rvSources = rev revs, rvIndexNS = ns, rvIndexEpoch = 0\<rparr>"
      by (simp add: resolveReadView_def del: sources_loop.simps)
    then show ?thesis by simp
  qed
qed

lemma quiet_fair: "db_quiet s \<Longrightarrow> pinv (mem_of s) \<Longrightarrow> db_fair s"
  by (simp add: fair_def)

definition request_params :: "queryRequest \<Rightarrow> QueryParams" where
  "request_params req = \<lparr>qRankBy = \<lparr>rVector = Some (hqVector req), rText = []\<rparr>,
     qFilter = (case hqFilter req of None \<Rightarrow> no_filter | Some f \<Rightarrow> f), qTopK = hqTopK req, qNProbe = hqNProbe req\<rparr>"

lemma request_params_simps:
  "rVector (qRankBy (request_params req)) = Some (hqVector req)" "rText (qRankBy (request_params req)) = []"
  "qTopK (request_params req) = hqTopK req"
  by (simp_all add: request_params_def)

lemma handleQuery_vector:
  assumes "hqVector req \<noteq> []" "RunQuery env ns (request_params req) s = (Inr results, s')"
  shows "handleQuery env nid ns (Some req) s = (\<lparr>rpNode = nid, rpStatus = 200,
    rpBody = Inr \<lparr>hrNode = nid, hrNamespace = ns, hrCount = length results, hrResults = results\<rparr>\<rparr>, s')"
  using assms by (cases "hqFilter req") (simp_all add: handleQuery_def request_params_def Namespace_Query_def)

text \<open>
  C2. Strong consistency, end to end, on a root namespace that has not been indexed: one client's
  upsert succeeds, and a vector query that any node then answers, whatever it has cached, is 200 with
  exactly the exhaustive-search answer over the whole log with the batch at its end.  Segments that
  dead writers left before the claimed slot become part of the log with this write.
\<close>

theorem node_answers_the_last_write:
  assumes "db_quiet s" "pinv (mem_of s)" "manifest_at (mem_of s) ns = Some m" "docs \<noteq> []"
    and "validateDocs (mDimension m) docs = Inr ()" "list_all json_encodable docs" "k < maxUpsertAttempts"
    and "\<forall>j < k. \<not> slot_free (mem_of s) ns (mWALSeq m + int j)" "slot_free (mem_of s) ns (mWALSeq m + int k)"
    and "mParent m = []" "mIndexEpoch m = 0" "mIndexedUpTo m = 0"
    and "hqVector req \<noteq> []" "int (length (hqVector req)) = mDimension m"
  shows "\<exists>s'. Upsert ns docs s = (Inr (), s') \<and> (\<forall>node. sBackend node = sBackend s' \<longrightarrow>
    (\<exists>results. handleQuery env nid ns (Some req) node = (\<lparr>rpNode = nid, rpStatus = 200,
        rpBody = Inr \<lparr>hrNode = nid, hrNamespace = ns, hrCount = length results, hrResults = results\<rparr>\<rparr>, node) \<and>
      answers by_dist rDist (qFilter (request_params req)) (if hqTopK req \<le> 0 then 10 else hqTopK req)
        (ranked_live (\<lambda>d. map_option (Distance (mMetric m) (hqVector req)) (dVector d))
          (log_ops (mem_of s) ns 0 (nat (mWALSeq m)) @ log_ops (mem_of s) ns (mWALSeq m) k @ map json_doc docs)) results))"
proof -
  let ?i = "mWALSeq m + int k"
  let ?m = "bump (advance_to ?i (liveDelta docs) m)"
  let ?seg = "\<lparr>sSeq = ?i, sOps = map json_doc docs\<rparr>"
  from pinv_node [OF assms(2,3)] obtain rank where "node_ok (mem_of s) rank ns m" .
  then have pos: "0 \<le> mWALSeq m" by (simp add: node_ok_def counters_ok_def)
  from Upsert_quiet [OF assms(1-9)] obtain s' where u: "Upsert ns docs s = (Inr (), s')" "db_quiet s'"
    "manifest_at (mem_of s') ns = Some ?m" "seg_at (mem_of s') ns ?i = Some ?seg"
    and frame: "\<And>key. key = manifestKey ns \<or> key = walKey ns ?i \<or> MemStore_Get (mem_of s') key = MemStore_Get (mem_of s) key"
    by blast
  have seg: "seg_at (mem_of s') ns j = seg_at (mem_of s) ns j" if "0 \<le> j" "j < ?i" for j
    using frame [of "walKey ns j"] that walKey_inject [of j ?i ns ns] by (auto simp: seg_at_def)
  have mw: "mWALSeq ?m = ?i + 1" "\<not> IsBranch ?m" "mIndexEpoch ?m = 0" "mIndexedUpTo ?m = 0" "mDimension ?m = mDimension m" "mMetric ?m = mMetric m"
    using assms(10-12) by (simp_all add: IsBranch_def bump_def)
  have inv: "pinv (mem_of s')"
    using Upsert_fair [OF quiet_fair [OF assms(1,2)] u(1)] fair_pinv by blast
  from pinv_chain [OF inv u(3)] obtain d where "chain_ok (mem_of s') d ns ?m" .
  then have chain: "chain_ok (mem_of s') 0 ns ?m" using mw(2) by (simp add: chain_ok.simps)
  have log: "logical (mem_of s') 0 ns ?m (mIndexedUpTo ?m) (mWALSeq ?m) =
      log_ops (mem_of s) ns 0 (nat (mWALSeq m)) @ log_ops (mem_of s) ns (mWALSeq m) k @ map json_doc docs"
    using root_log [OF mw(2), where st = "mem_of s'" and d = 0 and ns = ns] log_after_write [OF pos seg u(4)] pos by (simp add: mw)
  have "\<exists>results. handleQuery env nid ns (Some req) node = (\<lparr>rpNode = nid, rpStatus = 200,
        rpBody = Inr \<lparr>hrNode = nid, hrNamespace = ns, hrCount = length results, hrResults = results\<rparr>\<rparr>, node) \<and>
      answers by_dist rDist (qFilter (request_params req)) (if hqTopK req \<le> 0 then 10 else hqTopK req)
        (ranked_live (\<lambda>d. map_option (Distance (mMetric m) (hqVector req)) (dVector d))
          (log_ops (mem_of s) ns 0 (nat (mWALSeq m)) @ log_ops (mem_of s) ns (mWALSeq m) k @ map json_doc docs)) results"
    if node: "sBackend node = sBackend s'" for node
  proof -
    have v: "\<forall>v s1. resolveReadView ns ?m node = (Inr v, s1) \<longrightarrow> rvIndexEpoch v \<le> 0"
      using root_view_epoch [OF mw(2)] mw(3) by fastforce
    have n: "db_quiet node" "manifest_at (mem_of node) ns = Some ?m" "chain_ok (mem_of node) 0 ns ?m"
      using node u(2,3) chain by simp_all
    have "int (length (hqVector req)) = mDimension ?m" using assms(14) mw(5) by simp
    from RunQuery_fresh [OF n _ v request_params_simps(1,2) this, of env] le0 [of maxBranchDepth]
    obtain results where "RunQuery env ns (request_params req) node = (Inr results, node)"
      "answers by_dist rDist (qFilter (request_params req)) (if hqTopK req \<le> 0 then 10 else hqTopK req)
        (ranked_live (\<lambda>d. map_option (Distance (mMetric ?m) (hqVector req)) (dVector d))
          (logical (mem_of s') 0 ns ?m (mIndexedUpTo ?m) (mWALSeq ?m))) results"
      unfolding request_params_simps(3) node by blast
    with handleQuery_vector [OF assms(13), of env ns node results node nid] show ?thesis unfolding log mw(6) by blast
  qed
  with u(1) show ?thesis by blast
qed

section \<open>Errors\<close>

text \<open>A namespace that does not exist is 404, and nothing has been written.\<close>

lemma handleQuery_missing:
  assumes "db_quiet s" "MemStore_Get (mem_of s) (manifestKey ns) = Inl ErrNotFound" "hqVector req \<noteq> [] \<or> hqBM25 req \<noteq> []"
  shows "handleQuery env nid ns (Some req) s = (\<lparr>rpNode = nid, rpStatus = 404, rpBody = Inl ''namespace not found''\<rparr>, s)"
  using assms by (auto simp: handleQuery_def Namespace_Query_def RunQuery_def LoadManifest_def Store_Get_quiet writeEngineError_def
      split: option.split)

text \<open>But so is any object that the engine misses: here the namespace exists and a segment of its log does not.\<close>

definition demo_request :: queryRequest where
  "demo_request = \<lparr>hqVector = [Fin 0, Fin 1], hqBM25 = [], hqTopK = 0, hqNProbe = 0, hqFilter = None\<rparr>"

definition torn_db :: db where
  "torn_db = NewWithCapacity (\<lambda>k. k) \<lparr>bstore = snd (MemStore_Put MemStore_New (manifestKey ''n'') (WManifest tail_manifest)), bevents = []\<rparr> 0"

theorem missing_segment_reads_as_missing_namespace:
  "rpStatus (fst (handleInfo ''x'' ''n'' torn_db)) = 200 \<and>
   rpBody (fst (handleQuery tail_env ''x'' ''n'' (Some demo_request) torn_db)) = Inl ''namespace not found''"
  by code_simp

section \<open>A run\<close>

definition north :: Document where
  "north = vdoc ''a'' [Fin 0, Fin 1] ''go''"

theorem node_answers_the_last_write_witness:
  "\<exists>s' r. Upsert ''n'' [north] orphan_db = (Inr (), s') \<and>
     (\<exists>results. rpBody (fst (handleQuery tail_env ''x'' ''n'' (Some demo_request) s')) = Inr r \<and> hrResults r = results \<and>
        map rID results = [''a''] \<and>
        answers by_dist rDist no_filter 10 (ranked_live (\<lambda>d. map_option (Distance ''cosine'' [Fin 0, Fin 1]) (dVector d))
          (log_ops (mem_of orphan_db) ''n'' 0 0 @ log_ops (mem_of orphan_db) ''n'' 0 1 @ map json_doc [north])) results)"
proof -
  have q: "db_quiet orphan_db" by (simp add: orphan_db_def)
  have inv: "pinv (mem_of orphan_db)"
    using psteps_pinv [OF rival_steps psteps_pinv [OF created(1) pinv_New]] by (simp add: orphan_db_def)
  have m: "manifest_at (mem_of orphan_db) ''n'' = Some (root_manifest cfg0)" by code_simp
  have v: "validateDocs (mDimension (root_manifest cfg0)) [north] = Inr ()" by code_simp
  have j: "list_all json_encodable [north]" by code_simp
  have t: "\<not> slot_free (mem_of orphan_db) ''n'' (mWALSeq (root_manifest cfg0) + int 0)"
      "slot_free (mem_of orphan_db) ''n'' (mWALSeq (root_manifest cfg0) + int 1)" by code_simp+
  have c: "mParent (root_manifest cfg0) = []" "mIndexEpoch (root_manifest cfg0) = 0" "mIndexedUpTo (root_manifest cfg0) = 0"
    "mWALSeq (root_manifest cfg0) = 0" "mMetric (root_manifest cfg0) = ''cosine''" "mDimension (root_manifest cfg0) = 2"
    by (simp_all add: root_manifest_def cfg0_def)
  have d: "hqVector demo_request = [Fin 0, Fin 1]" "hqTopK demo_request = 0" "hqFilter demo_request = None"
    by (simp_all add: demo_request_def)
  have f: "qFilter (request_params demo_request) = no_filter" by (simp add: request_params_def d(3))
  have k: "1 < maxUpsertAttempts" by (simp add: maxUpsertAttempts_def)
  have t1: "\<forall>j < 1. \<not> slot_free (mem_of orphan_db) ''n'' (mWALSeq (root_manifest cfg0) + int j)" using t(1) by simp
  have n: "[north] \<noteq> []" "[Fin 0, Fin 1] \<noteq> []" "int (length [Fin 0, Fin 1]) = 2" "nat 0 = 0" "(if (0 :: int) \<le> 0 then (10 :: int) else 0) = 10" by simp_all
  note run = node_answers_the_last_write [OF q inv m n(1) v j k t1 t(2) c(1-3), of demo_request tail_env "''x''",
      unfolded c(4-6) d(1,2) f, OF n(2,3), unfolded n(4,5)]
  from run obtain s' where
    s': "Upsert ''n'' [north] orphan_db = (Inr (), s')"
    and ans: "\<And>node. sBackend node = sBackend s' \<Longrightarrow> \<exists>results. handleQuery tail_env ''x'' ''n'' (Some demo_request) node =
        (\<lparr>rpNode = ''x'', rpStatus = 200, rpBody = Inr \<lparr>hrNode = ''x'', hrNamespace = ''n'', hrCount = length results, hrResults = results\<rparr>\<rparr>, node) \<and>
      answers by_dist rDist no_filter 10 (ranked_live (\<lambda>d. map_option (Distance ''cosine'' [Fin 0, Fin 1]) (dVector d))
        (log_ops (mem_of orphan_db) ''n'' 0 0 @ log_ops (mem_of orphan_db) ''n'' 0 1 @ map json_doc [north])) results"
    by (elim exE conjE) blast
  have s'_eq: "s' = snd (Upsert ''n'' [north] orphan_db)" using s' by simp
  have "map_sum id (\<lambda>r. map rID (hrResults r)) (rpBody (fst (handleQuery tail_env ''x'' ''n'' (Some demo_request) (snd (Upsert ''n'' [north] orphan_db))))) = Inr [''a'']"
    by code_simp
  with ans [OF refl] s' show ?thesis unfolding s'_eq [symmetric] by fastforce
qed

end
