(* ===== verification/Cli.thy ===== *)
theory Cli
  imports Server Daemon Reader
begin

text \<open>
  The command line of \<open>cmd/tpuf\<close>: the subcommands over the engine.  What comes from outside the
  repository's own logic is a parameter: the environment, files, the number parsers of \<open>strconv\<close>, the
  JSON decoders and \<open>strings.TrimSpace\<close>.  Each command opens its own store over the configured backend
  and returns what it prints; texts of errors are kept only as far as the code distinguishes them.
\<close>

section \<open>Parameters and results\<close>

record 'b cli =
  cGetenv :: environ
  cHash :: "string \<Rightarrow> string"
  cDirs :: "string \<Rightarrow> 'b ringDir"
  cParseInt :: "string \<Rightarrow> int option"
  cParseFloat32 :: "string \<Rightarrow> flt option"
  cTrimSpace :: "string \<Rightarrow> string"
  cReadFile :: "string \<Rightarrow> string option"
  cDocs :: "string \<Rightarrow> Document list option"
  cFilter :: "string \<Rightarrow> Filter option"

datatype cli_err =
    SubcommandRequired
  | UnknownSubcommand string
  | Usage usage_err
  | BadArgument string
  | ReadFailed string
  | ParseFailed string
  | OpenFailed string
  | Engine err

datatype cli_out =
    Created string int string string
  | Branched string string
  | Upserted nat string
  | Indexed string
  | Hits "QueryResult list"
  | Info_of Manifest
  | Help

section \<open>Opening the store\<close>

text \<open>A memory backend is a new store in this process; the S3 backend is the shared one.\<close>

definition openNamespace :: "wire cli \<Rightarrow> wire Backend \<Rightarrow> cli_err + db" where
  "openNamespace env shared = (case newBackend (cGetenv env) of
     Inl e \<Rightarrow> Inl (OpenFailed e)
   | Inr kind \<Rightarrow>
       (let backend = (case kind of MemoryBackend \<Rightarrow> \<lparr>bstore = MemStore_New, bevents = []\<rparr> | S3Backend st \<Rightarrow> shared) in
        case cli_newCache (cHash env) (cGetenv env) (cDirs env) backend of
          Inl e \<Rightarrow> Inl (OpenFailed ''enabling nvme cache tier'')
        | Inr store \<Rightarrow> Inr store))"

text \<open>What a command leaves: the backend it used if it is the shared one.\<close>

definition shared_after :: "wire cli \<Rightarrow> wire Backend \<Rightarrow> db \<Rightarrow> wire Backend" where
  "shared_after env shared s = (case newBackend (cGetenv env) of
     Inr (S3Backend _) \<Rightarrow> sBackend s | _ \<Rightarrow> shared)"

definition with_namespace :: "wire cli \<Rightarrow> (db \<Rightarrow> (err + 'a) \<times> db) \<Rightarrow> ('a \<Rightarrow> cli_out) \<Rightarrow> wire Backend \<Rightarrow> (cli_err + cli_out) \<times> wire Backend" where
  "with_namespace env oper report shared = (case openNamespace env shared of
     Inl e \<Rightarrow> (Inl e, shared)
   | Inr s \<Rightarrow> (case oper s of
       (Inl e, s) \<Rightarrow> (Inl (Engine e), shared_after env shared s)
     | (Inr x, s) \<Rightarrow> (Inr (report x), shared_after env shared s)))"

section \<open>Arguments\<close>

text \<open>\<open>strings.Split(s, ",")\<close>\<close>

fun split_comma :: "string \<Rightarrow> string list" where
  "split_comma [] = [[]]"
| "split_comma (c # cs) = (if c = CHR '','' then [] # split_comma cs
     else (case split_comma cs of [] \<Rightarrow> [[c]] | x # xs \<Rightarrow> (c # x) # xs))"

definition parseVector :: "wire cli \<Rightarrow> string \<Rightarrow> vec option" where
  "parseVector env s = those (map (\<lambda>p. cParseFloat32 env (cTrimSpace env p)) (split_comma s))"

record create_flags =
  fDim :: int
  fMetric :: string
  fTextField :: string

record query_flags =
  fVector :: string
  fBM25 :: string
  fTopK :: int
  fNProbe :: int
  fFilter :: string

definition create_setter :: "wire cli \<Rightarrow> string \<Rightarrow> (create_flags \<Rightarrow> string \<Rightarrow> create_flags option) option" where
  "create_setter env name =
     (if name = ''dim'' then Some (\<lambda>f v. map_option (\<lambda>n. f\<lparr>fDim := n\<rparr>) (cParseInt env v))
      else if name = ''metric'' then Some (\<lambda>f v. Some (f\<lparr>fMetric := v\<rparr>))
      else if name = ''text-field'' then Some (\<lambda>f v. Some (f\<lparr>fTextField := v\<rparr>))
      else None)"

definition file_setter :: "string \<Rightarrow> (string \<Rightarrow> string \<Rightarrow> string option) option" where
  "file_setter name = (if name = ''file'' then Some (\<lambda>f v. Some v) else None)"

definition no_setter :: "string \<Rightarrow> (unit \<Rightarrow> string \<Rightarrow> unit option) option" where
  "no_setter name = None"

definition query_setter :: "wire cli \<Rightarrow> string \<Rightarrow> (query_flags \<Rightarrow> string \<Rightarrow> query_flags option) option" where
  "query_setter env name =
     (if name = ''vector'' then Some (\<lambda>f v. Some (f\<lparr>fVector := v\<rparr>))
      else if name = ''bm25'' then Some (\<lambda>f v. Some (f\<lparr>fBM25 := v\<rparr>))
      else if name = ''top-k'' then Some (\<lambda>f v. map_option (\<lambda>n. f\<lparr>fTopK := n\<rparr>) (cParseInt env v))
      else if name = ''n-probe'' then Some (\<lambda>f v. map_option (\<lambda>n. f\<lparr>fNProbe := n\<rparr>) (cParseInt env v))
      else if name = ''filter'' then Some (\<lambda>f v. Some (f\<lparr>fFilter := v\<rparr>))
      else None)"

section \<open>Subcommands\<close>

definition runCreate :: "wire cli \<Rightarrow> string list \<Rightarrow> wire Backend \<Rightarrow> (cli_err + cli_out) \<times> wire Backend" where
  "runCreate env args be =
     (case parseNamespaceFlags (create_setter env) \<lparr>fDim = 0, fMetric = ''cosine'', fTextField = []\<rparr> args of
        Inl e \<Rightarrow> (Inl (Usage e), be)
      | Inr (name, f) \<Rightarrow>
          if fDim f \<le> 0 then (Inl (BadArgument ''dim''), be)
          else if fMetric f \<noteq> ''cosine'' \<and> fMetric f \<noteq> ''euclidean'' then (Inl (BadArgument ''metric''), be)
          else with_namespace env
            (Namespace_Create name \<lparr>cDimension = fDim f, cMetric = fMetric f, cTextField = fTextField f\<rparr>)
            (\<lambda>_. Created name (fDim f) (fMetric f) (fTextField f)) be)"

definition runBranch :: "wire cli \<Rightarrow> string list \<Rightarrow> wire Backend \<Rightarrow> (cli_err + cli_out) \<times> wire Backend" where
  "runBranch env args be = (case args of
     [parent, child] \<Rightarrow>
       if prefix ''-'' parent \<or> prefix ''-'' child then (Inl (BadArgument ''branch''), be)
       else with_namespace env (Namespace_Branch parent child) (\<lambda>_. Branched child parent) be
   | _ \<Rightarrow> (Inl (BadArgument ''branch''), be))"

definition runUpsert :: "wire cli \<Rightarrow> string list \<Rightarrow> wire Backend \<Rightarrow> (cli_err + cli_out) \<times> wire Backend" where
  "runUpsert env args be = (case parseNamespaceFlags file_setter [] args of
     Inl e \<Rightarrow> (Inl (Usage e), be)
   | Inr (name, file) \<Rightarrow>
       if file = [] then (Inl (BadArgument ''file''), be)
       else (case cReadFile env file of
         None \<Rightarrow> (Inl (ReadFailed file), be)
       | Some text \<Rightarrow> (case cDocs env text of
           None \<Rightarrow> (Inl (ParseFailed file), be)
         | Some docs \<Rightarrow> with_namespace env (Upsert name docs) (\<lambda>_. Upserted (length docs) name) be)))"

definition runIndex :: "wire cli \<Rightarrow> genv \<Rightarrow> unicode \<Rightarrow> string list \<Rightarrow> wire Backend \<Rightarrow> (cli_err + cli_out) \<times> wire Backend" where
  "runIndex env ge uc args be = (case parseNamespaceFlags no_setter () args of
     Inl e \<Rightarrow> (Inl (Usage e), be)
   | Inr (name, _) \<Rightarrow> with_namespace env (Namespace_Index ge uc name) (\<lambda>_. Indexed name) be)"

definition runQuery :: "wire cli \<Rightarrow> qenv \<Rightarrow> string list \<Rightarrow> wire Backend \<Rightarrow> (cli_err + cli_out) \<times> wire Backend" where
  "runQuery env qe args be =
     (case parseNamespaceFlags (query_setter env) \<lparr>fVector = [], fBM25 = [], fTopK = 10, fNProbe = 3, fFilter = []\<rparr> args of
        Inl e \<Rightarrow> (Inl (Usage e), be)
      | Inr (name, f) \<Rightarrow>
          if fVector f = [] \<and> fBM25 f = [] then (Inl (BadArgument ''vector or bm25''), be)
          else (case (if fVector f = [] then Some None else map_option Some (parseVector env (fVector f))) of
            None \<Rightarrow> (Inl (ParseFailed ''vector''), be)
          | Some v \<Rightarrow> (case (if fFilter f = [] then Some no_filter else cFilter env (fFilter f)) of
              None \<Rightarrow> (Inl (ParseFailed ''filter''), be)
            | Some flt \<Rightarrow> with_namespace env
                (Namespace_Query qe name \<lparr>qRankBy = \<lparr>rVector = v, rText = fBM25 f\<rparr>, qFilter = flt,
                   qTopK = fTopK f, qNProbe = fNProbe f\<rparr>) Hits be)))"

definition runInfo :: "wire cli \<Rightarrow> string list \<Rightarrow> wire Backend \<Rightarrow> (cli_err + cli_out) \<times> wire Backend" where
  "runInfo env args be = (case parseNamespaceFlags no_setter () args of
     Inl e \<Rightarrow> (Inl (Usage e), be)
   | Inr (name, _) \<Rightarrow> with_namespace env (Info name) Info_of be)"

definition cli_run :: "wire cli \<Rightarrow> genv \<Rightarrow> qenv \<Rightarrow> string list \<Rightarrow> wire Backend \<Rightarrow> (cli_err + cli_out) \<times> wire Backend" where
  "cli_run env ge qe args be = (case args of
     [] \<Rightarrow> (Inl SubcommandRequired, be)
   | cmd # rest \<Rightarrow>
       if cmd = ''create'' then runCreate env rest be
       else if cmd = ''branch'' then runBranch env rest be
       else if cmd = ''upsert'' then runUpsert env rest be
       else if cmd = ''index'' then runIndex env ge (vUnicode qe) rest be
       else if cmd = ''query'' then runQuery env qe rest be
       else if cmd = ''info'' then runInfo env rest be
       else if cmd = ''help'' \<or> cmd = ''-h'' \<or> cmd = ''--help'' then (Inr Help, be)
       else (Inl (UnknownSubcommand cmd), be))"

section \<open>Every command is a client of the protocol\<close>

lemma open_backend:
  assumes "openNamespace env be = Inr s" "fair be"
  shows "db_fair s \<and> (sBackend s = be \<or> shared_after env be s' = be)"
proof -
  obtain kind where k: "newBackend (cGetenv env) = Inr kind"
    using assms(1) by (auto simp: openNamespace_def split: sum.splits)
  let ?b = "case kind of MemoryBackend \<Rightarrow> \<lparr>bstore = MemStore_New, bevents = []\<rparr> | S3Backend st \<Rightarrow> be"
  have "fair \<lparr>bstore = MemStore_New, bevents = []\<rparr>" by (simp add: fair_def pinv_New)
  then have f: "fair ?b" using assms(2) by (simp split: backend_kind.split)
  have "cli_newCache (cHash env) (cGetenv env) (cDirs env) ?b = Inr s"
    using assms(1) k by (auto simp: openNamespace_def Let_def split: sum.splits)
  then have "sBackend s = ?b"
    by (auto simp: cli_newCache_def NewWithNVMe_def NewWithCapacity_def Store_New_def Let_def split: if_splits sum.splits)
  with f k show ?thesis by (cases kind) (simp_all add: shared_after_def)
qed

lemma with_namespace_fair:
  assumes "fair be" "with_namespace env oper report be = (r, be')"
    and "\<And>s x s'. db_fair s \<Longrightarrow> oper s = (x, s') \<Longrightarrow> psteps (mem_of s) (mem_of s') \<and> db_fair s'"
  shows "psteps (bstore be) (bstore be') \<and> fair be'"
proof (cases "openNamespace env be")
  case (Inl e)
  with assms(1,2) show ?thesis by (auto simp: with_namespace_def)
next
  case (Inr s)
  obtain x s' where x: "oper s = (x, s')" by fastforce
  with Inr assms(2) have be': "be' = shared_after env be s'" by (auto simp: with_namespace_def split: sum.splits)
  from open_backend [OF Inr assms(1)] have o: "db_fair s" "sBackend s = be \<or> shared_after env be s' = be" by blast+
  note f = assms(3) [OF o(1) x]
  show ?thesis
  proof (cases "shared_after env be s' = be")
    case False
    with o(2) have "sBackend s = be" "shared_after env be s' = sBackend s'"
      by (auto simp: shared_after_def split: sum.splits backend_kind.splits)
    with f be' show ?thesis by simp
  qed (use be' assms(1) in simp)
qed

lemma Namespace_op_fair:
  assumes "db_fair s"
  shows "Namespace_Create ns cfg s = (a, s') \<Longrightarrow> psteps (mem_of s) (mem_of s') \<and> db_fair s'"
    and "ns \<noteq> [] \<Longrightarrow> Namespace_Branch ns child s = (b, s') \<Longrightarrow> psteps (mem_of s) (mem_of s') \<and> db_fair s'"
    and "Upsert ns docs s = (c, s') \<Longrightarrow> psteps (mem_of s) (mem_of s') \<and> db_fair s'"
    and "Namespace_Index ge uc ns s = (d, s') \<Longrightarrow> psteps (mem_of s) (mem_of s') \<and> db_fair s'"
    and "Namespace_Query qe ns p s = (e, s') \<Longrightarrow> psteps (mem_of s) (mem_of s') \<and> db_fair s'"
    and "Info ns s = (f, s') \<Longrightarrow> psteps (mem_of s) (mem_of s') \<and> db_fair s'"
proof -
  show "Namespace_Create ns cfg s = (a, s') \<Longrightarrow> psteps (mem_of s) (mem_of s') \<and> db_fair s'"
    using CreateManifest_fair [OF assms] by (auto simp: Namespace_Create_def)
  show "ns \<noteq> [] \<Longrightarrow> Namespace_Branch ns child s = (b, s') \<Longrightarrow> psteps (mem_of s) (mem_of s') \<and> db_fair s'"
    using BranchFrom_fair [OF assms] by (auto simp: Namespace_Branch_def)
  show "Upsert ns docs s = (c, s') \<Longrightarrow> psteps (mem_of s) (mem_of s') \<and> db_fair s'"
    using Upsert_fair [OF assms] by blast
  show "Namespace_Index ge uc ns s = (d, s') \<Longrightarrow> psteps (mem_of s) (mem_of s') \<and> db_fair s'"
    using BuildIndex_fair [OF assms] by (auto simp: Namespace_Index_def)
  show "Namespace_Query qe ns p s = (e, s') \<Longrightarrow> psteps (mem_of s) (mem_of s') \<and> db_fair s'"
    using build_steps.run_query [of qe ns p s e s'] assms by (simp add: Namespace_Query_def fair_run_def)
  show "Info ns s = (f, s') \<Longrightarrow> psteps (mem_of s) (mem_of s') \<and> db_fair s'"
    using LoadManifest_fair [OF assms] by (auto simp: Info_def split: sum.splits prod.splits)
qed

lemmas command_fair = with_namespace_fair [OF _ _ Namespace_op_fair(1)] with_namespace_fair [OF _ _ Namespace_op_fair(2)]
  with_namespace_fair [OF _ _ Namespace_op_fair(3)] with_namespace_fair [OF _ _ Namespace_op_fair(4)]
  with_namespace_fair [OF _ _ Namespace_op_fair(5)] with_namespace_fair [OF _ _ Namespace_op_fair(6)]

lemma subcommands_fair:
  assumes "fair be"
  shows "runCreate env args be = (r, be') \<Longrightarrow> psteps (bstore be) (bstore be') \<and> fair be'"
    and "take 1 args \<noteq> [[]] \<Longrightarrow> runBranch env args be = (r, be') \<Longrightarrow> psteps (bstore be) (bstore be') \<and> fair be'"
    and "runUpsert env args be = (r, be') \<Longrightarrow> psteps (bstore be) (bstore be') \<and> fair be'"
    and "runIndex env ge uc args be = (r, be') \<Longrightarrow> psteps (bstore be) (bstore be') \<and> fair be'"
    and "runQuery env qe args be = (r, be') \<Longrightarrow> psteps (bstore be) (bstore be') \<and> fair be'"
    and "runInfo env args be = (r, be') \<Longrightarrow> psteps (bstore be) (bstore be') \<and> fair be'"
proof -
  show "runCreate env args be = (r, be') \<Longrightarrow> psteps (bstore be) (bstore be') \<and> fair be'"
    using assms by (auto simp: runCreate_def split: sum.splits if_splits dest: command_fair(1) [OF assms])
  show "take 1 args \<noteq> [[]] \<Longrightarrow> runBranch env args be = (r, be') \<Longrightarrow> psteps (bstore be) (bstore be') \<and> fair be'"
    using assms by (auto simp: runBranch_def split: list.splits if_splits dest: command_fair(2) [OF assms])
  show "runUpsert env args be = (r, be') \<Longrightarrow> psteps (bstore be) (bstore be') \<and> fair be'"
    using assms by (auto simp: runUpsert_def split: sum.splits if_splits option.splits dest: command_fair(3) [OF assms])
  show "runIndex env ge uc args be = (r, be') \<Longrightarrow> psteps (bstore be) (bstore be') \<and> fair be'"
    using assms by (auto simp: runIndex_def split: sum.splits dest: command_fair(4) [OF assms])
  show "runQuery env qe args be = (r, be') \<Longrightarrow> psteps (bstore be) (bstore be') \<and> fair be'"
    using assms by (auto simp: runQuery_def split: sum.splits if_splits option.splits dest: command_fair(5) [OF assms])
  show "runInfo env args be = (r, be') \<Longrightarrow> psteps (bstore be) (bstore be') \<and> fair be'"
    using assms by (auto simp: runInfo_def split: sum.splits dest: command_fair(6) [OF assms])
qed

lemma if_eqE: "(if P then a else b) = c \<Longrightarrow> (P \<Longrightarrow> a = c \<Longrightarrow> Q) \<Longrightarrow> (\<not> P \<Longrightarrow> b = c \<Longrightarrow> Q) \<Longrightarrow> Q"
  by (cases P) auto

text \<open>
  A branch of the namespace with the empty name would be taken for a root (its parent's name marks a
  branch): \<open>proper\<close> rules that one command line out.
\<close>

definition proper :: "string list \<Rightarrow> bool" where
  "proper args \<longleftrightarrow> take 2 args \<noteq> [''branch'', []]"

lemma cli_run_fair:
  assumes "fair be" "cli_run env ge qe args be = (r, be')" "proper args"
  shows "psteps (bstore be) (bstore be') \<and> fair be'"
proof (cases args)
  case Nil
  with assms(1,2) show ?thesis by (simp add: cli_run_def)
next
  case (Cons cmd rest)
  have same: "(x, be) = (r, be') \<Longrightarrow> psteps (bstore be) (bstore be') \<and> fair be'" for x using assms(1) by auto
  have p: "take 1 rest \<noteq> [[]]" if "cmd = ''branch''" using assms(3) that Cons by (simp add: proper_def take_Suc numeral_2_eq_2)
  note sub = subcommands_fair [OF assms(1)]
  from assms(2) show ?thesis
    unfolding cli_run_def Cons list.case
    by (elim if_eqE) (erule sub(1), rule sub(2) [OF p], assumption, assumption, erule sub(3), erule sub(4), erule sub(5),
      erule sub(6), erule same, erule same)
qed

text \<open>A session: one command after the other, each a process of its own, on one bucket.\<close>

fun session :: "wire cli \<Rightarrow> genv \<Rightarrow> qenv \<Rightarrow> string list list \<Rightarrow> wire Backend \<Rightarrow> wire Backend" where
  "session env ge qe [] be = be"
| "session env ge qe (args # rest) be = session env ge qe rest (snd (cli_run env ge qe args be))"

lemma session_fair: "fair be \<Longrightarrow> list_all proper cmds \<Longrightarrow> psteps (bstore be) (bstore (session env ge qe cmds be)) \<and> fair (session env ge qe cmds be)"
proof (induction cmds arbitrary: be)
  case (Cons args cmds)
  have p: "proper args" "list_all proper cmds" using Cons.prems(2) by simp_all
  note f = cli_run_fair [OF Cons.prems(1) prod.collapse [symmetric] p(1), of env ge qe]
  with Cons.IH [OF _ p(2)] show ?case unfolding session.simps by (blast intro: rtranclp_trans)
qed simp

text \<open>
  C15. Whatever commands are run on a bucket, in whatever order (but \<open>branch\<close> of the empty name), with other clients at work between
  their requests and requests lost on the way: what was advertised before stays advertised, every
  segment that a manifest advertises exists, and every parent chain can be read to its root.
\<close>

theorem session_keeps_every_log:
  assumes "fair be" "list_all proper cmds" "manifest_at (bstore (session env ge qe cmds be)) ns = Some m"
  shows "psteps (bstore be) (bstore (session env ge qe cmds be)) \<and>
    has_segs (bstore (session env ge qe cmds be)) ns (fork_of m) (mWALSeq m) \<and> counters_ok m \<and>
    (\<exists>d. chain_ok (bstore (session env ge qe cmds be)) d ns m)"
proof -
  note f = session_fair [OF assms(1,2), of env ge qe]
  then have inv: "pinv (bstore (session env ge qe cmds be))" by (simp add: fair_def)
  from pinv_chain [OF inv assms(3)] obtain d where d: "chain_ok (bstore (session env ge qe cmds be)) d ns m" .
  from pinv_node [OF inv assms(3)] obtain rank where "node_ok (bstore (session env ge qe cmds be)) rank ns m" .
  with f d show ?thesis by (auto simp: node_ok_def)
qed

section \<open>A session on an empty bucket\<close>

definition demo_cli :: "wire cli" where
  "demo_cli = \<lparr>cGetenv = (\<lambda>k. if k = ''TPUF_S3_REGION'' \<or> k = ''TPUF_BACKEND'' \<or> k = ''TPUF_NVME_DIR'' then [] else ''x''),
     cHash = id, cDirs = (\<lambda>_. emptyDir []), cParseInt = Atoi, cParseFloat32 = (\<lambda>s. map_option of_int64 (Atoi s)),
     cTrimSpace = id, cReadFile = (\<lambda>f. Some f), cDocs = (\<lambda>t. Some [vdoc t [Fin 0, Fin 1] ''go'']),
     cFilter = (\<lambda>_. None)\<rparr>"

definition empty_bucket :: "wire Backend" where
  "empty_bucket = \<lparr>bstore = MemStore_New, bevents = []\<rparr>"

definition demo_session :: "wire Backend" where
  "demo_session = session demo_cli demo_env tail_env
     [[''create'', ''n'', ''--dim'', ''2'', ''-metric=euclidean''], [''upsert'', ''n'', ''--file'', ''a''],
      [''branch'', ''n'', ''m''], [''upsert'', ''m'', ''--file'', ''b'']] empty_bucket"

theorem session_keeps_every_log_witness:
  "\<exists>m d. manifest_at (bstore demo_session) ''m'' = Some m \<and> fork_of m = 1 \<and> mWALSeq m = 2 \<and>
     has_segs (bstore demo_session) ''m'' 1 2 \<and> chain_ok (bstore demo_session) d ''m'' m"
proof -
  have "map_option (\<lambda>m. (fork_of m, mWALSeq m)) (manifest_at (bstore demo_session) ''m'') = Some (1, 2)" by code_simp
  then obtain m where m: "manifest_at (bstore demo_session) ''m'' = Some m" "fork_of m = 1" "mWALSeq m = 2" by auto
  have "fair empty_bucket" by (simp add: fair_def pinv_New empty_bucket_def)
  from session_keeps_every_log [OF this _ m(1) [unfolded demo_session_def]] m show ?thesis
    unfolding demo_session_def by (auto simp: proper_def)
qed

text \<open>
  The command line that is ruled out: the namespace with the empty name is created and written, its
  branch is advertised as a root that holds a segment, but no such segment exists, and no query of the
  branch succeeds.
\<close>

theorem branch_of_the_empty_name_is_torn:
  "(let be = session demo_cli demo_env tail_env [[''create'', [], ''--dim'', ''2''], [''upsert'', [], ''--file'', ''a''], [''branch'', [], ''m'']] empty_bucket in
    map_option (\<lambda>m. (IsBranch m, mWALSeq m)) (manifest_at (bstore be) ''m'') = Some (False, 1) \<and>
    seg_at (bstore be) ''m'' 0 = None \<and>
    fst (runQuery demo_cli tail_env [''m'', ''--vector'', ''0,1''] be) = Inl (Engine (StoreErr ErrNotFound)))"
  by code_simp

text \<open>The whole way: the branch answers a query with its parent's document and its own.\<close>

theorem demo_query:
  "(case runQuery demo_cli tail_env [''m'', ''--vector'', ''0,1''] demo_session of
     (Inr (Hits rs), _) \<Rightarrow> map rID rs = [''a'', ''b''] | _ \<Rightarrow> False)"
  by code_simp

end
