(* ===== verification/Hazards.thy ===== *)
theory Hazards
  imports Cli
begin

text \<open>
  Runs that show what the promises of the code do not cover: two builds of one namespace at a time.  Each
  build numbers its epoch from the manifest it loaded and overwrites the objects of that epoch, so the
  keys that the cache takes to be written once can be written twice, and the published position can
  go back.
\<close>

section \<open>Two builds at once\<close>

definition note_doc :: "string \<Rightarrow> Document" where
  "note_doc i = \<lparr>dID = i, dVector = None, dAttributes = [(''body'', AStr ''go'')], dDeleted = False\<rparr>"

definition on_store :: "wire MemStore \<Rightarrow> wire event list \<Rightarrow> db" where
  "on_store m es = NewWithCapacity (\<lambda>k. k) \<lparr>bstore = m, bevents = es\<rparr> 0"

definition upserted :: "string \<Rightarrow> wire MemStore \<Rightarrow> wire MemStore" where
  "upserted i m = mem_of (snd (Upsert ''n'' [note_doc i] (on_store m [])))"

text \<open>A text namespace with one document.\<close>

definition one_note :: "wire MemStore" where
  "one_note = upserted ''a'' (mem_of (snd (CreateManifest ''n'' \<lparr>cDimension = 2, cMetric = ''cosine'', cTextField = ''body''\<rparr> (on_store MemStore_New []))))"

text \<open>
  The first build takes its snapshot; then a second document is written.  The second build loads the
  manifest before the first one publishes, and finishes after it.
\<close>

definition first_build :: "wire MemStore" where
  "first_build = mem_of (snd (BuildIndex demo_env ascii ''n'' (on_store one_note [Event id Served, Event (upserted ''b'') Served])))"

definition second_build :: "wire MemStore" where
  "second_build = mem_of (snd (BuildIndex demo_env ascii ''n'' (on_store (upserted ''b'' one_note) [Event id Served, Event (\<lambda>_. first_build) Served])))"

text \<open>The store after the first build; as a code equation, so that it is evaluated once.\<close>

lemma first_build_code [code]: "first_build = \<lparr>objs =
    [(''n/manifest.json'',
      \<lparr>obj_body =
         WManifest
          \<lparr>mVersion = 4, mDimension = 2, mMetric = ''cosine'',
             mTextField = ''body'', mWALSeq = 2, mIndexedUpTo = 1,
             mIndexEpoch = 1, mDocCount = 1, mParent = [], mForkWALSeq = 0,
             mForkIndexEpoch = 0\<rparr>,
         obj_etag = ''9''\<rparr>),
     (''n/wal/00000000000000000000.json'',
      \<lparr>obj_body =
         WSegment
          \<lparr>sSeq = 0,
             sOps =
               [\<lparr>dID = ''a'', dVector = None,
                   dAttributes = [(''body'', AStr ''go'')],
                   dDeleted = False\<rparr>]\<rparr>,
         obj_etag = ''2''\<rparr>),
     (''n/wal/00000000000000000001.json'',
      \<lparr>obj_body =
         WSegment
          \<lparr>sSeq = 1,
             sOps =
               [\<lparr>dID = ''b'', dVector = None,
                   dAttributes = [(''body'', AStr ''go'')],
                   dDeleted = False\<rparr>]\<rparr>,
         obj_etag = ''4''\<rparr>),
     (''n/index/v1/bm25.json'',
      \<lparr>obj_body =
         WBM25
          \<lparr>bN = 1, bAvgDL = Fin 1,
             bDocLen = [(''a'', 1)],
             bIndex = [(''go'', [\<lparr>pID = ''a'', pTF = 1\<rparr>])]\<rparr>,
         obj_etag = ''6''\<rparr>),
     (''n/index/v1/bitmaps.json'',
      \<lparr>obj_body =
         WAttrs \<lparr>aOrds = [''a''], aClusterOf = [- 1], aValues = []\<rparr>,
         obj_etag = ''7''\<rparr>),
     (''n/index/v1/docs.json'',
      \<lparr>obj_body = WDocs \<lparr>dfDocs = [(''a'', [(''body'', AStr ''go'')])]\<rparr>,
         obj_etag = ''8''\<rparr>)],
    etagSeq = 9\<rparr>"
  unfolding first_build_def by code_simp

text \<open>
  Both builds succeed and publish epoch 1, the second up to position 2.  A node that has read the index
  in between goes on with what it cached, which is the index of \<open>a\<close> alone: \<open>b\<close>, committed and indexed, is
  for it neither in the index nor in the tail.  A node with an empty cache reads both.
\<close>

definition indexed_ids :: "db \<Rightarrow> err + string list" where
  "indexed_ids s = map_sum id (\<lambda>(idx, docs). map fst docs) (fst (loadBM25Epoch ''n'' 1 s))"

definition warm_node :: db where
  "warm_node = snd (loadBM25Epoch ''n'' 1 (on_store first_build []))"

lemma first_build_position:
  "map_option (\<lambda>m. (mIndexEpoch m, mIndexedUpTo m)) (manifest_at first_build ''n'') = Some (1, 1)"
  by code_simp

lemma second_build_position:
  "map_option (\<lambda>m. (mIndexEpoch m, mIndexedUpTo m)) (manifest_at second_build ''n'') = Some (1, 2)"
  by code_simp

theorem concurrent_builds_lose_a_document:
  "indexed_ids (warm_node\<lparr>sBackend := \<lparr>bstore = second_build, bevents = []\<rparr>\<rparr>) = Inr [''a''] \<and>
   indexed_ids (on_store second_build []) = Inr [''a'', ''b'']"
  by code_simp

text \<open>In the other order the published position goes back: the older snapshot is published last.\<close>

definition late_build :: "wire MemStore" where
  "late_build = mem_of (snd (BuildIndex demo_env ascii ''n'' (on_store one_note [Event id Served,
     Event (\<lambda>m. mem_of (snd (BuildIndex demo_env ascii ''n'' (on_store (upserted ''b'' m) [])))) Served])))"

theorem published_position_goes_back:
  "map_option (\<lambda>m. (mIndexEpoch m, mIndexedUpTo m))
     (manifest_at (mem_of (snd (BuildIndex demo_env ascii ''n'' (on_store (upserted ''b'' one_note) [])))) ''n'') = Some (1, 2) \<and>
   map_option (\<lambda>m. (mIndexEpoch m, mIndexedUpTo m)) (manifest_at late_build ''n'') = Some (1, 1)"
  by code_simp

end
