(* ===== verification/Workload.thy ===== *)
theory Workload
  imports Bench Server
begin

text \<open>
  The benchmark program \<open>cmd/tpuf-bench\<close>: its configuration checks, the synthetic data, and the experiments
  as programs over the engine, the recorder and the clock.  What an experiment prints is the report that it
  returns; the goroutines of the multi-tenant load and of the group-commit demo, the dashboard and the
  rendering of tables are not modelled, the split of the queries over the workers is.
\<close>

section \<open>Configuration\<close>

record config =
  bcBackend :: string
  bcNamespace :: string
  bcDim :: int
  bcMetric :: string
  bcTextField :: string
  bcDocs :: int
  bcBatch :: int
  bcQueries :: int
  bcWarmup :: int
  bcTopK :: int
  bcNProbe :: int
  bcSeed :: int
  bcNamespaces :: int
  bcConcurrency :: int
  bcCacheObj :: int
  bcNvmeDir :: string
  bcNvmeSlots :: int
  bcColdTrials :: int
  bcHybrid :: bool
  bcGroupCommit :: bool
  bcFilterPlan :: bool
  bcRabitq :: bool

definition nvmeEnabled :: "config \<Rightarrow> bool" where
  "nvmeEnabled c \<longleftrightarrow> bcNvmeDir c \<noteq> []"

text \<open>The first check that fails names its field.\<close>

definition config_validate :: "config \<Rightarrow> string option" where
  "config_validate c =
     (if bcBackend c \<noteq> ''memory'' \<and> bcBackend c \<noteq> ''s3'' then Some ''backend''
      else if bcDim c \<le> 0 then Some ''dim''
      else if bcDocs c \<le> 0 then Some ''docs''
      else if bcBatch c \<le> 0 then Some ''batch''
      else if bcQueries c \<le> 0 then Some ''queries''
      else if bcWarmup c < 0 then Some ''warmup''
      else if bcTopK c \<le> 0 then Some ''top-k''
      else if bcNamespaces c < 1 then Some ''namespaces''
      else if bcConcurrency c < 1 then Some ''concurrency''
      else if bcCacheObj c < 0 then Some ''cache-objects''
      else if nvmeEnabled c \<and> bcNvmeSlots c \<le> 0 then Some ''nvme-slots''
      else if bcColdTrials c < 0 then Some ''coldstart-trials''
      else None)"

text \<open>The experiment that \<open>run\<close> picks: flags first, then the modes.\<close>

datatype bench_mode = GroupCommit | FilterPlan | HybridRecall | RaBitQRecall | ColdStart | MultiTenant | Single

definition run_choice :: "config \<Rightarrow> string + bench_mode" where
  "run_choice c = (case config_validate c of Some bad \<Rightarrow> Inl bad | None \<Rightarrow> Inr
     (if bcGroupCommit c then GroupCommit
      else if bcFilterPlan c then FilterPlan
      else if bcHybrid c then HybridRecall
      else if bcRabitq c then RaBitQRecall
      else if bcColdTrials c > 0 then ColdStart
      else if bcNamespaces c > 1 then MultiTenant
      else Single))"

section \<open>Synthetic data\<close>

text \<open>\<open>rng.Float32\<close> rounds a 64-bit draw and draws again when that gives one.\<close>

fun float32_from :: "flt list \<Rightarrow> flt \<times> flt list" where
  "float32_from [] = (Fin 0, [])"
| "float32_from (x # xs) = (let f = to_fmt F32 x in if flt_eq f (Fin 1) then float32_from xs else (f, xs))"

definition Float32 :: "rng \<Rightarrow> flt \<times> rng" where
  "Float32 g = (case float32_from (gFloats g) of (f, xs) \<Rightarrow> (f, g\<lparr>gFloats := xs\<rparr>))"

text \<open>\<open>draws n d g\<close>: the loop that fills a slice of length \<open>n\<close> by \<open>d\<close>.\<close>

fun draws :: "nat \<Rightarrow> (rng \<Rightarrow> 'a \<times> rng) \<Rightarrow> rng \<Rightarrow> 'a list \<times> rng" where
  "draws 0 d g = ([], g)"
| "draws (Suc n) d g = (case d g of (x, g) \<Rightarrow> (case draws n d g of (xs, g) \<Rightarrow> (x # xs, g)))"

definition vocab :: "string list" where
  "vocab = [''walrus'', ''quick'', ''ice'', ''storage'', ''object'', ''vector'', ''search'', ''index'',
     ''latency'', ''cache'', ''cluster'', ''query'', ''engine'', ''durable'', ''manifest'',
     ''epoch'', ''segment'', ''tail'', ''probe'', ''centroid'']"

definition draw_word :: "rng \<Rightarrow> string \<times> rng" where
  "draw_word g = (case Intn (length vocab) g of (i, g) \<Rightarrow> (vocab ! i, g))"

definition filler :: "nat \<Rightarrow> rng \<Rightarrow> string \<times> rng" where
  "filler n g = (case draws n draw_word g of (ws, g) \<Rightarrow> (strings_Join ws '' '', g))"

definition make_doc :: "nat \<Rightarrow> string \<Rightarrow> nat \<Rightarrow> rng \<Rightarrow> Document \<times> rng" where
  "make_doc dimn textField i g =
     (case draws dimn Float32 g of (v, g) \<Rightarrow>
       (let ats = [(''lang'', AStr ''en'')] in
        case (if textField = [] then (ats, g)
              else (case draws 8 draw_word g of (ws, g) \<Rightarrow> (AList.update textField (AStr (strings_Join ws '' '')) ats, g)))
          of (ats, g) \<Rightarrow> (\<lparr>dID = ''doc-'' @ FormatInt (int i), dVector = Some v, dAttributes = ats, dDeleted = False\<rparr>, g)))"

fun docs_from :: "nat \<Rightarrow> nat \<Rightarrow> nat \<Rightarrow> string \<Rightarrow> rng \<Rightarrow> Document list \<times> rng" where
  "docs_from i 0 dimn textField g = ([], g)"
| "docs_from i (Suc n) dimn textField g = (case make_doc dimn textField i g of (d, g) \<Rightarrow>
     (case docs_from (Suc i) n dimn textField g of (ds, g) \<Rightarrow> (d # ds, g)))"

definition makeDocs :: "nat \<Rightarrow> nat \<Rightarrow> string \<Rightarrow> rng \<Rightarrow> Document list \<times> rng" where
  "makeDocs n dimn textField g = docs_from 0 n dimn textField g"

definition makeQueryVectors :: "nat \<Rightarrow> nat \<Rightarrow> rng \<Rightarrow> vec list \<times> rng" where
  "makeQueryVectors n dimn g = draws n (draws dimn Float32) g"

definition makeQueryTexts :: "nat \<Rightarrow> rng \<Rightarrow> string list \<times> rng" where
  "makeQueryTexts n g = draws n (\<lambda>g. case draw_word g of (a, g) \<Rightarrow> (case draw_word g of (b, g) \<Rightarrow> (a @ '' '' @ b, g))) g"

definition gaussVec :: "nat \<Rightarrow> rng \<Rightarrow> vec \<times> rng" where
  "gaussVec dimn g = draws dimn (\<lambda>g. case NormFloat64 g of (x, g) \<Rightarrow> (to_fmt F32 x, g)) g"

fun jitter_from :: "vec \<Rightarrow> flt \<Rightarrow> rng \<Rightarrow> vec \<times> rng" where
  "jitter_from [] mag g = ([], g)"
| "jitter_from (x # v) mag g = (case Float32 g of (f, g) \<Rightarrow>
     (case jitter_from v mag g of (out, g) \<Rightarrow>
       (fadd F32 x (fmul F32 (fsub F32 (fmul F32 f (Fin 2)) (Fin 1)) mag) # out, g)))"

text \<open>\<open>None\<close>: an index out of range, when the dimension exceeds the length of the vector.\<close>

definition jitter :: "vec \<Rightarrow> nat \<Rightarrow> flt \<Rightarrow> rng \<Rightarrow> (vec \<times> rng) option" where
  "jitter v dimn mag g = (if dimn \<le> length v then Some (jitter_from (take dimn v) mag g) else None)"

record hybridLabel =
  hlVector :: vec
  hlText :: string
  hlAnswer :: string

text \<open>The three documents of one query, and its label.  The vectors drawn have the dimension: no jitter fails.\<close>

definition hybrid_query :: "nat \<Rightarrow> string \<Rightarrow> nat \<Rightarrow> rng \<Rightarrow> (Document list \<times> hybridLabel) \<times> rng" where
  "hybrid_query dimn textField q g =
     (let n = FormatInt (int q); t1 = ''qterm'' @ n @ ''a''; t2 = ''qterm'' @ n @ ''b'';
          queryText = t1 @ '' '' @ t2;
          doc = (\<lambda>name v t. \<lparr>dID = name @ n, dVector = Some v, dAttributes = [(textField, AStr t)], dDeleted = False\<rparr>) in
      case draws dimn Float32 g of (base, g) \<Rightarrow>
      (case jitter_from base (fround F32 (15 / 100)) g of (answerVec, g) \<Rightarrow>
      (case filler 6 g of (f6, g) \<Rightarrow>
      (case jitter_from base (fround F32 (2 / 100)) g of (vdecoyVec, g) \<Rightarrow>
      (case filler 8 g of (vdecoyText, g) \<Rightarrow>
      (case draws dimn Float32 g of (tdecoyVec, g) \<Rightarrow>
        (([doc ''answer-'' answerVec (strings_Join [t1, f6] '' ''), doc ''vdecoy-'' vdecoyVec vdecoyText,
           doc ''tdecoy-'' tdecoyVec (strings_Join [t1, t2, t1, t2] '' '')],
          \<lparr>hlVector = base, hlText = queryText, hlAnswer = ''answer-'' @ n\<rparr>), g)))))))"

fun hybrid_from :: "nat \<Rightarrow> nat \<Rightarrow> nat \<Rightarrow> string \<Rightarrow> rng \<Rightarrow> (Document list \<times> hybridLabel list) \<times> rng" where
  "hybrid_from q 0 dimn textField g = (([], []), g)"
| "hybrid_from q (Suc n) dimn textField g = (case hybrid_query dimn textField q g of ((ds, l), g) \<Rightarrow>
     (case hybrid_from (Suc q) n dimn textField g of ((ds', ls), g) \<Rightarrow> ((ds @ ds', l # ls), g)))"

definition makeLabeledHybridSet :: "config \<Rightarrow> rng \<Rightarrow> (Document list \<times> hybridLabel list) \<times> rng" where
  "makeLabeledHybridSet cfg g = hybrid_from 0 (nat (bcQueries cfg)) (nat (bcDim cfg)) (bcTextField cfg) g"

section \<open>Programs\<close>

text \<open>
  A program runs on the clock and the store and stops at the first error.  \<open>andThen\<close> is \<open>if err != nil {
  return }\<close>, \<open>timed\<close> runs an operation under the recorder.
\<close>

type_synonym 'a prog = "clock \<times> db \<Rightarrow> (err + 'a) \<times> clock \<times> db"

definition andThen :: "'a prog \<Rightarrow> ('a \<Rightarrow> 'b prog) \<Rightarrow> 'b prog" where
  "andThen p k w = (case p w of (Inl e, w) \<Rightarrow> (Inl e, w) | (Inr x, w) \<Rightarrow> k x w)"

definition give :: "'a \<Rightarrow> 'a prog" where
  "give x w = (Inr x, w)"

definition oper :: "(db \<Rightarrow> (err + 'a) \<times> db) \<Rightarrow> 'a prog" where
  "oper f w = (case w of (clk, s) \<Rightarrow> (case f s of (r, s) \<Rightarrow> (r, clk, s)))"

definition stats_now :: "CacheStats prog" where
  "stats_now w = (Inr (Store_Stats (snd w)), w)"

definition timed :: "Recorder \<Rightarrow> (db \<Rightarrow> (err + 'a) \<times> db) \<Rightarrow> Recorder prog" where
  "timed rc f w = (case w of (clk, s) \<Rightarrow> (case Time rc f clk s of
     (Inl e, rc, clk, s) \<Rightarrow> (Inl e, clk, s) | (Inr _, rc, clk, s) \<Rightarrow> (Inr rc, clk, s)))"

fun each :: "('a \<Rightarrow> unit prog) \<Rightarrow> 'a list \<Rightarrow> unit prog" where
  "each f [] = give ()"
| "each f (x # xs) = andThen (f x) (\<lambda>_. each f xs)"

fun each_timed :: "('a \<Rightarrow> db \<Rightarrow> (err + 'b) \<times> db) \<Rightarrow> 'a list \<Rightarrow> Recorder \<Rightarrow> Recorder prog" where
  "each_timed f [] rc = give rc"
| "each_timed f (x # xs) rc = andThen (timed rc (f x)) (each_timed f xs)"

text \<open>\<open>for start := 0; start < len(docs); start += batch\<close>\<close>

function batches :: "nat \<Rightarrow> 'a list \<Rightarrow> 'a list list" where
  "batches n xs = (if xs = [] \<or> n = 0 then [] else take n xs # batches n (drop n xs))"
  by pat_completeness auto
termination by (relation "measure (\<lambda>(n, xs). length xs)") auto

declare batches.simps [simp del]

definition vectorQuery :: "qenv \<Rightarrow> config \<Rightarrow> string \<Rightarrow> vec \<Rightarrow> db \<Rightarrow> (err + QueryResult list) \<times> db" where
  "vectorQuery qe cfg name v = Namespace_Query qe name \<lparr>qRankBy = \<lparr>rVector = Some v, rText = []\<rparr>,
     qFilter = Filter [] [] ANil [], qTopK = bcTopK cfg, qNProbe = bcNProbe cfg\<rparr>"

definition textQuery :: "qenv \<Rightarrow> config \<Rightarrow> string \<Rightarrow> string \<Rightarrow> db \<Rightarrow> (err + QueryResult list) \<times> db" where
  "textQuery qe cfg name t = Namespace_Query qe name \<lparr>qRankBy = \<lparr>rVector = None, rText = t\<rparr>,
     qFilter = Filter [] [] ANil [], qTopK = bcTopK cfg, qNProbe = 0\<rparr>"

definition quietly :: "('a \<Rightarrow> db \<Rightarrow> (err + 'b) \<times> db) \<Rightarrow> 'a \<Rightarrow> unit prog" where
  "quietly f x = andThen (oper (f x)) (\<lambda>_. give ())"

definition warmVector :: "qenv \<Rightarrow> config \<Rightarrow> string \<Rightarrow> vec list \<Rightarrow> unit prog" where
  "warmVector qe cfg name = each (quietly (vectorQuery qe cfg name))"

definition warmText :: "qenv \<Rightarrow> config \<Rightarrow> string \<Rightarrow> string list \<Rightarrow> unit prog" where
  "warmText qe cfg name = each (quietly (textQuery qe cfg name))"

definition measureVector :: "qenv \<Rightarrow> config \<Rightarrow> string \<Rightarrow> vec list \<Rightarrow> Recorder \<Rightarrow> Recorder prog" where
  "measureVector qe cfg name = each_timed (vectorQuery qe cfg name)"

definition measureText :: "qenv \<Rightarrow> config \<Rightarrow> string \<Rightarrow> string list \<Rightarrow> Recorder \<Rightarrow> Recorder prog" where
  "measureText qe cfg name = each_timed (textQuery qe cfg name)"

text \<open>The set-up that the experiments share: upsert in batches, then index.\<close>

definition load_batches :: "config \<Rightarrow> Document list \<Rightarrow> unit prog" where
  "load_batches cfg docs = each (\<lambda>b. oper (Upsert (bcNamespace cfg) b)) (batches (nat (bcBatch cfg)) docs)"

definition load_index :: "genv \<Rightarrow> unicode \<Rightarrow> config \<Rightarrow> Document list \<Rightarrow> unit prog" where
  "load_index ge uc cfg docs =
     andThen (load_batches cfg docs) (\<lambda>_. oper (Namespace_Index ge uc (bcNamespace cfg)))"

definition create_ns :: "config \<Rightarrow> string \<Rightarrow> unit prog" where
  "create_ns cfg textField = oper (Namespace_Create (bcNamespace cfg)
     \<lparr>cDimension = bcDim cfg, cMetric = bcMetric cfg, cTextField = textField\<rparr>)"

text \<open>\<open>min(a, len(xs))\<close> as a slice bound.\<close>

definition first_n :: "int \<Rightarrow> 'a list \<Rightarrow> 'a list" where
  "first_n n xs = take (nat n) xs"

section \<open>One namespace: unindexed, then indexed\<close>

record single_report =
  srRecorders :: "Recorder list"
  srManifest :: Manifest
  srVecCold :: CacheStats
  srVecHot :: CacheStats
  srTextCold :: CacheStats
  srTextHot :: CacheStats

definition no_stats :: CacheStats where
  "no_stats = \<lparr>csHits = 0, csDRAMHits = 0, csNVMeHits = 0, csMisses = 0, csEvictions = 0\<rparr>"

text \<open>The text phases are skipped without a text field.\<close>

definition text_phase :: "config \<Rightarrow> Recorder \<Rightarrow> Recorder prog \<Rightarrow> Recorder prog" where
  "text_phase cfg rc p = (if bcTextField cfg \<noteq> [] then p else give rc)"

definition runSingle :: "qenv \<Rightarrow> genv \<Rightarrow> config \<Rightarrow> single_report prog" where
  "runSingle qe ge cfg =
     (let name = bcNamespace cfg; g = vSource qe (bcSeed cfg) in
      andThen (create_ns cfg (bcTextField cfg)) (\<lambda>_.
      case makeDocs (nat (bcDocs cfg)) (nat (bcDim cfg)) (bcTextField cfg) g of (docs, g) \<Rightarrow>
      case makeQueryVectors (nat (bcQueries cfg)) (nat (bcDim cfg)) g of (vecs, g) \<Rightarrow>
      case makeQueryTexts (nat (bcQueries cfg)) g of (texts, g) \<Rightarrow>
      let warmVecs = first_n (bcWarmup cfg) vecs; warmTexts = first_n (bcWarmup cfg) texts in
      andThen (each_timed (\<lambda>b. Upsert name b) (batches (nat (bcBatch cfg)) docs) (NewRecorder ''upsert (batch)'')) (\<lambda>upsertRec.
      andThen (warmVector qe cfg name warmVecs) (\<lambda>_.
      andThen (measureVector qe cfg name vecs (NewRecorder ''query-vec (tail scan)'')) (\<lambda>vecTail.
      andThen (text_phase cfg (NewRecorder ''query-bm25 (tail scan)'')
        (andThen (warmText qe cfg name warmTexts) (\<lambda>_. measureText qe cfg name texts (NewRecorder ''query-bm25 (tail scan)'')))) (\<lambda>bm25Tail.
      andThen (timed (NewRecorder ''index (build)'') (Namespace_Index ge (vUnicode qe) name)) (\<lambda>indexRec.
      andThen stats_now (\<lambda>s0.
      andThen (warmVector qe cfg name warmVecs) (\<lambda>_.
      andThen stats_now (\<lambda>s1.
      andThen (measureVector qe cfg name vecs (NewRecorder ''query-vec (indexed)'')) (\<lambda>vecIdx.
      andThen stats_now (\<lambda>s2.
      andThen (if bcTextField cfg = [] then give (NewRecorder ''query-bm25 (indexed)'', no_stats, no_stats)
        else andThen stats_now (\<lambda>t0. andThen (warmText qe cfg name warmTexts) (\<lambda>_.
          andThen stats_now (\<lambda>t1. andThen (measureText qe cfg name texts (NewRecorder ''query-bm25 (indexed)'')) (\<lambda>rc.
          andThen stats_now (\<lambda>t2. give (rc, Stats_Sub t1 t0, Stats_Sub t2 t1))))))) (\<lambda>(bm25Idx, tCold, tHot).
      andThen (oper (Info name)) (\<lambda>m.
        give \<lparr>srRecorders = [upsertRec, vecTail, bm25Tail, indexRec, vecIdx, bm25Idx], srManifest = m,
          srVecCold = Stats_Sub s1 s0, srVecHot = Stats_Sub s2 s1, srTextCold = tCold, srTextHot = tHot\<rparr>))))))))))))))"

section \<open>Cold and hot\<close>

text \<open>The world of the experiment: the clock, the backend, and the directories of the rings.\<close>

record world =
  wClock :: clock
  wBackend :: "wire Backend"
  wDirs :: "string \<Rightarrow> wire ringDir"

definition newCacheStore :: "(string \<Rightarrow> string) \<Rightarrow> config \<Rightarrow> int \<Rightarrow> string \<Rightarrow> world \<Rightarrow> ring_err + db" where
  "newCacheStore h cfg dramCap subdir w =
     (if \<not> nvmeEnabled cfg then Inr (NewWithCapacity h (wBackend w) dramCap)
      else NewWithNVMe h (wBackend w) dramCap (wDirs w (bcNvmeDir cfg @ ''/'' @ subdir)) (bcNvmeSlots cfg))"

text \<open>What a store leaves behind: its backend, and on disk the directory of its ring.\<close>

definition leave :: "config \<Rightarrow> string \<Rightarrow> clock \<Rightarrow> db \<Rightarrow> world \<Rightarrow> world" where
  "leave cfg subdir clk s w = w\<lparr>wClock := clk, wBackend := sBackend s,
     wDirs := (case sDisk s of None \<Rightarrow> wDirs w | Some ring \<Rightarrow> (wDirs w)(bcNvmeDir cfg @ ''/'' @ subdir := rDir ring))\<rparr>"

record coldHotResult =
  coldMiss :: "64 word"
  warmNVMe :: "64 word"
  warmMiss :: "64 word"
  hotMiss :: "64 word"

type_synonym recorders = "Recorder \<times> Recorder \<times> Recorder"

text \<open>The error of a query, or of the cache (\<open>Inl None\<close>).\<close>

type_synonym 'a trial = "(err option + 'a) \<times> world"

definition cold_trial :: "(string \<Rightarrow> string) \<Rightarrow> config \<Rightarrow> string \<Rightarrow> (nat \<Rightarrow> db \<Rightarrow> (err + QueryResult list) \<times> db) \<Rightarrow>
    nat \<Rightarrow> recorders \<Rightarrow> coldHotResult \<Rightarrow> world \<Rightarrow> (recorders \<times> coldHotResult) trial" where
  "cold_trial h cfg tag query i rcs res w =
     (case rcs of (cold, warm, hot) \<Rightarrow>
      let sub = ''coldstart/'' @ tag @ ''-'' @ FormatInt (int i) in
      case newCacheStore h cfg 0 sub w of
        Inl e \<Rightarrow> (Inl None, w)
      | Inr coldStore \<Rightarrow>
        (case timed cold (query i) (wClock w, coldStore) of
          (Inl e, clk, s) \<Rightarrow> (Inl (Some e), leave cfg sub clk s w)
        | (Inr cold, clk, s) \<Rightarrow>
          (let res = res\<lparr>coldMiss := coldMiss res + csMisses (Stats_Sub (Store_Stats s) (Store_Stats coldStore))\<rparr> in
           if nvmeEnabled cfg then
             (let w = leave cfg sub clk s w in
              case newCacheStore h cfg 0 sub w of
                Inl e \<Rightarrow> (Inl None, w)
              | Inr warmStore \<Rightarrow>
                (case timed warm (query i) (clk, warmStore) of
                  (Inl e, clk, s) \<Rightarrow> (Inl (Some e), leave cfg sub clk s w)
                | (Inr warm, clk, s1) \<Rightarrow>
                  (let wd = Stats_Sub (Store_Stats s1) (Store_Stats warmStore);
                       res = res\<lparr>warmNVMe := warmNVMe res + csNVMeHits wd, warmMiss := warmMiss res + csMisses wd\<rparr> in
                   case timed hot (query i) (clk, s1) of
                     (Inl e, clk, s) \<Rightarrow> (Inl (Some e), leave cfg sub clk s w)
                   | (Inr hot, clk, s2) \<Rightarrow>
                     (Inr ((cold, warm, hot), res\<lparr>hotMiss := hotMiss res + csMisses (Stats_Sub (Store_Stats s2) (Store_Stats s1))\<rparr>),
                      leave cfg sub clk s2 w))))
           else
             (case timed hot (query i) (clk, s) of
               (Inl e, clk, s) \<Rightarrow> (Inl (Some e), leave cfg sub clk s w)
             | (Inr hot, clk, s2) \<Rightarrow>
               (Inr ((cold, warm, hot), res\<lparr>hotMiss := hotMiss res + csMisses (Stats_Sub (Store_Stats s2) (Store_Stats s))\<rparr>),
                leave cfg sub clk s2 w)))))"

fun trials :: "(nat \<Rightarrow> recorders \<Rightarrow> coldHotResult \<Rightarrow> world \<Rightarrow> (recorders \<times> coldHotResult) trial) \<Rightarrow> nat list \<Rightarrow>
    recorders \<Rightarrow> coldHotResult \<Rightarrow> world \<Rightarrow> (recorders \<times> coldHotResult) trial" where
  "trials f [] rcs res w = (Inr (rcs, res), w)"
| "trials f (i # ns) rcs res w = (case f i rcs res w of
     (Inl e, w) \<Rightarrow> (Inl e, w) | (Inr (rcs, res), w) \<Rightarrow> trials f ns rcs res w)"

definition coldHotPairs :: "(string \<Rightarrow> string) \<Rightarrow> config \<Rightarrow> string \<Rightarrow> recorders \<Rightarrow>
    (nat \<Rightarrow> db \<Rightarrow> (err + QueryResult list) \<times> db) \<Rightarrow> world \<Rightarrow> (recorders \<times> coldHotResult) trial" where
  "coldHotPairs h cfg tag rcs query w =
     trials (cold_trial h cfg tag query) [0..<nat (bcColdTrials cfg)] rcs \<lparr>coldMiss = 0, warmNVMe = 0, warmMiss = 0, hotMiss = 0\<rparr> w"

record coldstart_report =
  crVec :: "recorders \<times> coldHotResult"
  crText :: "(recorders \<times> coldHotResult) option"

text \<open>
  The data is built once over a cache that is thrown away; the vectors and texts of the trials come from
  the same source.
\<close>

definition runColdStart :: "(string \<Rightarrow> string) \<Rightarrow> qenv \<Rightarrow> genv \<Rightarrow> config \<Rightarrow> world \<Rightarrow> coldstart_report trial" where
  "runColdStart h qe ge cfg w =
     (case makeDocs (nat (bcDocs cfg)) (nat (bcDim cfg)) (bcTextField cfg) (vSource qe (bcSeed cfg)) of (docs, g) \<Rightarrow>
      case andThen (create_ns cfg (bcTextField cfg)) (\<lambda>_. load_index ge (vUnicode qe) cfg docs) (wClock w, Store_New h (wBackend w)) of
        (Inl e, clk, s) \<Rightarrow> (Inl (Some e), w\<lparr>wClock := clk, wBackend := sBackend s\<rparr>)
      | (Inr _, clk, s) \<Rightarrow>
        (case makeQueryVectors (nat (bcColdTrials cfg)) (nat (bcDim cfg)) g of (vecs, g) \<Rightarrow>
         case makeQueryTexts (nat (bcColdTrials cfg)) g of (texts, g) \<Rightarrow>
         case coldHotPairs h cfg ''vec'' (NewRecorder ''query-vec  COLD (cache empty)'', NewRecorder ''query-vec  WARM (NVMe, DRAM cold)'',
             NewRecorder ''query-vec  HOT  (cache warm)'') (\<lambda>i. vectorQuery qe cfg (bcNamespace cfg) (vecs ! i))
             (w\<lparr>wClock := clk, wBackend := sBackend s\<rparr>) of
           (Inl e, w) \<Rightarrow> (Inl e, w)
         | (Inr v, w) \<Rightarrow>
           if bcTextField cfg = [] then (Inr \<lparr>crVec = v, crText = None\<rparr>, w)
           else (case coldHotPairs h cfg ''bm25'' (NewRecorder ''query-bm25 COLD (cache empty)'', NewRecorder ''query-bm25 WARM (NVMe, DRAM cold)'',
               NewRecorder ''query-bm25 HOT  (cache warm)'') (\<lambda>i. textQuery qe cfg (bcNamespace cfg) (texts ! i)) w of
             (Inl e, w) \<Rightarrow> (Inl e, w)
           | (Inr t, w) \<Rightarrow> (Inr \<lparr>crVec = v, crText = Some t\<rparr>, w))))"

definition speedup :: "int \<Rightarrow> int \<Rightarrow> flt" where
  "speedup cold hot = (if hot \<le> 0 then Fin 0 else f_div (of_int64 cold) (of_int64 hot))"

section \<open>Recall experiments\<close>

definition contains :: "string list \<Rightarrow> string \<Rightarrow> bool" where
  "contains ids target \<longleftrightarrow> list_ex (\<lambda>i. i = target) ids"

definition containsID :: "QueryResult list \<Rightarrow> string \<Rightarrow> bool" where
  "containsID results i \<longleftrightarrow> list_ex (\<lambda>r. rID r = i) results"

text \<open>A missing key of a Go map reads as zero.\<close>

fun neededShortlist :: "int list \<Rightarrow> (int, flt) gomap \<Rightarrow> flt \<Rightarrow> int" where
  "neededShortlist [] recall target = - 1"
| "neededShortlist (sl # sls) recall target =
     (if flt_le target (lookup recall sl (Fin 0)) then sl else neededShortlist sls recall target)"

definition shortlistLabel :: "int \<Rightarrow> string" where
  "shortlistLabel sl = (if sl < 0 then ''>swept-max'' else FormatInt sl)"

fun hybrid_hits :: "qenv \<Rightarrow> config \<Rightarrow> hybridLabel list \<Rightarrow> nat \<times> nat \<times> nat \<Rightarrow> (nat \<times> nat \<times> nat) prog" where
  "hybrid_hits qe cfg [] n = give n"
| "hybrid_hits qe cfg (l # ls) n =
     andThen (oper (vectorQuery qe cfg (bcNamespace cfg) (hlVector l))) (\<lambda>vr.
     andThen (oper (textQuery qe cfg (bcNamespace cfg) (hlText l))) (\<lambda>tr.
     andThen (oper (Namespace_Query qe (bcNamespace cfg) \<lparr>qRankBy = \<lparr>rVector = Some (hlVector l), rText = hlText l\<rparr>,
         qFilter = Filter [] [] ANil [], qTopK = bcTopK cfg, qNProbe = bcNProbe cfg\<rparr>)) (\<lambda>hr.
       case n of (v, t, h) \<Rightarrow> hybrid_hits qe cfg ls
         (if containsID vr (hlAnswer l) then v + 1 else v, if containsID tr (hlAnswer l) then t + 1 else t,
          if containsID hr (hlAnswer l) then h + 1 else h))))"

text \<open>\<open>None\<close>: the experiment needs a text field.  The report is the three hit counts and the number of labels.\<close>

definition runHybrid :: "qenv \<Rightarrow> genv \<Rightarrow> config \<Rightarrow> ((nat \<times> nat \<times> nat) \<times> nat) prog option" where
  "runHybrid qe ge cfg =
     (if bcTextField cfg = [] then None
      else Some (andThen (create_ns cfg (bcTextField cfg)) (\<lambda>_.
        case makeLabeledHybridSet cfg (vSource qe (bcSeed cfg)) of ((docs, labels), g) \<Rightarrow>
          andThen (load_index ge (vUnicode qe) cfg docs) (\<lambda>_.
          andThen (hybrid_hits qe cfg labels (0, 0, 0)) (\<lambda>n. give (n, length labels))))))"

text \<open>The brute-force nearest document of a query: the first at the least distance.\<close>

fun true_nearest :: "string \<Rightarrow> vec \<Rightarrow> nat \<Rightarrow> vec list \<Rightarrow> string \<times> flt \<Rightarrow> string" where
  "true_nearest metric q i [] near = fst near"
| "true_nearest metric q i (v # vs) near =
     (let d = Distance metric q v in
      true_nearest metric q (Suc i) vs (if flt_lt d (snd near) then (''doc-'' @ FormatInt (int i), d) else near))"

text \<open>How many of the queries keep their true neighbour in the shortlist.\<close>

fun kept_by :: "(vec \<Rightarrow> db \<Rightarrow> (err + string list) \<times> db) \<Rightarrow> (vec \<times> string) list \<Rightarrow> nat \<Rightarrow> nat prog" where
  "kept_by short [] n = give n"
| "kept_by short ((q, t) # qs) n = andThen (oper (short q)) (\<lambda>ids. kept_by short qs (if contains ids t then n + 1 else n))"

fun kept_both :: "(vec \<Rightarrow> bool \<Rightarrow> db \<Rightarrow> (err + string list) \<times> db) \<Rightarrow> (vec \<times> string) list \<Rightarrow> nat \<times> nat \<Rightarrow> (nat \<times> nat) prog" where
  "kept_both short [] n = give n"
| "kept_both short ((q, t) # qs) n =
     andThen (oper (short q True)) (\<lambda>r.
     andThen (oper (short q False)) (\<lambda>l.
       kept_both short qs (if contains r t then fst n + 1 else fst n, if contains l t then snd n + 1 else snd n)))"

fun sweep :: "(vec \<Rightarrow> int \<Rightarrow> bool \<Rightarrow> db \<Rightarrow> (err + string list) \<times> db) \<Rightarrow> (vec \<times> string) list \<Rightarrow> nat \<Rightarrow> int list \<Rightarrow>
    (int, flt) gomap \<times> (int, flt) gomap \<Rightarrow> ((int, flt) gomap \<times> (int, flt) gomap) prog" where
  "sweep short qs reachable [] rl = give rl"
| "sweep short qs reachable (sl # sls) rl =
     andThen (kept_both (\<lambda>q. short q sl) qs (0, 0)) (\<lambda>(r, l).
       sweep short qs reachable sls
         (AList.update sl (f_div (of_int64 (int r)) (of_int64 (int reachable))) (fst rl),
          AList.update sl (f_div (of_int64 (int l)) (of_int64 (int reachable))) (snd rl)))"

record rabitq_report =
  rrReachable :: nat
  rrRabitq :: "(int, flt) gomap"
  rrLite :: "(int, flt) gomap"
  rrNeed :: "int \<times> int"

definition rabitq_shortlists :: "int list" where
  "rabitq_shortlists = [1, 2, 5, 10, 20, 50]"

text \<open>The three passes over the indexed namespace.  \<open>truth\<close> pairs a query with its nearest document.\<close>

definition rabitq_passes :: "qenv \<Rightarrow> config \<Rightarrow> Manifest \<Rightarrow> (vec \<times> string) list \<Rightarrow> rabitq_report prog" where
  "rabitq_passes qe cfg m truth =
     (let nProbe = (if bcNProbe cfg < 8 then 8 else bcNProbe cfg);
          short = (\<lambda>q sl rabitq. PrefilterShortlist qe (bcNamespace cfg) m q nProbe sl rabitq) in
      andThen (kept_by (\<lambda>q. short q (bcDocs cfg) True) truth 0) (\<lambda>reachable.
      if reachable = 0 then (\<lambda>w. (Inl (QueryErr ''no reachable queries''), w))
      else andThen (sweep short truth reachable rabitq_shortlists ([], [])) (\<lambda>(r, l).
        give \<lparr>rrReachable = reachable, rrRabitq = r, rrLite = l,
          rrNeed = (neededShortlist rabitq_shortlists r (fround F64 (9 / 10)),
                    neededShortlist rabitq_shortlists l (fround F64 (9 / 10)))\<rparr>)))"

definition plain_docs :: "vec list \<Rightarrow> Document list" where
  "plain_docs vecs = map (\<lambda>(i, v). \<lparr>dID = ''doc-'' @ FormatInt (int i), dVector = Some v, dAttributes = [], dDeleted = False\<rparr>)
     (enumerate 0 vecs)"

definition runRaBitQ :: "qenv \<Rightarrow> genv \<Rightarrow> config \<Rightarrow> rabitq_report prog" where
  "runRaBitQ qe ge cfg =
     andThen (create_ns cfg []) (\<lambda>_.
     case draws (nat (bcDocs cfg)) (gaussVec (nat (bcDim cfg))) (vSource qe (bcSeed cfg)) of (vecs, g) \<Rightarrow>
     case draws (nat (bcQueries cfg)) (gaussVec (nat (bcDim cfg))) g of (queries, g) \<Rightarrow>
     andThen (load_index ge (vUnicode qe) cfg (plain_docs vecs)) (\<lambda>_.
     andThen (oper (Info (bcNamespace cfg))) (\<lambda>m.
       rabitq_passes qe cfg m (map (\<lambda>q. (q, true_nearest (bcMetric cfg) q 0 vecs ([], Inf False))) queries))))"

section \<open>Filter plans\<close>

definition bands :: "(string \<times> flt) list" where
  "bands = [(''rare'', fround F64 (2 / 1000)), (''narrow'', fround F64 (2 / 100)), (''mid'', fround F64 (1 / 10)), (''broad'', Fin (1 / 2))]"

fun pick_band :: "flt \<Rightarrow> flt \<Rightarrow> nat \<Rightarrow> (string \<times> flt) list \<Rightarrow> nat" where
  "pick_band x cum i [] = i - 1"
| "pick_band x cum i (b # bs) = (let cum = f_add cum (snd b) in if flt_lt x cum then i else pick_band x cum (Suc i) bs)"

definition band_center :: "nat \<Rightarrow> rng \<Rightarrow> vec \<times> rng" where
  "band_center dimn g = draws dimn (\<lambda>g. case Float32 g of (f, g) \<Rightarrow> (fmul F32 f (Fin 10), g)) g"

definition band_doc :: "vec list \<Rightarrow> nat \<Rightarrow> rng \<Rightarrow> Document \<times> rng" where
  "band_doc centers i g =
     (case Float64 g of (x, g) \<Rightarrow>
      let b = pick_band x (Fin 0) 0 bands in
      (case jitter_from (centers ! b) (fround F32 (3 / 10)) g of (v, g) \<Rightarrow>
        (\<lparr>dID = ''doc-'' @ FormatInt (int i), dVector = Some v, dAttributes = [(''sel'', AStr (fst (bands ! b)))], dDeleted = False\<rparr>, g)))"

fun band_docs :: "vec list \<Rightarrow> nat \<Rightarrow> nat \<Rightarrow> rng \<Rightarrow> Document list \<times> rng" where
  "band_docs centers i 0 g = ([], g)"
| "band_docs centers i (Suc n) g = (case band_doc centers i g of (d, g) \<Rightarrow>
     (case band_docs centers (Suc i) n g of (ds, g) \<Rightarrow> (d # ds, g)))"

text \<open>One query per fresh cache over the backend; the misses are the objects that the plan fetched.\<close>

fun timeFilter :: "(string \<Rightarrow> string) \<Rightarrow> qenv \<Rightarrow> config \<Rightarrow> Filter \<Rightarrow> vec list \<Rightarrow> Recorder \<Rightarrow> 64 word \<Rightarrow>
    clock \<times> wire Backend \<Rightarrow> (err + Recorder \<times> 64 word) \<times> clock \<times> wire Backend" where
  "timeFilter h qe cfg f [] rc miss cb = (Inr (rc, miss), cb)"
| "timeFilter h qe cfg f (v # vs) rc miss cb =
     (case timed rc (Namespace_Query qe (bcNamespace cfg) \<lparr>qRankBy = \<lparr>rVector = Some v, rText = []\<rparr>, qFilter = f,
          qTopK = bcTopK cfg, qNProbe = bcNProbe cfg\<rparr>) (fst cb, Store_New h (snd cb)) of
        (Inl e, clk, s) \<Rightarrow> (Inl e, clk, sBackend s)
      | (Inr rc, clk, s) \<Rightarrow> timeFilter h qe cfg f vs rc (miss + csMisses (Store_Stats s)) (clk, sBackend s))"

definition filter_averages :: "nat \<Rightarrow> 64 word \<Rightarrow> flt" where
  "filter_averages n miss = f_div (of_int64 (uint miss)) (of_int64 (int n))"

fun time_bands :: "(string \<Rightarrow> string) \<Rightarrow> qenv \<Rightarrow> config \<Rightarrow> vec list \<Rightarrow> (string \<times> Filter) list \<Rightarrow> clock \<times> wire Backend \<Rightarrow>
    (err + (Recorder \<times> flt) list) \<times> clock \<times> wire Backend" where
  "time_bands h qe cfg vecs [] cb = (Inr [], cb)"
| "time_bands h qe cfg vecs ((label, f) # fs) cb =
     (case timeFilter h qe cfg f vecs (NewRecorder label) 0 cb of
        (Inl e, cb) \<Rightarrow> (Inl e, cb)
      | (Inr (rc, miss), cb) \<Rightarrow> (case time_bands h qe cfg vecs fs cb of
          (Inl e, cb) \<Rightarrow> (Inl e, cb)
        | (Inr rs, cb) \<Rightarrow> (Inr ((rc, filter_averages (length vecs) miss) # rs), cb)))"

definition band_filters :: "(string \<times> Filter) list" where
  "band_filters = (''unfiltered (baseline)'', Filter [] [] ANil []) #
     map (\<lambda>b. (''filter sel='' @ fst b, Filter ''eq'' ''sel'' (AStr (fst b)) [])) bands"

definition runFilterPlan :: "(string \<Rightarrow> string) \<Rightarrow> qenv \<Rightarrow> genv \<Rightarrow> config \<Rightarrow> clock \<times> wire Backend \<Rightarrow>
    (err + (Recorder \<times> flt) list) \<times> clock \<times> wire Backend" where
  "runFilterPlan h qe ge cfg cb =
     (case draws (length bands) (band_center (nat (bcDim cfg))) (vSource qe (bcSeed cfg)) of (centers, g) \<Rightarrow>
      case band_docs centers 0 (nat (bcDocs cfg)) g of (docs, g) \<Rightarrow>
      case andThen (create_ns cfg []) (\<lambda>_. load_index ge (vUnicode qe) cfg docs) (fst cb, Store_New h (snd cb)) of
        (Inl e, clk, s) \<Rightarrow> (Inl e, clk, sBackend s)
      | (Inr _, clk, s) \<Rightarrow>
        (case makeQueryVectors (nat (bcQueries cfg)) (nat (bcDim cfg)) g of (vecs, g) \<Rightarrow>
          time_bands h qe cfg vecs band_filters (clk, sBackend s)))"

section \<open>Many tenants\<close>

text \<open>
  The set-up is sequential: every tenant is created, loaded and indexed, and warmed by one query.  Each
  worker of the load then runs its share of the queries; how their goroutines interleave is not modelled.
\<close>

definition tenant_name :: "config \<Rightarrow> nat \<Rightarrow> string" where
  "tenant_name cfg i = bcNamespace cfg @ ''-t'' @ FormatInt (int i)"

fun setup_tenants :: "genv \<Rightarrow> unicode \<Rightarrow> config \<Rightarrow> nat list \<Rightarrow> rng \<Rightarrow> Recorder \<Rightarrow> (Recorder \<times> rng) prog" where
  "setup_tenants ge uc cfg [] g rc = give (rc, g)"
| "setup_tenants ge uc cfg (i # ns) g rc =
     andThen (create_ns (cfg\<lparr>bcNamespace := tenant_name cfg i\<rparr>) (bcTextField cfg)) (\<lambda>_.
     case makeDocs (nat (bcDocs cfg)) (nat (bcDim cfg)) (bcTextField cfg) g of (docs, g) \<Rightarrow>
     andThen (load_batches (cfg\<lparr>bcNamespace := tenant_name cfg i\<rparr>) docs) (\<lambda>_.
     andThen (timed rc (Namespace_Index ge uc (tenant_name cfg i))) (setup_tenants ge uc cfg ns g)))"

definition pool_size :: "config \<Rightarrow> nat" where
  "pool_size cfg = (let n = min (bcQueries cfg) 2000 in if n < 1 then 1 else nat n)"

definition setup_load :: "qenv \<Rightarrow> genv \<Rightarrow> config \<Rightarrow> (Recorder \<times> vec list \<times> string list) prog" where
  "setup_load qe ge cfg =
     andThen (setup_tenants ge (vUnicode qe) cfg [0..<nat (bcNamespaces cfg)] (vSource qe (bcSeed cfg)) (NewRecorder ''index (build/tenant)''))
       (\<lambda>(rc, g). case makeQueryVectors (pool_size cfg) (nat (bcDim cfg)) g of (vecPool, g) \<Rightarrow>
                  case makeQueryTexts (pool_size cfg) g of (textPool, g) \<Rightarrow>
          andThen (each (\<lambda>i. quietly (vectorQuery qe cfg (tenant_name cfg i)) (vecPool ! 0)) [0..<nat (bcNamespaces cfg)])
            (\<lambda>_. give (rc, vecPool, textPool)))"

definition worker_share :: "config \<Rightarrow> int \<Rightarrow> int" where
  "worker_share cfg w = (let base = bcQueries cfg div bcConcurrency cfg; rem = bcQueries cfg mod bcConcurrency cfg in
     if w < rem then base + 1 else base)"

text \<open>One worker: the tenant, then the query, from its own source.\<close>

fun worker_load :: "qenv \<Rightarrow> config \<Rightarrow> vec list \<Rightarrow> nat \<Rightarrow> rng \<Rightarrow> Recorder \<Rightarrow> Recorder prog" where
  "worker_load qe cfg vecPool 0 g rc = give rc"
| "worker_load qe cfg vecPool (Suc n) g rc =
     (case Intn (nat (bcNamespaces cfg)) g of (i, g) \<Rightarrow>
      case Intn (length vecPool) g of (j, g) \<Rightarrow>
      andThen (timed rc (vectorQuery qe cfg (tenant_name cfg i) (vecPool ! j))) (worker_load qe cfg vecPool n g))"

definition worker :: "qenv \<Rightarrow> config \<Rightarrow> vec list \<Rightarrow> int \<Rightarrow> Recorder prog" where
  "worker qe cfg vecPool w = worker_load qe cfg vecPool (nat (worker_share cfg w)) (vSource qe (bcSeed cfg + w + 1)) (NewRecorder [])"

text \<open>The line about the index: the clusters, the vectors, and the least, the middle and the greatest size.\<close>

definition index_summary :: "CentroidsFile \<Rightarrow> nat \<times> nat \<times> nat \<times> nat \<times> nat" where
  "index_summary cf = (let sizes = sort (cfSizes cf); n = length sizes in
     (cfK cf, sum_list sizes, if sizes = [] then 0 else sizes ! 0, if sizes = [] then 0 else sizes ! (n div 2),
      if sizes = [] then 0 else sizes ! (n - 1)))"

section \<open>The shares cover the queries\<close>

lemma shares: "(\<Sum>w < n. if int w < r then b + 1 else b) = int n * b + max 0 (min (int n) r)"
  by (induction n) (auto simp: algebra_simps)

lemma worker_shares_cover:
  assumes "config_validate cfg = None"
  shows "(\<Sum>w < nat (bcConcurrency cfg). worker_share cfg (int w)) = bcQueries cfg"
proof -
  have c: "1 \<le> bcConcurrency cfg" using assms by (auto simp: config_validate_def split: if_splits)
  then have "max 0 (min (int (nat (bcConcurrency cfg))) (bcQueries cfg mod bcConcurrency cfg)) = bcQueries cfg mod bcConcurrency cfg"
    using pos_mod_bound [of "bcConcurrency cfg" "bcQueries cfg"] pos_mod_sign [of "bcConcurrency cfg" "bcQueries cfg"] by linarith
  with c show ?thesis by (simp add: worker_share_def Let_def shares)
qed

section \<open>Batches\<close>

lemma batches_step: "batches n xs = (if xs = [] \<or> n = 0 then [] else take n xs # batches n (drop n xs))"
  by (rule batches.simps)

lemma concat_batches: "0 < n \<Longrightarrow> concat (batches n xs) = xs"
proof (induction n xs rule: batches.induct)
  case (1 n xs)
  then show ?case using batches_step [of n xs] by (cases "xs = []") simp_all
qed

lemma batches_members: "b \<in> set (batches n xs) \<Longrightarrow> b \<noteq> [] \<and> length b \<le> n \<and> set b \<subseteq> set xs"
proof (induction n xs rule: batches.induct)
  case (1 n xs)
  show ?case
  proof (cases "xs = [] \<or> n = 0")
    case False
    then have "b = take n xs \<or> b \<in> set (batches n (drop n xs))" using 1(2) by (simp add: batches_step [of n xs])
    then show ?thesis using False 1(1) [OF False] set_take_subset [of n xs] set_drop_subset [of n xs] by auto
  qed (use 1(2) in \<open>simp add: batches_step [of n xs]\<close>)
qed

lemma length_batches: "0 < n \<Longrightarrow> length (batches n xs) = (length xs + n - 1) div n"
proof (induction n xs rule: batches.induct)
  case (1 n xs)
  show ?case
  proof (cases "xs = []")
    case False
    with 1 have "length (batches n xs) = Suc ((length xs - n + n - 1) div n)" by (simp add: batches_step [of n xs])
    also have "\<dots> = (length xs + n - 1) div n"
    proof (cases "length xs \<le> n")
      case True
      have "(length xs + n - 1) div n = 1"
        using True False 1(2) by (cases xs) (auto intro!: div_nat_eqI)
      then show ?thesis using True 1(2) by simp
    next
      case False
      then have e: "length xs + n - 1 = (length xs - n + n - 1) + n" by simp
      show ?thesis unfolding e by (subst div_add_self2) (use 1(2) in simp_all)
    qed
    finally show ?thesis .
  qed (use 1(2) batches_step [of n xs] in simp)
qed

section \<open>The synthetic documents\<close>

lemma draws_length: "draws n d g = (xs, g') \<Longrightarrow> length xs = n"
  by (induction n arbitrary: g xs g') (auto split: prod.splits)

definition rng_finite :: "rng \<Rightarrow> bool" where
  "rng_finite g \<longleftrightarrow> list_all (\<lambda>x. fin (to_fmt F32 x)) (gFloats g)"

lemma float32_from_finite:
  "list_all (\<lambda>x. fin (to_fmt F32 x)) xs \<Longrightarrow> float32_from xs = (f, ys) \<Longrightarrow>
   fin f \<and> list_all (\<lambda>x. fin (to_fmt F32 x)) ys"
  by (induction xs rule: float32_from.induct) (auto simp: Let_def split: if_splits)

lemma Float32_finite:
  assumes "rng_finite g" "Float32 g = (f, g')"
  shows "fin f \<and> rng_finite g'"
proof -
  obtain h ys where h: "float32_from (gFloats g) = (h, ys)" by fastforce
  with assms(2) have "f = h" "g' = g\<lparr>gFloats := ys\<rparr>" by (simp_all add: Float32_def)
  with float32_from_finite [OF assms(1) [unfolded rng_finite_def] h] show ?thesis by (simp add: rng_finite_def)
qed

lemma draw_word_finite: "rng_finite g \<Longrightarrow> draw_word g = (w, g') \<Longrightarrow> rng_finite g'"
  by (auto simp: draw_word_def Intn_def rng_finite_def split: list.splits)

lemma draws_finite:
  assumes "\<And>g x g'. rng_finite g \<Longrightarrow> d g = (x, g') \<Longrightarrow> P x \<and> rng_finite g'"
  shows "rng_finite g \<Longrightarrow> draws n d g = (xs, g') \<Longrightarrow> list_all P xs \<and> rng_finite g'"
  by (induction n arbitrary: g xs g') (auto split: prod.splits dest: assms)

text \<open>A document that the engine accepts and stores as it is.\<close>

abbreviation loadable :: "nat \<Rightarrow> Document \<Rightarrow> bool" where
  "loadable dimn d \<equiv> (\<exists>v. dVector d = Some v \<and> length v = dimn) \<and> json_encodable d \<and> json_doc d = d \<and> \<not> dDeleted d"

lemma make_doc_loadable:
  assumes "rng_finite g" "0 < dimn" "make_doc dimn textField i g = (d, g')"
  shows "loadable dimn d \<and> dID d = ''doc-'' @ FormatInt (int i) \<and> rng_finite g'"
proof -
  obtain v g1 where v: "draws dimn Float32 g = (v, g1)" by fastforce
  obtain ws g2 where ws: "draws 8 draw_word g1 = (ws, g2)" by fastforce
  from draws_finite [OF Float32_finite assms(1) v] have f: "list_all fin v" "rng_finite g1" by simp_all
  from draws_finite [where P = "\<lambda>_. True", OF _ f(2) ws] have f2: "rng_finite g2" by (auto dest: draw_word_finite)
  have l: "length v = dimn" using draws_length [OF v] .
  then have "v \<noteq> []" using assms(2) by auto
  then show ?thesis using assms(3) v ws f f2 l
    by (auto simp: make_doc_def Let_def json_encodable_def json_doc_def split: if_splits)
qed

lemma docs_from_loadable:
  "rng_finite g \<Longrightarrow> 0 < dimn \<Longrightarrow> docs_from i n dimn textField g = (docs, g') \<Longrightarrow>
   list_all (loadable dimn) docs \<and> map dID docs = map (\<lambda>i. ''doc-'' @ FormatInt (int i)) [i..<i + n]"
proof (induction n arbitrary: i g docs g')
  case (Suc n)
  obtain d g1 where d: "make_doc dimn textField i g = (d, g1)" by fastforce
  obtain ds g2 where ds: "docs_from (Suc i) n dimn textField g1 = (ds, g2)" by fastforce
  note a = make_doc_loadable [OF Suc.prems(1,2) d]
  note b = Suc.IH [OF conjunct2 [OF conjunct2 [OF a]] Suc.prems(2) ds]
  have "docs = d # ds" using Suc.prems(3) d ds by simp
  moreover have "[i..<i + Suc n] = i # [Suc i..<Suc i + n]" using upt_conv_Cons [of i "i + Suc n"] by simp
  ultimately show ?case using a b by simp
qed simp

text \<open>The ids are distinct: no document of the workload overwrites another.\<close>

lemma makeDocs_distinct: "rng_finite g \<Longrightarrow> 0 < dimn \<Longrightarrow> makeDocs n dimn textField g = (docs, g') \<Longrightarrow> distinct (map dID docs)"
  using docs_from_loadable [of g dimn 0 n textField docs g'] by (auto simp: makeDocs_def distinct_map inj_on_def)

section \<open>Loading\<close>

abbreviation free_from :: "db \<Rightarrow> string \<Rightarrow> int \<Rightarrow> bool" where
  "free_from s ns i \<equiv> \<forall>j \<ge> i. slot_free (mem_of s) ns j"

lemma Upsert_at_the_end:
  assumes "db_quiet s" "pinv (mem_of s)" "manifest_at (mem_of s) ns = Some m" "docs \<noteq> []"
    "validateDocs (mDimension m) docs = Inr ()" "list_all json_encodable docs" "free_from s ns (mWALSeq m)"
  shows "\<exists>s'. Upsert ns docs s = (Inr (), s') \<and> db_quiet s' \<and> pinv (mem_of s') \<and> free_from s' ns (mWALSeq m + 1) \<and>
    manifest_at (mem_of s') ns = Some (bump (advance_to (mWALSeq m) (liveDelta docs) m)) \<and>
    log_ops (mem_of s') ns 0 (nat (mWALSeq m + 1)) = log_ops (mem_of s) ns 0 (nat (mWALSeq m)) @ map json_doc docs"
proof -
  let ?i = "mWALSeq m"
  from pinv_node [OF assms(2,3)] obtain rank where "node_ok (mem_of s) rank ns m" .
  then have pos: "0 \<le> ?i" by (simp add: node_ok_def counters_ok_def)
  have k: "0 < maxUpsertAttempts" "\<forall>j < 0. \<not> slot_free (mem_of s) ns (?i + int j)" "slot_free (mem_of s) ns (?i + int 0)"
    using assms(7) by (simp_all add: maxUpsertAttempts_def)
  from Upsert_quiet [OF assms(1-6) k] obtain s' where u: "Upsert ns docs s = (Inr (), s')" "db_quiet s'"
    "manifest_at (mem_of s') ns = Some (bump (advance_to ?i (liveDelta docs) m))"
    "seg_at (mem_of s') ns ?i = Some \<lparr>sSeq = ?i, sOps = map json_doc docs\<rparr>"
    and frame: "\<And>key. key = manifestKey ns \<or> key = walKey ns ?i \<or> MemStore_Get (mem_of s') key = MemStore_Get (mem_of s) key"
    by auto
  have seg: "seg_at (mem_of s') ns j = seg_at (mem_of s) ns j" if "0 \<le> j" "j < ?i + int 0" for j
    using frame [of "walKey ns j"] that walKey_inject [of j ?i ns ns] by (auto simp: seg_at_def)
  have "free_from s' ns (?i + 1)"
  proof (intro allI impI)
    fix j assume j: "?i + 1 \<le> j"
    then have "walKey ns j \<noteq> walKey ns ?i" "walKey ns j \<noteq> manifestKey ns" using pos by (simp_all add: walKey_inject)
    with frame [of "walKey ns j"] assms(7) j show "slot_free (mem_of s') ns j" by simp
  qed
  moreover have "pinv (mem_of s')" using Upsert_fair [OF quiet_fair [OF assms(1,2)] u(1)] fair_pinv by blast
  moreover have "log_ops (mem_of s') ns 0 (nat (?i + 1)) = log_ops (mem_of s) ns 0 (nat ?i) @ map json_doc docs"
    using log_after_write [OF pos seg, of 0 "\<lparr>sSeq = ?i, sOps = map json_doc docs\<rparr>"] u(4) by simp
  ultimately show ?thesis using u by blast
qed

lemma liveDelta_live: "list_all (\<lambda>d. \<not> dDeleted d) docs \<Longrightarrow> liveDelta docs = int (length docs)"
proof -
  have "list_all (\<lambda>d. \<not> dDeleted d) docs \<Longrightarrow> foldl (\<lambda>n d. if dDeleted d then n - 1 else n + 1) n docs = n + int (length docs)" for n :: int
    by (induction docs arbitrary: n) auto
  then show "list_all (\<lambda>d. \<not> dDeleted d) docs \<Longrightarrow> liveDelta docs = int (length docs)" by (simp add: liveDelta_def)
qed

lemma map_json_doc: "list_all (loadable dimn) docs \<Longrightarrow> map json_doc docs = docs"
  by (induction docs) auto

lemma each_upsert:
  assumes "db_quiet s" "pinv (mem_of s)" "manifest_at (mem_of s) ns = Some m" "free_from s ns (mWALSeq m)"
    "\<forall>b \<in> set bs. b \<noteq> [] \<and> list_all (loadable dimn) b" "mDimension m = int dimn" "0 \<le> mDocCount m"
  shows "\<exists>s' m'. each (\<lambda>b. oper (Upsert ns b)) bs (clk, s) = (Inr (), clk, s') \<and> manifest_at (mem_of s') ns = Some m' \<and>
    mWALSeq m' = mWALSeq m + int (length bs) \<and> mDocCount m' = mDocCount m + int (length (concat bs)) \<and>
    log_ops (mem_of s') ns 0 (nat (mWALSeq m')) = log_ops (mem_of s) ns 0 (nat (mWALSeq m)) @ concat bs"
  using assms
proof (induction bs arbitrary: s m)
  case (Cons b bs)
  have b: "b \<noteq> []" "list_all (loadable dimn) b" using Cons.prems(5) by simp_all
  then have d: "validateDocs (mDimension m) b = Inr ()" "list_all json_encodable b" "liveDelta b = int (length b)"
    using Cons.prems(6) by (auto simp: validateDocs_iff list_all_iff intro!: liveDelta_live)
  from Upsert_at_the_end [OF Cons.prems(1-3) b(1) d(1,2) Cons.prems(4)] obtain s1 where
    s1: "Upsert ns b s = (Inr (), s1)" "db_quiet s1" "pinv (mem_of s1)" "free_from s1 ns (mWALSeq m + 1)"
    "manifest_at (mem_of s1) ns = Some (bump (advance_to (mWALSeq m) (liveDelta b) m))"
    "log_ops (mem_of s1) ns 0 (nat (mWALSeq m + 1)) = log_ops (mem_of s) ns 0 (nat (mWALSeq m)) @ map json_doc b" by blast
  let ?m = "bump (advance_to (mWALSeq m) (liveDelta b) m)"
  have m: "mWALSeq ?m = mWALSeq m + 1" "mDimension ?m = int dimn" "mDocCount ?m = mDocCount m + int (length b)"
    using Cons.prems(6,7) d(3) by (simp_all add: bump_def)
  have "\<forall>b \<in> set bs. b \<noteq> [] \<and> list_all (loadable dimn) b" using Cons.prems(5) by simp
  from Cons.IH [OF s1(2,3,5) _ this m(2)] s1(4) m Cons.prems(7) obtain s' m' where
    s': "each (\<lambda>b. oper (Upsert ns b)) bs (clk, s1) = (Inr (), clk, s')" "manifest_at (mem_of s') ns = Some m'"
    "mWALSeq m' = mWALSeq ?m + int (length bs)" "mDocCount m' = mDocCount ?m + int (length (concat bs))"
    "log_ops (mem_of s') ns 0 (nat (mWALSeq m')) = log_ops (mem_of s1) ns 0 (nat (mWALSeq ?m)) @ concat bs" by auto
  moreover have "each (\<lambda>b. oper (Upsert ns b)) (b # bs) (clk, s) = (Inr (), clk, s')"
    using s1(1) s'(1) by (simp add: andThen_def oper_def)
  ultimately show ?case using s1(6) m map_json_doc [OF b(2)] by (intro exI [of _ s'] exI [of _ m']) simp
qed (simp add: give_def)

text \<open>The store of the benchmark on the memory backend.\<close>

definition memory_store :: "(string \<Rightarrow> string) \<Rightarrow> db" where
  "memory_store h = Store_New h \<lparr>bstore = MemStore_New, bevents = []\<rparr>"

lemma create_on_memory:
  "\<exists>s. create_ns cfg tf (clk, memory_store h) = (Inr (), clk, s) \<and> db_quiet s \<and> pinv (mem_of s) \<and>
     manifest_at (mem_of s) (bcNamespace cfg) = Some (root_manifest \<lparr>cDimension = bcDim cfg, cMetric = bcMetric cfg, cTextField = tf\<rparr>) \<and>
     free_from s (bcNamespace cfg) 0"
proof -
  let ?s = "memory_store h" and ?ns = "bcNamespace cfg"
  let ?c = "\<lparr>cDimension = bcDim cfg, cMetric = bcMetric cfg, cTextField = tf\<rparr>"
  have q: "db_quiet ?s" "mem_of ?s = MemStore_New" by (simp_all add: memory_store_def Store_New_def NewWithCapacity_def)
  have none: "MemStore_Get MemStore_New key = Inl ErrNotFound" for key by (simp add: MemStore_Get_def MemStore_New_def)
  have ok: "memstore_ok (mem_of ?s)" using pinv_ok [OF pinv_New] q(2) by simp
  have free: "MemStore_Get (mem_of ?s) (manifestKey ?ns) = Inl ErrNotFound" using none q(2) by simp
  from mem.absent_free [OF ok free, of "WManifest (root_manifest ?c)"] obtain e m' where
    m': "MemStore_PutIfAbsent (mem_of ?s) (manifestKey ?ns) (WManifest (root_manifest ?c)) = (Inr e, m')"
    and w: "wrote MemStore_Get used_etags (mem_of ?s) (manifestKey ?ns) (WManifest (root_manifest ?c)) e m'" by blast
  let ?s' = "?s\<lparr>sBackend := \<lparr>bstore = m', bevents = []\<rparr>\<rparr>"
  have c: "CreateManifest ?ns ?c ?s = (Inr (), ?s')"
    using Store_PutIfAbsent_quiet [OF q(1) m'] by (simp add: CreateManifest_def)
  have f: "psteps (mem_of ?s) (mem_of ?s') \<and> manifest_at (mem_of ?s') ?ns = Some (root_manifest ?c)"
    using CreateManifest_fair [OF quiet_fair [OF q(1)] c] q(2) pinv_New by simp
  moreover have "pinv (mem_of ?s')" using psteps_pinv [OF conjunct1 [OF f]] q(2) pinv_New by simp
  moreover have "free_from ?s' ?ns 0" using none q(2) by (auto simp: wrote_get [OF w])
  moreover have "create_ns cfg tf (clk, ?s) = (Inr (), clk, ?s')" using c by (simp add: create_ns_def oper_def Namespace_Create_def)
  ultimately show ?thesis by (intro exI [of _ ?s']) simp
qed

text \<open>
  C34. On the memory backend, with a configuration that passes the checks and a random source of finite
  numbers, creating the namespace and loading the synthetic documents in batches succeeds.  The log is
  then exactly the documents, in order, however they were batched; there is one segment per batch,
  \<open>(docs + batch - 1) / batch\<close> of them as the program prints; the manifest counts every document, and no
  two documents share an id.
\<close>

theorem workload_load_is_the_documents:
  assumes "config_validate cfg = None" "rng_finite g"
    and "makeDocs (nat (bcDocs cfg)) (nat (bcDim cfg)) (bcTextField cfg) g = (docs, g')"
  shows "\<exists>s m. andThen (create_ns cfg tf) (\<lambda>_. load_batches cfg docs) (clk, memory_store h) = (Inr (), clk, s) \<and>
    manifest_at (mem_of s) (bcNamespace cfg) = Some m \<and> mWALSeq m = (bcDocs cfg + bcBatch cfg - 1) div bcBatch cfg \<and>
    mDocCount m = bcDocs cfg \<and> log_ops (mem_of s) (bcNamespace cfg) 0 (nat (mWALSeq m)) = docs \<and> distinct (map dID docs)"
proof -
  have c: "0 < bcDim cfg" "0 < bcDocs cfg" "0 < bcBatch cfg" using assms(1) by (auto simp: config_validate_def split: if_splits)
  let ?n = "nat (bcBatch cfg)"
  have n: "0 < ?n" and dimn: "0 < nat (bcDim cfg)" using c by simp_all
  note d = docs_from_loadable [OF assms(2) dimn assms(3) [unfolded makeDocs_def]]
  from arg_cong [OF conjunct2 [OF d], of length] c have len: "int (length docs) = bcDocs cfg" by simp
  have bs: "\<forall>b \<in> set (batches ?n docs). b \<noteq> [] \<and> list_all (loadable (nat (bcDim cfg))) b"
    using batches_members [of _ ?n docs] conjunct1 [OF d] by (auto simp: list_all_iff)
  have segs: "int (length (batches ?n docs)) = (bcDocs cfg + bcBatch cfg - 1) div bcBatch cfg"
    using length_batches [OF n, of docs] len c by (simp add: zdiv_int of_nat_diff)
  from create_on_memory obtain s0 where s0: "create_ns cfg tf (clk, memory_store h) = (Inr (), clk, s0)" "db_quiet s0"
    "pinv (mem_of s0)" "manifest_at (mem_of s0) (bcNamespace cfg) =
      Some (root_manifest \<lparr>cDimension = bcDim cfg, cMetric = bcMetric cfg, cTextField = tf\<rparr>)" "free_from s0 (bcNamespace cfg) 0" by blast
  let ?m = "root_manifest \<lparr>cDimension = bcDim cfg, cMetric = bcMetric cfg, cTextField = tf\<rparr>"
  have m: "mWALSeq ?m = 0" "mDimension ?m = int (nat (bcDim cfg))" "mDocCount ?m = 0" using c by (simp_all add: root_manifest_def)
  have fr: "free_from s0 (bcNamespace cfg) (mWALSeq ?m)" "0 \<le> mDocCount ?m" using s0(5) unfolding m by simp_all
  have z: "0 + i = i" "log_ops st ns 0 (nat 0) @ xs = xs" for i :: int and st ns and xs :: "Document list" by simp_all
  from each_upsert [OF s0(2-4) fr(1) bs m(2) fr(2), unfolded concat_batches [OF n] m(1,3) z, of clk] obtain s m' where
    s: "each (\<lambda>b. oper (Upsert (bcNamespace cfg) b)) (batches ?n docs) (clk, s0) = (Inr (), clk, s)"
    "manifest_at (mem_of s) (bcNamespace cfg) = Some m'" "mWALSeq m' = int (length (batches ?n docs))"
    "mDocCount m' = int (length docs)" "log_ops (mem_of s) (bcNamespace cfg) 0 (nat (mWALSeq m')) = docs" by blast
  have "andThen (create_ns cfg tf) (\<lambda>_. load_batches cfg docs) (clk, memory_store h) = (Inr (), clk, s)"
    using s0(1) s(1) by (simp add: andThen_def load_batches_def)
  with s(2-5) segs len makeDocs_distinct [OF assms(2) dimn assms(3)] show ?thesis
    by (intro exI [of _ s] exI [of _ m']) simp
qed

definition small_config :: config where
  "small_config = \<lparr>bcBackend = ''memory'', bcNamespace = ''bench'', bcDim = 2, bcMetric = ''cosine'', bcTextField = ''body'',
     bcDocs = 5, bcBatch = 2, bcQueries = 4, bcWarmup = 1, bcTopK = 3, bcNProbe = 3, bcSeed = 1, bcNamespaces = 1,
     bcConcurrency = 1, bcCacheObj = 0, bcNvmeDir = [], bcNvmeSlots = 0, bcColdTrials = 0, bcHybrid = False,
     bcGroupCommit = False, bcFilterPlan = False, bcRabitq = False\<rparr>"

definition small_rng :: rng where
  "small_rng = \<lparr>gInts = [3, 1, 4, 1, 5], gNorms = [], gFloats = [Fin (1/2), Fin (1/4), Fin (3/4)]\<rparr>"

theorem workload_load_is_the_documents_witness:
  "\<exists>docs s m. fst (makeDocs 5 2 ''body'' small_rng) = docs \<and> map dID docs = [''doc-0'', ''doc-1'', ''doc-2'', ''doc-3'', ''doc-4''] \<and>
     andThen (create_ns small_config ''body'') (\<lambda>_. load_batches small_config docs) ([], memory_store (\<lambda>k. k)) = (Inr (), [], s) \<and>
     manifest_at (mem_of s) ''bench'' = Some m \<and> mWALSeq m = 3 \<and> mDocCount m = 5 \<and> log_ops (mem_of s) ''bench'' 0 3 = docs"
proof -
  have v: "config_validate small_config = None" by code_simp
  have f: "rng_finite small_rng" by code_simp
  have c: "bcDocs small_config = 5" "bcDim small_config = 2" "bcTextField small_config = ''body''" "bcBatch small_config = 2"
    "bcNamespace small_config = ''bench''" by (simp_all add: small_config_def)
  obtain docs g' where d: "makeDocs 5 2 ''body'' small_rng = (docs, g')" by fastforce
  have ids: "map dID (fst (makeDocs 5 2 ''body'' small_rng)) = [''doc-0'', ''doc-1'', ''doc-2'', ''doc-3'', ''doc-4'']" by code_simp
  have n: "nat 5 = 5" "nat 2 = 2" "(5 + 2 - 1 :: int) div 2 = 3" "nat 3 = 3" by simp_all
  from workload_load_is_the_documents [of small_config small_rng, OF v f, unfolded c n, OF d, of "''body''" "[]" "\<lambda>k. k"]
  show ?thesis using ids d n(4) by fastforce
qed

end
