(* ===== verification/Spec2Isabelle.thy ===== *)
theory Spec2Isabelle
  imports Prelude GoFloat GoTime GoBits GoRand Storage Types Nvme
    Backend Cache Keys Manifest Branch Namespace Protocol Durability
    JobQueue Commit Broker Bench Bitmap BM25 Vector CentroidTree
    RaBitQ Lire Indexer Epoch Query QueryPlan Fusion QueryRun
    Recall Daemon Liveness S3 Reader Process Server Cli
    Hazards Workload
begin

text \<open>
  A verification development for a search engine on object storage.
\<close>

end
